theory Spec2Isabelle
  imports Complex_Main "HOL-Library.Word" "HOL-Library.Monad_Syntax" "HOL-Library.Multiset"
begin

unbundle bit_operations_syntax

chapter \<open>zultra: an optimal DEFLATE compressor\<close>

text \<open>
  A shallow embedding of the parts of zultra that its specification makes claims about:
  the bit writer, the Huffman code builder, the optimal parser, the stored-block
  fallback and framing of the stream compressor. Part I holds the definitions, each a
  translation of the C function of the same name; Part II the lemmas about them; Part
  III one theorem per claim.
\<close>

chapter \<open>Part I: the program\<close>

section \<open>Bit writer (huffman/bitwriter.c, huffman/bitwriter.h)\<close>

text \<open>
  The C struct \<^verbatim>\<open>zultra_bitwriter_t\<close>. \<^verbatim>\<open>int\<close> fields are integers (every value the
  functions below compute from a state with a pending count of at most 7 stays far inside
  the 32-bit range), the \<^verbatim>\<open>unsigned int\<close> accumulator is a 32-bit word, and the pointer
  \<^verbatim>\<open>pOutData\<close> is the address of the first byte of the output buffer. The buffer itself is
  not part of the struct: it lives in a byte store indexed by address, so that copying a
  writer never copies (or restores) buffer contents.
\<close>

record zultra_bitwriter_t =
  nEncBitCount :: int
  nEncBitsData :: "32 word"
  pOutData :: int
  nOutOffset :: int
  nMaxOutDataOffset :: int

type_synonym byte_store = "int \<Rightarrow> 8 word"

definition zultra_bitwriter_init :: "int \<Rightarrow> int \<Rightarrow> int \<Rightarrow> zultra_bitwriter_t" where
  "zultra_bitwriter_init pOut nOutOfs nMaxOutDataSize =
     \<lparr> nEncBitCount = 0, nEncBitsData = 0, pOutData = pOut,
       nOutOffset = nOutOfs, nMaxOutDataOffset = nMaxOutDataSize \<rparr>"

definition zultra_bitwriter_copy :: "zultra_bitwriter_t \<Rightarrow> zultra_bitwriter_t \<Rightarrow> zultra_bitwriter_t" where
  "zultra_bitwriter_copy dst src =
     dst \<lparr> nEncBitCount := nEncBitCount src, nEncBitsData := nEncBitsData src,
           pOutData := pOutData src, nOutOffset := nOutOffset src,
           nMaxOutDataOffset := nMaxOutDataOffset src \<rparr>"

definition zultra_bitwriter_get_offset :: "zultra_bitwriter_t \<Rightarrow> int" where
  "zultra_bitwriter_get_offset bw =
     (if nOutOffset bw \<le> nMaxOutDataOffset bw then nOutOffset bw else -1)"

definition zultra_bitwriter_set_offset :: "zultra_bitwriter_t \<Rightarrow> int \<Rightarrow> zultra_bitwriter_t" where
  "zultra_bitwriter_set_offset bw nOutOfs = bw \<lparr> nOutOffset := nOutOfs \<rparr>"

text \<open>
  The \<^verbatim>\<open>while (nEncBitCount >= 8)\<close> loop of \<^verbatim>\<open>zultra_bitwriter_put_bits\<close>. The result is
  the C return value together with the writer and the store as the call leaves them (a
  failing call has already changed both).
\<close>

function put_bits_loop :: "zultra_bitwriter_t \<Rightarrow> byte_store \<Rightarrow> int \<times> zultra_bitwriter_t \<times> byte_store" where
  "put_bits_loop bw m =
     (if nEncBitCount bw \<ge> 8 then
        (if nOutOffset bw \<ge> nMaxOutDataOffset bw then (-1, bw, m)
         else put_bits_loop
                (bw \<lparr> nOutOffset := nOutOffset bw + 1,
                      nEncBitsData := drop_bit 8 (nEncBitsData bw),
                      nEncBitCount := nEncBitCount bw - 8 \<rparr>)
                (m (pOutData bw + nOutOffset bw := ucast (nEncBitsData bw))))
      else (0, bw, m))"
  by pat_completeness auto
termination
  by (relation "measure (\<lambda>(bw, m). nat (nEncBitCount bw))") auto

declare put_bits_loop.simps [simp del]

text \<open>
  \<^verbatim>\<open>nValue << nEncBitCount\<close> is a 32-bit shift: bits pushed beyond bit 31 are lost. C leaves
  the shift undefined for a count outside 0..31; the model then shifts by \<open>nat\<close> of the
  count.
\<close>

definition zultra_bitwriter_put_bits ::
  "zultra_bitwriter_t \<Rightarrow> byte_store \<Rightarrow> 32 word \<Rightarrow> int \<Rightarrow> int \<times> zultra_bitwriter_t \<times> byte_store" where
  "zultra_bitwriter_put_bits bw m nValue nBits =
     (if nBits > 16 then (-1, bw, m)
      else put_bits_loop
             (bw \<lparr> nEncBitsData := nEncBitsData bw OR push_bit (nat (nEncBitCount bw)) nValue,
                   nEncBitCount := nEncBitCount bw + nBits \<rparr>) m)"

definition zultra_bitwriter_flush_bits ::
  "zultra_bitwriter_t \<Rightarrow> byte_store \<Rightarrow> int \<times> zultra_bitwriter_t \<times> byte_store" where
  "zultra_bitwriter_flush_bits bw m =
     (if nEncBitCount bw > 8 then (-1, bw, m)
      else if nEncBitCount bw > 0 then
        (if nOutOffset bw \<ge> nMaxOutDataOffset bw then (-1, bw, m)
         else (0,
               bw \<lparr> nOutOffset := nOutOffset bw + 1, nEncBitsData := 0, nEncBitCount := 0 \<rparr>,
               m (pOutData bw + nOutOffset bw :=
                    ucast (nEncBitsData bw AND (push_bit (nat (nEncBitCount bw)) 1 - 1)))))
      else (0, bw, m))"

text \<open>The state invariant of the claim: 0..7 pending bits, offset within the buffer bound.\<close>

definition bw_inv :: "zultra_bitwriter_t \<Rightarrow> bool" where
  "bw_inv bw \<longleftrightarrow> 0 \<le> nEncBitCount bw \<and> nEncBitCount bw \<le> 7 \<and> nOutOffset bw \<le> nMaxOutDataOffset bw"

text \<open>
  The emitted stream, read the way an inflater reads it: the bytes written so far, each
  least significant bit first, followed by the pending bits of the accumulator.
\<close>

definition bits_of :: "nat \<Rightarrow> 'a::len word \<Rightarrow> bool list" where
  "bits_of n w = map (bit w) [0..<n]"

definition bw_stream :: "zultra_bitwriter_t \<Rightarrow> byte_store \<Rightarrow> bool list" where
  "bw_stream bw m =
     concat (map (\<lambda>i. bits_of 8 (m (pOutData bw + int i))) [0..<nat (nOutOffset bw)])
     @ bits_of (nat (nEncBitCount bw)) (nEncBitsData bw)"

text \<open>No stale bits: the accumulator holds nothing above its pending count.\<close>

definition bw_clean :: "zultra_bitwriter_t \<Rightarrow> bool" where
  "bw_clean bw \<longleftrightarrow> take_bit (nat (nEncBitCount bw)) (nEncBitsData bw) = nEncBitsData bw"


text \<open>Concrete stores and runs used to evaluate the bit writer on explicit inputs.\<close>

definition zero_store :: byte_store where
  "zero_store = (\<lambda>_. 0)"

definition put_twice :: "32 word \<Rightarrow> int \<Rightarrow> 32 word \<Rightarrow> int \<Rightarrow> bool list" where
  "put_twice v1 n1 v2 n2 =
     (case zultra_bitwriter_put_bits (zultra_bitwriter_init 0 0 4) zero_store v1 n1 of
        (s1, b1, m1) \<Rightarrow>
          (case zultra_bitwriter_put_bits b1 m1 v2 n2 of (s2, b2, m2) \<Rightarrow> bw_stream b2 m2))"

section \<open>Stream context and sizing (libzultra.c, libzultra.h, private.h, format.h)\<close>

datatype zultra_status_t =
    ZULTRA_OK
  | ZULTRA_ERROR_SRC
  | ZULTRA_ERROR_DST
  | ZULTRA_ERROR_DICTIONARY
  | ZULTRA_ERROR_MEMORY
  | ZULTRA_ERROR_COMPRESSION

definition ZULTRA_FLAG_DEFLATE_FRAMING :: "32 word" where "ZULTRA_FLAG_DEFLATE_FRAMING = 0"
definition ZULTRA_FLAG_ZLIB_FRAMING :: "32 word" where "ZULTRA_FLAG_ZLIB_FRAMING = 1"
definition ZULTRA_FLAG_GZIP_FRAMING :: "32 word" where "ZULTRA_FLAG_GZIP_FRAMING = 2"

definition ZULTRA_DEFAULT_MAX_BLOCK_SIZE :: "32 word" where
  "ZULTRA_DEFAULT_MAX_BLOCK_SIZE = 1048576"

definition HISTORY_SIZE :: int where "HISTORY_SIZE = 32768"
definition MAX_SPLITS :: int where "MAX_SPLITS = 64"

text \<open>
  The size of the compressor's output buffer, written out three times in libzultra.c as
  \<^verbatim>\<open>1 + nMaxBlockSize + (1 + 4) * ((nMaxBlockSize / 65535) + 1)\<close>.
\<close>

definition out_buffer_size :: "int \<Rightarrow> int" where
  "out_buffer_size nMaxBlockSize = 1 + nMaxBlockSize + (1 + 4) * ((nMaxBlockSize div 65535) + 1)"

text \<open>
  \<^verbatim>\<open>zultra_compressor_t\<close>. Sizes and indices (\<^verbatim>\<open>size_t\<close>) are natural numbers; the input
  window \<^verbatim>\<open>in_data\<close> is a byte map indexed from the start of the window, and the output
  buffer \<^verbatim>\<open>out_buffer\<close> is the byte store the bit writer writes to, at address 0. The
  block-level working state (suffix-array context, \<^verbatim>\<open>intervals\<close>, \<^verbatim>\<open>pos_data\<close>,
  \<^verbatim>\<open>open_intervals\<close>, \<^verbatim>\<open>match\<close>, \<^verbatim>\<open>best_match\<close> and the two Huffman encoders) is only
  handed on by the stream layer to the block-level functions: it is the field
  \<open>block_state\<close> of a type the stream layer does not look into.
\<close>

record 'b zultra_compressor_t =
  flags :: "32 word"
  max_block_size :: "32 word"
  dictionary_data :: "8 word list option"
  dictionary_size :: int
  in_data :: "int \<Rightarrow> 8 word"
  cur_in_bytes :: nat
  previous_block_size :: int
  out_buffer :: byte_store
  cur_out_index :: nat
  pending_out_bytes :: nat
  bitwriter :: zultra_bitwriter_t
  compression_state :: "32 word"
  cur_frame_index :: nat
  pending_frame_bytes :: nat
  frame_buffer :: "8 word list"
  block_state :: 'b

text \<open>
  \<^verbatim>\<open>zultra_stream_init\<close>. The allocator \<^verbatim>\<open>pStream->zalloc\<close> (the caller's, or \<^verbatim>\<open>malloc\<close>) is
  the parameter \<open>zalloc\<close>: \<open>zalloc k\<close> tells whether the allocation made at the \<open>k\<close>-th
  allocation site of the function succeeds (0 the compressor struct, 1 \<^verbatim>\<open>in_data\<close>,
  2 \<^verbatim>\<open>out_buffer\<close>, 3 \<^verbatim>\<open>intervals\<close>, 4 \<^verbatim>\<open>pos_data\<close>, 5 \<^verbatim>\<open>open_intervals\<close>, 6 \<^verbatim>\<open>match\<close>,
  7 \<^verbatim>\<open>best_match\<close>). \<open>divsufsort_init\<close> is the return value of the suffix-array library's
  initialiser and \<open>bs\<close> the block-level state as allocated. On failure the function calls
  \<^verbatim>\<open>zultra_stream_end\<close>, which frees the context: the result then carries no compressor.
  All buffers are zero-filled (\<^verbatim>\<open>memset\<close>).
\<close>

definition zultra_stream_init ::
  "(nat \<Rightarrow> bool) \<Rightarrow> int \<Rightarrow> 'b \<Rightarrow> 32 word \<Rightarrow> 32 word
   \<Rightarrow> zultra_status_t \<times> 'b zultra_compressor_t option" where
  "zultra_stream_init zalloc divsufsort_init bs nFlags nMaxBlockSize0 =
     (let nMaxBlockSize1 = (if nMaxBlockSize0 = 0 then ZULTRA_DEFAULT_MAX_BLOCK_SIZE else nMaxBlockSize0);
          nMaxBlockSize2 = (if nMaxBlockSize1 < 32768 then 32768 else nMaxBlockSize1);
          nMaxBlockSize = (if nMaxBlockSize2 > 2097152 then 2097152 else nMaxBlockSize2)
      in
        if \<not> zalloc 0 then (ZULTRA_ERROR_MEMORY, None)
        else if \<not> zalloc 1 then (ZULTRA_ERROR_MEMORY, None)
        else if \<not> zalloc 2 then (ZULTRA_ERROR_MEMORY, None)
        else
          let nResult =
                (if divsufsort_init = 0 then
                   (if zalloc 3 then
                      (if zalloc 4 then
                         (if zalloc 5 then
                            (if zalloc 6 then
                               (if zalloc 7 then 0 else -1)
                             else -1)
                          else -1)
                       else -1)
                    else -1)
                 else divsufsort_init)
          in
            if nResult \<noteq> (0::int) then (ZULTRA_ERROR_MEMORY, None)
            else
              (ZULTRA_OK,
               Some \<lparr> flags = nFlags,
                      max_block_size = nMaxBlockSize,
                      dictionary_data = None,
                      dictionary_size = 0,
                      in_data = (\<lambda>_. 0),
                      cur_in_bytes = 0,
                      previous_block_size = 0,
                      out_buffer = (\<lambda>_. 0),
                      cur_out_index = 0,
                      pending_out_bytes = 0,
                      bitwriter = zultra_bitwriter_init 0 0 (out_buffer_size (uint nMaxBlockSize)),
                      compression_state = 0,
                      cur_frame_index = 0,
                      pending_frame_bytes = 0,
                      frame_buffer = replicate 16 0,
                      block_state = bs \<rparr>))"

text \<open>
  \<^verbatim>\<open>zultra_memory_bound\<close>. \<^verbatim>\<open>size_t\<close> is taken to be 64 bits wide: the sum is computed in
  \<^verbatim>\<open>size_t\<close>, so it wraps modulo \<open>2 ^ 64\<close>, and the \<^verbatim>\<open>int\<close> results of the two frame
  functions are converted to \<^verbatim>\<open>size_t\<close>. The frame functions
  \<^verbatim>\<open>zultra_frame_get_header_size\<close> and \<^verbatim>\<open>zultra_frame_get_footer_size\<close> (frame.c) are the
  parameters \<open>get_header_size\<close> and \<open>get_footer_size\<close>, applied to the flags.
\<close>

definition zultra_memory_bound ::
  "(32 word \<Rightarrow> int) \<Rightarrow> (32 word \<Rightarrow> int) \<Rightarrow> 64 word \<Rightarrow> 32 word \<Rightarrow> 32 word \<Rightarrow> 64 word" where
  "zultra_memory_bound get_header_size get_footer_size nInputSize nFlags nMaxBlockSize0 =
     (let nMaxSplits = MAX_SPLITS;
          nMaxBlockSize1 = (if nMaxBlockSize0 = 0 then ZULTRA_DEFAULT_MAX_BLOCK_SIZE else nMaxBlockSize0);
          nMaxBlockSize2 = (if nMaxBlockSize1 < 32768 then 32768 else nMaxBlockSize1);
          nMaxBlockSize = (if nMaxBlockSize2 > 2097152 then 2097152 else nMaxBlockSize2)
      in word_of_int (get_header_size nFlags)
         + ((nInputSize + ucast (nMaxBlockSize - 1)) div ucast nMaxBlockSize)
             * (1 + 4 + 1) * word_of_int nMaxSplits
         + nInputSize + 1 + word_of_int (get_footer_size nFlags))"

text \<open>The block size both functions work with, after defaulting and clamping.\<close>

definition effective_block_size :: "32 word \<Rightarrow> 32 word" where
  "effective_block_size B =
     (if B = 0 then 1048576 else if B < 32768 then 32768 else if B > 2097152 then 2097152 else B)"

definition always_succeeds :: "nat \<Rightarrow> bool" where
  "always_succeeds k = True"

section \<open>Framing (frame.h; frame.c is not part of the sources)\<close>

text \<open>
  Modelled from the spec: the framing functions of frame.c, of which only the
  declarations in frame.h are available. The specification's section on external
  interfaces and its seed scenarios give the wrappers: raw deflate has no header and no
  footer; zlib prepends the 2-byte header 78 9c and appends a 4-byte big-endian
  Adler-32; gzip prepends the fixed 10-byte header 1f 8b 08 00 00 00 00 00 00 ff and
  appends the little-endian CRC-32 and the little-endian ISIZE (4 bytes each). No
  dictionary is set in the scenarios modelled here.
\<close>

definition spec_frame_get_header_size :: "32 word \<Rightarrow> int" where
  "spec_frame_get_header_size nFlags =
     (if nFlags = ZULTRA_FLAG_GZIP_FRAMING then 10
      else if nFlags = ZULTRA_FLAG_ZLIB_FRAMING then 2 else 0)"

definition spec_frame_get_footer_size :: "32 word \<Rightarrow> int" where
  "spec_frame_get_footer_size nFlags =
     (if nFlags = ZULTRA_FLAG_GZIP_FRAMING then 8
      else if nFlags = ZULTRA_FLAG_ZLIB_FRAMING then 4 else 0)"

definition spec_frame_header_bytes :: "32 word \<Rightarrow> 8 word list" where
  "spec_frame_header_bytes nFlags =
     (if nFlags = ZULTRA_FLAG_GZIP_FRAMING then [0x1f, 0x8b, 0x08, 0, 0, 0, 0, 0, 0, 0xff]
      else if nFlags = ZULTRA_FLAG_ZLIB_FRAMING then [0x78, 0x9c] else [])"

section \<open>Huffman encoder state (huffman/huffencoder.h, huffman/huffencoder.c)\<close>

text \<open>
  \<^verbatim>\<open>zultra_huffman_encoder_t\<close>. The three arrays have \<^verbatim>\<open>MAX_SYMBOLS\<close> = 288 entries each;
  they are lists, read with \<open>!\<close> at indices the code keeps below 288.
\<close>

record zultra_huffman_encoder_t =
  nSymbols :: int
  nMaxCodeLength :: int
  nEntropy :: "int list"
  nCodeWord :: "32 word list"
  nCodeLength :: "int list"

definition zultra_huffman_encoder_init ::
  "zultra_huffman_encoder_t \<Rightarrow> int \<Rightarrow> int \<Rightarrow> int \<Rightarrow> int \<times> zultra_huffman_encoder_t" where
  "zultra_huffman_encoder_init enc nSyms nMaxLen nDefaultCodeLength =
     (if nSyms < 0 \<or> nSyms > 288 \<or> nMaxLen < 0 \<or> nMaxLen > 32 then (-1, enc)
      else (0, \<lparr> nSymbols = nSyms,
                  nMaxCodeLength = nMaxLen,
                  nEntropy = replicate 288 0,
                  nCodeWord = replicate 288 0,
                  nCodeLength = replicate (nat nSyms) nDefaultCodeLength
                                @ replicate (288 - nat nSyms) 0 \<rparr>))"

section \<open>Cost model and optimal parser (blockdeflate.c, private.h, format.h)\<close>

definition MIN_MATCH_SIZE :: int where "MIN_MATCH_SIZE = 3"
definition MIN_OFFSET :: int where "MIN_OFFSET = 1"
definition MAX_OFFSET :: int where "MAX_OFFSET = 32768"
definition NLITERALSYMS :: int where "NLITERALSYMS = 288"
definition NOFFSETSYMS :: int where "NOFFSETSYMS = 32"
definition NCODELENSYMS :: int where "NCODELENSYMS = 19"
definition NMATCHES_PER_OFFSET :: int where "NMATCHES_PER_OFFSET = 8"
definition LEAVE_ALONE_MATCH_SIZE :: int where "LEAVE_ALONE_MATCH_SIZE = 40"
definition LAST_LITERALS :: int where "LAST_LITERALS = 1"
definition MAX_SYMBOLS :: int where "MAX_SYMBOLS = 288"

text \<open>
  The static tables of blockdeflate.c that the cost functions read, copied entry by
  entry: the Huffman symbol and the number of extra bits of every match offset (offsets
  1..256 directly, larger ones in steps of 128), and of every encoded match length.
\<close>

definition g_nOffsetSymbol :: "int list" where
  "g_nOffsetSymbol =
    [
     0, 1, 2, 3, 4, 4, 5, 5, 6, 6, 6, 6, 7, 7, 7, 7, 8, 8, 8, 8, 8, 8, 8, 8,
     9, 9, 9, 9, 9, 9, 9, 9, 10, 10, 10, 10, 10, 10, 10, 10, 10, 10, 10, 10, 10, 10, 10, 10,
     11, 11, 11, 11, 11, 11, 11, 11, 11, 11, 11, 11, 11, 11, 11, 11, 12, 12, 12, 12, 12, 12, 12, 12,
     12, 12, 12, 12, 12, 12, 12, 12, 12, 12, 12, 12, 12, 12, 12, 12, 12, 12, 12, 12, 12, 12, 12, 12,
     13, 13, 13, 13, 13, 13, 13, 13, 13, 13, 13, 13, 13, 13, 13, 13, 13, 13, 13, 13, 13, 13, 13, 13,
     13, 13, 13, 13, 13, 13, 13, 13, 14, 14, 14, 14, 14, 14, 14, 14, 14, 14, 14, 14, 14, 14, 14, 14,
     14, 14, 14, 14, 14, 14, 14, 14, 14, 14, 14, 14, 14, 14, 14, 14, 14, 14, 14, 14, 14, 14, 14, 14,
     14, 14, 14, 14, 14, 14, 14, 14, 14, 14, 14, 14, 14, 14, 14, 14, 14, 14, 14, 14, 14, 14, 14, 14,
     15, 15, 15, 15, 15, 15, 15, 15, 15, 15, 15, 15, 15, 15, 15, 15, 15, 15, 15, 15, 15, 15, 15, 15,
     15, 15, 15, 15, 15, 15, 15, 15, 15, 15, 15, 15, 15, 15, 15, 15, 15, 15, 15, 15, 15, 15, 15, 15,
     15, 15, 15, 15, 15, 15, 15, 15, 15, 15, 15, 15, 15, 15, 15, 15, 16, 17, 18, 18, 19, 19, 20, 20,
     20, 20, 21, 21, 21, 21, 22, 22, 22, 22, 22, 22, 22, 22, 23, 23, 23, 23, 23, 23, 23, 23, 24, 24,
     24, 24, 24, 24, 24, 24, 24, 24, 24, 24, 24, 24, 24, 24, 25, 25, 25, 25, 25, 25, 25, 25, 25, 25,
     25, 25, 25, 25, 25, 25, 26, 26, 26, 26, 26, 26, 26, 26, 26, 26, 26, 26, 26, 26, 26, 26, 26, 26,
     26, 26, 26, 26, 26, 26, 26, 26, 26, 26, 26, 26, 26, 26, 27, 27, 27, 27, 27, 27, 27, 27, 27, 27,
     27, 27, 27, 27, 27, 27, 27, 27, 27, 27, 27, 27, 27, 27, 27, 27, 27, 27, 27, 27, 27, 27, 28, 28,
     28, 28, 28, 28, 28, 28, 28, 28, 28, 28, 28, 28, 28, 28, 28, 28, 28, 28, 28, 28, 28, 28, 28, 28,
     28, 28, 28, 28, 28, 28, 28, 28, 28, 28, 28, 28, 28, 28, 28, 28, 28, 28, 28, 28, 28, 28, 28, 28,
     28, 28, 28, 28, 28, 28, 28, 28, 28, 28, 28, 28, 28, 28, 29, 29, 29, 29, 29, 29, 29, 29, 29, 29,
     29, 29, 29, 29, 29, 29, 29, 29, 29, 29, 29, 29, 29, 29, 29, 29, 29, 29, 29, 29, 29, 29, 29, 29,
     29, 29, 29, 29, 29, 29, 29, 29, 29, 29, 29, 29, 29, 29, 29, 29, 29, 29, 29, 29, 29, 29, 29, 29,
     29, 29, 29, 29, 29, 29, 0, 0]"

definition g_nOffsetExtraBits :: "int list" where
  "g_nOffsetExtraBits =
    [
     0, 0, 0, 0, 1, 1, 1, 1, 2, 2, 2, 2, 2, 2, 2, 2, 3, 3, 3, 3, 3, 3, 3, 3,
     3, 3, 3, 3, 3, 3, 3, 3, 4, 4, 4, 4, 4, 4, 4, 4, 4, 4, 4, 4, 4, 4, 4, 4,
     4, 4, 4, 4, 4, 4, 4, 4, 4, 4, 4, 4, 4, 4, 4, 4, 5, 5, 5, 5, 5, 5, 5, 5,
     5, 5, 5, 5, 5, 5, 5, 5, 5, 5, 5, 5, 5, 5, 5, 5, 5, 5, 5, 5, 5, 5, 5, 5,
     5, 5, 5, 5, 5, 5, 5, 5, 5, 5, 5, 5, 5, 5, 5, 5, 5, 5, 5, 5, 5, 5, 5, 5,
     5, 5, 5, 5, 5, 5, 5, 5, 6, 6, 6, 6, 6, 6, 6, 6, 6, 6, 6, 6, 6, 6, 6, 6,
     6, 6, 6, 6, 6, 6, 6, 6, 6, 6, 6, 6, 6, 6, 6, 6, 6, 6, 6, 6, 6, 6, 6, 6,
     6, 6, 6, 6, 6, 6, 6, 6, 6, 6, 6, 6, 6, 6, 6, 6, 6, 6, 6, 6, 6, 6, 6, 6,
     6, 6, 6, 6, 6, 6, 6, 6, 6, 6, 6, 6, 6, 6, 6, 6, 6, 6, 6, 6, 6, 6, 6, 6,
     6, 6, 6, 6, 6, 6, 6, 6, 6, 6, 6, 6, 6, 6, 6, 6, 6, 6, 6, 6, 6, 6, 6, 6,
     6, 6, 6, 6, 6, 6, 6, 6, 6, 6, 6, 6, 6, 6, 6, 6, 7, 7, 8, 8, 8, 8, 9, 9,
     9, 9, 9, 9, 9, 9, 10, 10, 10, 10, 10, 10, 10, 10, 10, 10, 10, 10, 10, 10, 10, 10, 11, 11,
     11, 11, 11, 11, 11, 11, 11, 11, 11, 11, 11, 11, 11, 11, 11, 11, 11, 11, 11, 11, 11, 11, 11, 11,
     11, 11, 11, 11, 11, 11, 12, 12, 12, 12, 12, 12, 12, 12, 12, 12, 12, 12, 12, 12, 12, 12, 12, 12,
     12, 12, 12, 12, 12, 12, 12, 12, 12, 12, 12, 12, 12, 12, 12, 12, 12, 12, 12, 12, 12, 12, 12, 12,
     12, 12, 12, 12, 12, 12, 12, 12, 12, 12, 12, 12, 12, 12, 12, 12, 12, 12, 12, 12, 12, 12, 13, 13,
     13, 13, 13, 13, 13, 13, 13, 13, 13, 13, 13, 13, 13, 13, 13, 13, 13, 13, 13, 13, 13, 13, 13, 13,
     13, 13, 13, 13, 13, 13, 13, 13, 13, 13, 13, 13, 13, 13, 13, 13, 13, 13, 13, 13, 13, 13, 13, 13,
     13, 13, 13, 13, 13, 13, 13, 13, 13, 13, 13, 13, 13, 13, 13, 13, 13, 13, 13, 13, 13, 13, 13, 13,
     13, 13, 13, 13, 13, 13, 13, 13, 13, 13, 13, 13, 13, 13, 13, 13, 13, 13, 13, 13, 13, 13, 13, 13,
     13, 13, 13, 13, 13, 13, 13, 13, 13, 13, 13, 13, 13, 13, 13, 13, 13, 13, 13, 13, 13, 13, 13, 13,
     13, 13, 13, 13, 13, 13, 0, 0]"

definition g_nMatchLenSymbol :: "int list" where
  "g_nMatchLenSymbol =
    [
     257, 258, 259, 260, 261, 262, 263, 264, 265, 265, 266, 266, 267, 267, 268, 268, 269, 269, 269, 269, 270, 270, 270, 270,
     271, 271, 271, 271, 272, 272, 272, 272, 273, 273, 273, 273, 273, 273, 273, 273, 274, 274, 274, 274, 274, 274, 274, 274,
     275, 275, 275, 275, 275, 275, 275, 275, 276, 276, 276, 276, 276, 276, 276, 276, 277, 277, 277, 277, 277, 277, 277, 277,
     277, 277, 277, 277, 277, 277, 277, 277, 278, 278, 278, 278, 278, 278, 278, 278, 278, 278, 278, 278, 278, 278, 278, 278,
     279, 279, 279, 279, 279, 279, 279, 279, 279, 279, 279, 279, 279, 279, 279, 279, 280, 280, 280, 280, 280, 280, 280, 280,
     280, 280, 280, 280, 280, 280, 280, 280, 281, 281, 281, 281, 281, 281, 281, 281, 281, 281, 281, 281, 281, 281, 281, 281,
     281, 281, 281, 281, 281, 281, 281, 281, 281, 281, 281, 281, 281, 281, 281, 281, 282, 282, 282, 282, 282, 282, 282, 282,
     282, 282, 282, 282, 282, 282, 282, 282, 282, 282, 282, 282, 282, 282, 282, 282, 282, 282, 282, 282, 282, 282, 282, 282,
     283, 283, 283, 283, 283, 283, 283, 283, 283, 283, 283, 283, 283, 283, 283, 283, 283, 283, 283, 283, 283, 283, 283, 283,
     283, 283, 283, 283, 283, 283, 283, 283, 284, 284, 284, 284, 284, 284, 284, 284, 284, 284, 284, 284, 284, 284, 284, 284,
     284, 284, 284, 284, 284, 284, 284, 284, 284, 284, 284, 284, 284, 284, 284, 285]"

definition g_nMatchLenExtraBits :: "int list" where
  "g_nMatchLenExtraBits =
    [
     0, 0, 0, 0, 0, 0, 0, 0, 1, 1, 1, 1, 1, 1, 1, 1, 2, 2, 2, 2, 2, 2, 2, 2,
     2, 2, 2, 2, 2, 2, 2, 2, 3, 3, 3, 3, 3, 3, 3, 3, 3, 3, 3, 3, 3, 3, 3, 3,
     3, 3, 3, 3, 3, 3, 3, 3, 3, 3, 3, 3, 3, 3, 3, 3, 4, 4, 4, 4, 4, 4, 4, 4,
     4, 4, 4, 4, 4, 4, 4, 4, 4, 4, 4, 4, 4, 4, 4, 4, 4, 4, 4, 4, 4, 4, 4, 4,
     4, 4, 4, 4, 4, 4, 4, 4, 4, 4, 4, 4, 4, 4, 4, 4, 4, 4, 4, 4, 4, 4, 4, 4,
     4, 4, 4, 4, 4, 4, 4, 4, 5, 5, 5, 5, 5, 5, 5, 5, 5, 5, 5, 5, 5, 5, 5, 5,
     5, 5, 5, 5, 5, 5, 5, 5, 5, 5, 5, 5, 5, 5, 5, 5, 5, 5, 5, 5, 5, 5, 5, 5,
     5, 5, 5, 5, 5, 5, 5, 5, 5, 5, 5, 5, 5, 5, 5, 5, 5, 5, 5, 5, 5, 5, 5, 5,
     5, 5, 5, 5, 5, 5, 5, 5, 5, 5, 5, 5, 5, 5, 5, 5, 5, 5, 5, 5, 5, 5, 5, 5,
     5, 5, 5, 5, 5, 5, 5, 5, 5, 5, 5, 5, 5, 5, 5, 5, 5, 5, 5, 5, 5, 5, 5, 5,
     5, 5, 5, 5, 5, 5, 5, 5, 5, 5, 5, 5, 5, 5, 5, 0]"

subsection \<open>Block-level state\<close>

text \<open>
  \<^verbatim>\<open>zultra_match_t\<close>: two \<^verbatim>\<open>unsigned short\<close> fields (named \<^verbatim>\<open>length\<close> and \<^verbatim>\<open>offset\<close> in C).
\<close>

record zultra_match_t =
  match_length :: "16 word"
  match_offset :: "16 word"

text \<open>
  The part of \<^verbatim>\<open>zultra_compressor_t\<close> that the parser works on. Arrays are maps from the
  index to the element. \<^verbatim>\<open>match\<close> has \<^verbatim>\<open>NMATCHES_PER_OFFSET\<close> = 8 slots per window
  position; \<^verbatim>\<open>pos_data\<close> is the array that \<^verbatim>\<open>zultra_optimize_matches_lwd\<close> reuses as its
  \<^verbatim>\<open>int cost[]\<close>. Costs are sums of code lengths over at most one window; they are
  integers here (in C they are \<^verbatim>\<open>int\<close>, and stay far below \<open>2 ^ 31\<close> for code lengths of
  at most 15 bits).
\<close>

record zultra_block_t =
  match :: "int \<Rightarrow> zultra_match_t"
  best_match :: "int \<Rightarrow> zultra_match_t"
  pos_data :: "int \<Rightarrow> int"
  literalsEncoder :: zultra_huffman_encoder_t
  offsetEncoder :: zultra_huffman_encoder_t

subsection \<open>Cost model\<close>

definition zultra_get_literal_size :: "zultra_block_t \<Rightarrow> 32 word \<Rightarrow> int" where
  "zultra_get_literal_size c nLiteralByte =
     (if nLiteralByte < 256 then nCodeLength (literalsEncoder c) ! unat nLiteralByte else 8)"

text \<open>The argument is \<^verbatim>\<open>unsigned int\<close>: \<^verbatim>\<open>nMatchOffset--\<close> wraps an offset of 0 around.\<close>

definition zultra_get_offset_size :: "zultra_block_t \<Rightarrow> 32 word \<Rightarrow> int" where
  "zultra_get_offset_size c nMatchOffset0 =
     (let nMatchOffset = nMatchOffset0 - 1 in
      if nMatchOffset < 256 then
        nCodeLength (offsetEncoder c) ! nat (g_nOffsetSymbol ! unat nMatchOffset)
          + g_nOffsetExtraBits ! unat nMatchOffset
      else if nMatchOffset < 32768 then
        (let nIdx = 256 + drop_bit 7 (nMatchOffset - 256) in
         nCodeLength (offsetEncoder c) ! nat (g_nOffsetSymbol ! unat nIdx)
           + g_nOffsetExtraBits ! unat nIdx)
      else NOFFSETSYMS)"

definition zultra_get_varlen_size :: "zultra_block_t \<Rightarrow> 32 word \<Rightarrow> int" where
  "zultra_get_varlen_size c nLength0 =
     (let nLength = (if nLength0 > 255 then 255 else nLength0) in
      nCodeLength (literalsEncoder c) ! nat (g_nMatchLenSymbol ! unat nLength)
        + g_nMatchLenExtraBits ! unat nLength)"

subsection \<open>Optimal parser: \<^verbatim>\<open>zultra_optimize_matches_lwd\<close>\<close>

text \<open>
  The running best of one position: \<^verbatim>\<open>nBestCost\<close>, \<^verbatim>\<open>nBestMatchLen\<close>,
  \<^verbatim>\<open>nBestMatchOffset\<close>.
\<close>

type_synonym best_t = "int \<times> int \<times> 16 word"

text \<open>
  The innermost loop \<^verbatim>\<open>for (k = nMatchLen; k >= MIN_MATCH_SIZE; k--)\<close>: every length of a
  candidate shorter than \<^verbatim>\<open>LEAVE_ALONE_MATCH_SIZE\<close>, from the longest down.
\<close>

function opt_k_loop ::
  "int list \<Rightarrow> (int \<Rightarrow> int) \<Rightarrow> int \<Rightarrow> int \<Rightarrow> 16 word \<Rightarrow> int \<Rightarrow> best_t \<Rightarrow> best_t" where
  "opt_k_loop nCachedVarlenSize cost i nOffsetSize ofs k best =
     (if k \<ge> 3 then
        (let nCurCost = nCachedVarlenSize ! nat (k - 3) + (nOffsetSize + cost (i + k))
         in opt_k_loop nCachedVarlenSize cost i nOffsetSize ofs (k - 1)
              (if fst best > nCurCost then (nCurCost, k, ofs) else best))
      else best)"
  by pat_completeness auto
termination
  by (relation "measure (\<lambda>(cached, cost, i, os, ofs, k, best). nat (k - 2))") auto

declare opt_k_loop.simps [simp del]

text \<open>
  The loop over the candidates of one position,
  \<^verbatim>\<open>for (m = 0; m < NMATCHES_PER_OFFSET && pMatch[m].length >= MIN_MATCH_SIZE; m++)\<close>, with
  \<^verbatim>\<open>pMatch = match + (i << 3)\<close>; \<open>opt_m_body\<close> is its body. The encoded length handed
  to \<^verbatim>\<open>zultra_get_varlen_size\<close> is converted to \<^verbatim>\<open>unsigned int\<close>.
\<close>

definition opt_m_body ::
  "zultra_block_t \<Rightarrow> int list \<Rightarrow> (int \<Rightarrow> int) \<Rightarrow> int \<Rightarrow> int \<Rightarrow> int \<Rightarrow> best_t \<Rightarrow> best_t" where
  "opt_m_body c nCachedVarlenSize cost i nEndOffset m best =
     (let pMatch_m = match c (i * 8 + m);
          nOffsetSize = zultra_get_offset_size c (ucast (match_offset pMatch_m));
          nMatchLen0 = uint (match_length pMatch_m);
          nMatchLen = (if (i + nMatchLen0) > (nEndOffset - 1) then nEndOffset - 1 - i
                       else nMatchLen0)
      in if uint (match_length pMatch_m) \<ge> 40 then
           (let nCurCost = zultra_get_varlen_size c (word_of_int (nMatchLen - 3))
                             + (nOffsetSize + cost (i + nMatchLen))
            in if fst best > nCurCost then (nCurCost, nMatchLen, match_offset pMatch_m)
               else best)
         else opt_k_loop nCachedVarlenSize cost i nOffsetSize (match_offset pMatch_m)
                nMatchLen best)"

function opt_m_loop ::
  "zultra_block_t \<Rightarrow> int list \<Rightarrow> (int \<Rightarrow> int) \<Rightarrow> int \<Rightarrow> int \<Rightarrow> int \<Rightarrow> best_t \<Rightarrow> best_t" where
  "opt_m_loop c nCachedVarlenSize cost i nEndOffset m best =
     (if m < 8 \<and> uint (match_length (match c (i * 8 + m))) \<ge> 3 then
        opt_m_loop c nCachedVarlenSize cost i nEndOffset (m + 1)
          (opt_m_body c nCachedVarlenSize cost i nEndOffset m best)
      else best)"
  by pat_completeness auto
termination
  by (relation "measure (\<lambda>(c, cached, cost, i, e, m, best). nat (8 - m))") auto

declare opt_m_loop.simps [simp del]

text \<open>
  The outer loop \<^verbatim>\<open>for (i = nEndOffset - 2; i != (nStartOffset - 1); i--)\<close>; \<open>opt_i_body\<close>
  is its body. The loop is entered with \<open>i = nEndOffset - 2 \<ge> nStartOffset - 1\<close> and
  counts down by one, so \<open>i \<noteq> nStartOffset - 1\<close> and \<open>i > nStartOffset - 1\<close> agree on
  every value \<open>i\<close> takes; the guard is written with \<open>>\<close>. The state is \<^verbatim>\<open>cost[]\<close> and
  \<^verbatim>\<open>best_match[]\<close>.
\<close>

definition opt_i_body ::
  "zultra_block_t \<Rightarrow> (int \<Rightarrow> 8 word) \<Rightarrow> int list \<Rightarrow> int \<Rightarrow> int
   \<Rightarrow> (int \<Rightarrow> int) \<times> (int \<Rightarrow> zultra_match_t) \<Rightarrow> (int \<Rightarrow> int) \<times> (int \<Rightarrow> zultra_match_t)" where
  "opt_i_body c pInWindow nCachedVarlenSize nEndOffset i st =
     (let cost = fst st; best = snd st;
          nBestCost = zultra_get_literal_size c (ucast (pInWindow i)) + cost (i + 1);
          r = opt_m_loop c nCachedVarlenSize cost i nEndOffset 0 (nBestCost, 0, 0)
      in (cost (i := fst r),
          best (i := \<lparr> match_length = word_of_int (fst (snd r)),
                         match_offset = snd (snd r) \<rparr>)))"

function opt_i_loop ::
  "zultra_block_t \<Rightarrow> (int \<Rightarrow> 8 word) \<Rightarrow> int list \<Rightarrow> int \<Rightarrow> int \<Rightarrow> int
   \<Rightarrow> (int \<Rightarrow> int) \<times> (int \<Rightarrow> zultra_match_t) \<Rightarrow> (int \<Rightarrow> int) \<times> (int \<Rightarrow> zultra_match_t)" where
  "opt_i_loop c pInWindow nCachedVarlenSize nStartOffset nEndOffset i st =
     (if i > nStartOffset - 1 then
        opt_i_loop c pInWindow nCachedVarlenSize nStartOffset nEndOffset (i - 1)
          (opt_i_body c pInWindow nCachedVarlenSize nEndOffset i st)
      else st)"
  by pat_completeness auto
termination
  by (relation "measure (\<lambda>(c, w, cached, s, e, i, st). nat (i - (s - 1)))") auto

declare opt_i_loop.simps [simp del]

definition zultra_optimize_matches_lwd ::
  "zultra_block_t \<Rightarrow> (int \<Rightarrow> 8 word) \<Rightarrow> int \<Rightarrow> int \<Rightarrow> zultra_block_t" where
  "zultra_optimize_matches_lwd c pInWindow nStartOffset nEndOffset =
     (if nEndOffset \<le> nStartOffset then c
      else
        (let nCachedVarlenSize = map (\<lambda>i. zultra_get_varlen_size c (word_of_nat i)) [0..<40];
             cost0 = (pos_data c) (nEndOffset - 1 :=
                        zultra_get_literal_size c (ucast (pInWindow (nEndOffset - 1))));
             best0 = (best_match c) (nEndOffset - 1 := \<lparr> match_length = 0, match_offset = 0 \<rparr>);
             st = opt_i_loop c pInWindow nCachedVarlenSize nStartOffset nEndOffset
                    (nEndOffset - 2) (cost0, best0)
         in c \<lparr> best_match := snd st, pos_data := fst st \<rparr>))"

text \<open>
  The walk over the chosen parse that \<^verbatim>\<open>zultra_write_block_lwd\<close> (and the entropy counters
  and \<^verbatim>\<open>zultra_post_optimize_block_lwd\<close>) perform: a slot with a length of at least
  \<^verbatim>\<open>MIN_MATCH_SIZE\<close> is a match token covering that many positions, any other slot is a
  literal token covering one. The result lists the positions at which a token starts.
\<close>

function token_starts :: "(int \<Rightarrow> zultra_match_t) \<Rightarrow> int \<Rightarrow> int \<Rightarrow> int list" where
  "token_starts best i nEndOffset =
     (if i < nEndOffset then
        (if uint (match_length (best i)) \<ge> 3
         then i # token_starts best (i + uint (match_length (best i))) nEndOffset
         else i # token_starts best (i + 1) nEndOffset)
      else [])"
  by pat_completeness auto
termination
  by (relation "measure (\<lambda>(best, i, e). nat (e - i))") auto

declare token_starts.simps [simp del]

text \<open>
  The candidates of one table slot and of one position, in the order in which the loops
  above evaluate them, as (cost, length, offset); a description of the loops used to
  state which candidate wins.
\<close>

definition slot_candidates ::
  "zultra_block_t \<Rightarrow> (int \<Rightarrow> int) \<Rightarrow> int \<Rightarrow> int \<Rightarrow> int \<Rightarrow> best_t list" where
  "slot_candidates c cost i nEndOffset m =
     (let pMatch_m = match c (i * 8 + m);
          nOffsetSize = zultra_get_offset_size c (ucast (match_offset pMatch_m));
          nMatchLen0 = uint (match_length pMatch_m);
          nMatchLen = (if (i + nMatchLen0) > (nEndOffset - 1) then nEndOffset - 1 - i
                       else nMatchLen0)
      in if uint (match_length pMatch_m) \<ge> 40 then
           [(zultra_get_varlen_size c (word_of_int (nMatchLen - 3))
               + (nOffsetSize + cost (i + nMatchLen)), nMatchLen, match_offset pMatch_m)]
         else map (\<lambda>k. (zultra_get_varlen_size c (word_of_int (k - 3))
                           + (nOffsetSize + cost (i + k)), k, match_offset pMatch_m))
                  (rev [3..nMatchLen]))"

definition position_candidates ::
  "zultra_block_t \<Rightarrow> (int \<Rightarrow> int) \<Rightarrow> int \<Rightarrow> int \<Rightarrow> best_t list" where
  "position_candidates c cost i nEndOffset =
     concat (map (slot_candidates c cost i nEndOffset)
               (takeWhile (\<lambda>m. uint (match_length (match c (i * 8 + m))) \<ge> 3) [0..7]))"

text \<open>Strict-less update: the running best changes only for a strictly cheaper candidate.\<close>

definition take_if_cheaper :: "best_t \<Rightarrow> best_t \<Rightarrow> best_t" where
  "take_if_cheaper best cand = (if fst best > fst cand then cand else best)"

text \<open>
  Two properties of the parser's state: a running best whose length is a valid
  \<^verbatim>\<open>unsigned short\<close> and keeps the match inside \<open>[i, e - 1)\<close>; and a \<^verbatim>\<open>best_match\<close>
  array all of whose slots from \<open>lo\<close> on end before the last position of the range.
\<close>

definition len_ok :: "int \<Rightarrow> int \<Rightarrow> best_t \<Rightarrow> bool" where
  "len_ok i e best \<longleftrightarrow> 0 \<le> fst (snd best) \<and> fst (snd best) \<le> 65535 \<and> i + fst (snd best) \<le> e - 1"

definition parse_ok :: "int \<Rightarrow> int \<Rightarrow> (int \<Rightarrow> zultra_match_t) \<Rightarrow> bool" where
  "parse_ok lo e best \<longleftrightarrow> (\<forall>j. lo \<le> j \<and> j < e \<longrightarrow> j + uint (match_length (best j)) \<le> e - 1)"

text \<open>
  A concrete block for evaluation: a window of seven bytes \<^verbatim>\<open>a\<close>, of which the first is
  history; one candidate match of length 4 at offset 1 for position 1 and none anywhere
  else; every literal/length code 8 bits long and every offset code 5 bits long.
\<close>

definition ex_window :: "int \<Rightarrow> 8 word" where
  "ex_window i = 0x61"

definition no_match :: zultra_match_t where
  "no_match = \<lparr> match_length = 0, match_offset = 0 \<rparr>"

definition ex_matches :: "int \<Rightarrow> zultra_match_t" where
  "ex_matches j = (if j = 8 then \<lparr> match_length = 4, match_offset = 1 \<rparr> else no_match)"

definition ex_encoder :: "int \<Rightarrow> int \<Rightarrow> zultra_huffman_encoder_t" where
  "ex_encoder n len =
     \<lparr> nSymbols = n, nMaxCodeLength = 15, nEntropy = replicate 288 0,
       nCodeWord = replicate 288 0, nCodeLength = replicate 288 len \<rparr>"

definition ex_block :: zultra_block_t where
  "ex_block =
     \<lparr> match = ex_matches, best_match = (\<lambda>i. no_match), pos_data = (\<lambda>i. 0),
       literalsEncoder = ex_encoder 288 8, offsetEncoder = ex_encoder 32 5 \<rparr>"

text \<open>
  The literal candidate of a position (the initial value of the running best), the
  candidate the loops end with, the cache \<^verbatim>\<open>nCachedVarlenSize\<close>, and the triple that the
  parser leaves for a position: its cost and the chosen length and offset.
\<close>

definition literal_candidate :: "zultra_block_t \<Rightarrow> (int \<Rightarrow> 8 word) \<Rightarrow> (int \<Rightarrow> int) \<Rightarrow> int \<Rightarrow> best_t" where
  "literal_candidate c pInWindow cost i =
     (zultra_get_literal_size c (ucast (pInWindow i)) + cost (i + 1), 0, 0)"

definition chosen_at ::
  "zultra_block_t \<Rightarrow> (int \<Rightarrow> 8 word) \<Rightarrow> (int \<Rightarrow> int) \<Rightarrow> int \<Rightarrow> int \<Rightarrow> best_t" where
  "chosen_at c pInWindow cost i nEndOffset =
     foldl take_if_cheaper (literal_candidate c pInWindow cost i)
       (position_candidates c cost i nEndOffset)"

definition cached_varlen :: "zultra_block_t \<Rightarrow> int list" where
  "cached_varlen c = map (\<lambda>i. zultra_get_varlen_size c (word_of_nat i)) [0..<40]"

definition parsed_at :: "zultra_block_t \<Rightarrow> int \<Rightarrow> best_t" where
  "parsed_at c i =
     (pos_data c i, uint (match_length (best_match c i)), match_offset (best_match c i))"

definition parse_opt ::
  "zultra_block_t \<Rightarrow> (int \<Rightarrow> 8 word) \<Rightarrow> int \<Rightarrow> int
   \<Rightarrow> (int \<Rightarrow> int) \<times> (int \<Rightarrow> zultra_match_t) \<Rightarrow> bool" where
  "parse_opt c pInWindow nEndOffset lo st \<longleftrightarrow>
     (\<forall>p. lo \<le> p \<and> p \<le> nEndOffset - 2 \<longrightarrow>
        (fst st p, uint (match_length (snd st p)), match_offset (snd st p))
          = chosen_at c pInWindow (fst st) p nEndOffset)"

text \<open>
  The block above with a 1-bit code for length symbol 257 (match length 3) and a 9-bit
  code for length symbol 258 (match length 4): with 8-bit literals, a match of length 3
  followed by a literal costs as much as the match of length 4.
\<close>

definition ex_tie_block :: zultra_block_t where
  "ex_tie_block =
     ex_block \<lparr> literalsEncoder :=
       (ex_encoder 288 8) \<lparr> nCodeLength := (replicate 288 8) [257 := 1, 258 := 9] \<rparr> \<rparr>"

section \<open>Stream compression (libzultra.c)\<close>

text \<open>Bits of \<^verbatim>\<open>compression_state\<close>.\<close>

definition CSTATE_HAS_DICTIONARY :: "32 word" where "CSTATE_HAS_DICTIONARY = 1"
definition CSTATE_HEADER_EMITTED :: "32 word" where "CSTATE_HEADER_EMITTED = 2"
definition CSTATE_FINALIZED_COMPRESSION :: "32 word" where "CSTATE_FINALIZED_COMPRESSION = 4"
definition CSTATE_FOOTER_EMITTED :: "32 word" where "CSTATE_FOOTER_EMITTED = 8"

definition ZULTRA_CONTINUE :: int where "ZULTRA_CONTINUE = 0"
definition ZULTRA_FINALIZE :: int where "ZULTRA_FINALIZE = 1"

text \<open>
  \<^verbatim>\<open>zultra_stream_t\<close>. The input is the list of bytes from \<^verbatim>\<open>next_in\<close> on, so that
  \<^verbatim>\<open>avail_in\<close> is its length; the output is the list of bytes written so far through
  \<^verbatim>\<open>next_out\<close>, with \<^verbatim>\<open>avail_out\<close> the room left.
\<close>

record 'b zultra_stream_t =
  next_in :: "8 word list"
  total_in :: nat
  out_bytes :: "8 word list"
  avail_out :: nat
  total_out :: nat
  adler :: "32 word"
  state :: "'b zultra_compressor_t"

text \<open>
  The functions that \<^verbatim>\<open>zultra_stream_compress\<close> calls outside libzultra.c, taken as
  parameters: the framing functions of frame.c, and the block-level functions of
  matchfinder.c and blockdeflate.c acting on the block-level state. Each returns the C
  return value and what it wrote:
  \<^item> \<open>frame_encode_header flags dict dict_size\<close>: the header size (negative on failure)
    and the new contents of \<^verbatim>\<open>frame_buffer\<close>;
  \<^item> \<open>frame_encode_footer checksum total_in flags\<close>: likewise for the footer;
  \<^item> \<open>block_split bs window start size max_splits\<close>: \<^verbatim>\<open>nSplitArraySize\<close> and the entries
    written to \<^verbatim>\<open>nSplitOffset\<close>;
  \<^item> \<open>cost_evaluation bs window start size\<close>: the chain
    \<^verbatim>\<open>zultra_block_prepare_cost_evaluation || ... || zultra_block_evaluate_dynamic_cost\<close>,
    giving whether a call failed, \<^verbatim>\<open>nStaticCost\<close> and \<^verbatim>\<open>nDynamicCost\<close>;
  \<^item> \<open>block_deflate bs bw out window start size is_dynamic\<close>: \<^verbatim>\<open>zultra_block_deflate\<close>,
    which writes through the bit writer.
  The window handed to them is \<^verbatim>\<open>in_data + HISTORY_SIZE - previous_block_size\<close>.
\<close>

record 'b collaborators =
  frame_encode_header :: "32 word \<Rightarrow> 8 word list option \<Rightarrow> int \<Rightarrow> int \<times> 8 word list"
  frame_init_checksum :: "32 word \<Rightarrow> 32 word"
  frame_update_checksum :: "32 word \<Rightarrow> 8 word list \<Rightarrow> 32 word \<Rightarrow> 32 word"
  frame_encode_footer :: "32 word \<Rightarrow> nat \<Rightarrow> 32 word \<Rightarrow> int \<times> 8 word list"
  build_suffix_array :: "'b \<Rightarrow> (int \<Rightarrow> 8 word) \<Rightarrow> int \<Rightarrow> int \<times> 'b"
  skip_matches :: "'b \<Rightarrow> int \<Rightarrow> int \<Rightarrow> 'b"
  find_all_matches :: "'b \<Rightarrow> int \<Rightarrow> int \<Rightarrow> 'b"
  block_split :: "'b \<Rightarrow> (int \<Rightarrow> 8 word) \<Rightarrow> int \<Rightarrow> int \<Rightarrow> int \<Rightarrow> int \<times> int list \<times> 'b"
  cost_evaluation :: "'b \<Rightarrow> (int \<Rightarrow> 8 word) \<Rightarrow> int \<Rightarrow> int \<Rightarrow> bool \<times> int \<times> int \<times> 'b"
  block_deflate :: "'b \<Rightarrow> zultra_bitwriter_t \<Rightarrow> byte_store \<Rightarrow> (int \<Rightarrow> 8 word) \<Rightarrow> int \<Rightarrow> int \<Rightarrow> int
                    \<Rightarrow> int \<times> 'b \<times> zultra_bitwriter_t \<times> byte_store"

subsection \<open>Stored blocks\<close>

text \<open>\<^verbatim>\<open>memcpy(dst + d, src + s, n)\<close> between two byte maps (nothing is copied for \<open>n \<le> 0\<close>).\<close>

definition memcpy_store :: "byte_store \<Rightarrow> int \<Rightarrow> (int \<Rightarrow> 8 word) \<Rightarrow> int \<Rightarrow> int \<Rightarrow> byte_store" where
  "memcpy_store dst d src s n = (\<lambda>a. if d \<le> a \<and> a < d + n then src (s + (a - d)) else dst a)"

text \<open>
  The state of the stored-block loop: \<^verbatim>\<open>nError\<close>, the compressor's bit writer, the output
  buffer, \<^verbatim>\<open>nSubBlockOffset\<close> and \<^verbatim>\<open>nRemainingBlockSize\<close>.
\<close>

type_synonym stored_state = "zultra_status_t \<times> zultra_bitwriter_t \<times> byte_store \<times> int \<times> int"

text \<open>
  One round of \<^verbatim>\<open>while (!nError && nRemainingBlockSize)\<close>: the block header bits, the
  padding to a byte boundary, then LEN, NLEN and the raw bytes written straight into
  \<^verbatim>\<open>out_buffer\<close> (the buffer the bit writer points to, at address 0).
\<close>

definition stored_block_body ::
  "int \<Rightarrow> (int \<Rightarrow> 8 word) \<Rightarrow> int \<Rightarrow> int \<Rightarrow> stored_state \<Rightarrow> stored_state" where
  "stored_block_body nMaxBlockSize in_dat nInStart nIsFinal st =
     (case st of (nError, bw, out, nSubBlockOffset, nRemainingBlockSize) \<Rightarrow>
      let nSubBlockSize = (if nRemainingBlockSize > 65535 then 65535 else nRemainingBlockSize);
          nSubIsFinal = (if nRemainingBlockSize > 65535 then 0 else nIsFinal);
          (r1, bw1, out1) = zultra_bitwriter_put_bits bw out (word_of_int nSubIsFinal) 1
      in if r1 < 0 then (ZULTRA_ERROR_DST, bw1, out1, nSubBlockOffset, nRemainingBlockSize)
         else
           let (r2, bw2, out2) = zultra_bitwriter_put_bits bw1 out1 0 2
           in if r2 < 0 then (ZULTRA_ERROR_DST, bw2, out2, nSubBlockOffset, nRemainingBlockSize)
              else
                let (r3, bw3, out3) = zultra_bitwriter_flush_bits bw2 out2
                in if r3 < 0 then (ZULTRA_ERROR_DST, bw3, out3, nSubBlockOffset, nRemainingBlockSize)
                   else
                     let nCurWriteOffset = zultra_bitwriter_get_offset bw3
                     in if nCurWriteOffset < 0 \<or>
                           (nCurWriteOffset + 4 + nSubBlockSize) > out_buffer_size nMaxBlockSize
                        then (ZULTRA_ERROR_DST, bw3, out3, nSubBlockOffset, nRemainingBlockSize)
                        else
                          let len = (word_of_int nSubBlockSize :: 32 word);
                              out4 = out3 (nCurWriteOffset := ucast (len AND 0xff),
                                           nCurWriteOffset + 1 := ucast (drop_bit 8 len AND 0xff),
                                           nCurWriteOffset + 2 := ucast ((len AND 0xff) XOR 0xff),
                                           nCurWriteOffset + 3 := ucast ((drop_bit 8 len AND 0xff) XOR 0xff));
                              out5 = memcpy_store out4 (nCurWriteOffset + 4) in_dat
                                       (HISTORY_SIZE + nInStart + nSubBlockOffset) nSubBlockSize
                          in (nError,
                              zultra_bitwriter_set_offset bw3 (nCurWriteOffset + 4 + nSubBlockSize),
                              out5,
                              nSubBlockOffset + nSubBlockSize,
                              nRemainingBlockSize - nSubBlockSize))"

function stored_blocks_loop ::
  "int \<Rightarrow> (int \<Rightarrow> 8 word) \<Rightarrow> int \<Rightarrow> int \<Rightarrow> stored_state \<Rightarrow> stored_state" where
  "stored_blocks_loop nMaxBlockSize in_dat nInStart nIsFinal st =
     (if fst st = ZULTRA_OK \<and> snd (snd (snd (snd st))) \<noteq> 0
      then stored_blocks_loop nMaxBlockSize in_dat nInStart nIsFinal
             (stored_block_body nMaxBlockSize in_dat nInStart nIsFinal st)
      else st)"
  by pat_completeness auto
termination
proof (relation "measure (\<lambda>(mb, ind, ins, fin, st).
                   if fst st = ZULTRA_OK then nat \<bar>snd (snd (snd (snd st)))\<bar> + 1 else 0)")
  show "wf (measure (\<lambda>(mb, ind, ins, fin, st).
                   if fst st = ZULTRA_OK then nat \<bar>snd (snd (snd (snd st)))\<bar> + 1 else 0))"
    by simp
next
  fix nMaxBlockSize :: int and in_dat :: "int \<Rightarrow> 8 word" and nInStart nIsFinal :: int
    and st :: stored_state
  assume a: "fst st = ZULTRA_OK \<and> snd (snd (snd (snd st))) \<noteq> 0"
  obtain e bw out so r where st: "st = (e, bw, out, so, r)" by (cases st) auto
  have "\<bar>snd (snd (snd (snd (stored_block_body nMaxBlockSize in_dat nInStart nIsFinal st))))\<bar> < \<bar>r\<bar>
        \<or> fst (stored_block_body nMaxBlockSize in_dat nInStart nIsFinal st) \<noteq> ZULTRA_OK"
    using a unfolding st stored_block_body_def
    by (auto simp add: Let_def split: prod.splits if_splits)
  with a show "((nMaxBlockSize, in_dat, nInStart, nIsFinal,
                 stored_block_body nMaxBlockSize in_dat nInStart nIsFinal st),
                nMaxBlockSize, in_dat, nInStart, nIsFinal, st)
               \<in> measure (\<lambda>(mb, ind, ins, fin, st).
                   if fst st = ZULTRA_OK then nat \<bar>snd (snd (snd (snd st)))\<bar> + 1 else 0)"
    by (auto simp add: st)
qed

declare stored_blocks_loop.simps [simp del]

subsection \<open>One sub-range: compressed attempt and stored fallback\<close>

text \<open>
  The body of \<^verbatim>\<open>while (nInStart < nInDataSize && !nError)\<close> in \<^verbatim>\<open>zultra_stream_compress\<close>:
  the state is \<^verbatim>\<open>nError\<close>, the block-level state, the compressor's bit writer, the output
  buffer and \<^verbatim>\<open>nInStart\<close>; \<open>nSplit\<close> is the entry \<^verbatim>\<open>nSplitOffset[nNumSplits++]\<close>. The local
  \<^verbatim>\<open>blockBitWriter\<close> is the copy of the writer taken before the header bits are put. When
  \<^verbatim>\<open>zultra_bitwriter_get_offset\<close> fails before the call, \<^verbatim>\<open>nCompressionResult\<close> is set to
  the enum value \<^verbatim>\<open>ZULTRA_ERROR_DST\<close>, which is 2.
\<close>

type_synonym 'b subrange_state = "zultra_status_t \<times> 'b \<times> zultra_bitwriter_t \<times> byte_store \<times> int"

definition compress_subrange ::
  "'b collaborators \<Rightarrow> int \<Rightarrow> int \<Rightarrow> int \<Rightarrow> nat \<Rightarrow> (int \<Rightarrow> 8 word) \<Rightarrow> int \<Rightarrow> int
   \<Rightarrow> 'b subrange_state \<Rightarrow> 'b subrange_state" where
  "compress_subrange F nMaxBlockSize nDoFinalize nInDataSize avail_in in_dat prev_size nSplit st =
     (case st of (nError, bs, bw, out, nInStart) \<Rightarrow>
      let nBlockSize = nSplit - (nInStart + prev_size);
          window = (\<lambda>k. in_dat (HISTORY_SIZE - prev_size + k));
          (failed, nStaticCost, nDynamicCost, bs1) =
             cost_evaluation F bs window (prev_size + nInStart) nBlockSize;
          nError1 = (if failed then ZULTRA_ERROR_COMPRESSION else nError);
          nIsDynamic = (if nStaticCost \<le> nDynamicCost then 0 else 1);
          blockBitWriter = zultra_bitwriter_copy bw bw;
          nIsFinal = (if nDoFinalize \<noteq> 0 \<and> (nInStart + nBlockSize) \<ge> nInDataSize \<and> avail_in = 0
                      then 1 else 0);
          (r1, bw1, out1) = zultra_bitwriter_put_bits bw out (word_of_int nIsFinal) 1;
          (nError2, bw2, out2) =
             (if r1 < 0 then (ZULTRA_ERROR_DST, bw1, out1)
              else let (r2, bw2, out2) =
                         zultra_bitwriter_put_bits bw1 out1 (word_of_int (1 + nIsDynamic)) 2
                   in ((if r2 < 0 then ZULTRA_ERROR_DST else nError1), bw2, out2))
      in if nError2 \<noteq> ZULTRA_OK then (nError2, bs1, bw2, out2, nInStart)
         else
           let nPrevOffset = zultra_bitwriter_get_offset bw2;
               (nCompressionResult, bs3, bw3, out3) =
                  (if nPrevOffset < 0 then (2, bs1, bw2, out2)
                   else block_deflate F bs1 bw2 out2 window (prev_size + nInStart) nBlockSize
                          nIsDynamic)
           in if nCompressionResult < 0 \<or> zultra_bitwriter_get_offset bw3 < 0 \<or>
                 (zultra_bitwriter_get_offset bw3 - nPrevOffset) > nBlockSize
              then
                (let bw4 = zultra_bitwriter_copy bw3 blockBitWriter;
                     r = stored_blocks_loop nMaxBlockSize in_dat nInStart nIsFinal
                           (ZULTRA_OK, bw4, out3, 0, nBlockSize)
                 in (fst r, bs3, fst (snd r), fst (snd (snd r)), nInStart + nBlockSize))
              else (ZULTRA_OK, bs3, bw3, out3, nInStart + nBlockSize))"

text \<open>
  The loop over the sub-ranges. It reads one entry of \<^verbatim>\<open>nSplitOffset\<close> per round; reading
  past the entries that \<^verbatim>\<open>zultra_block_split\<close> filled in is a read of an uninitialised
  array element, for which the model has no result (\<open>None\<close>).
\<close>

fun subrange_loop ::
  "'b collaborators \<Rightarrow> int \<Rightarrow> int \<Rightarrow> int \<Rightarrow> nat \<Rightarrow> (int \<Rightarrow> 8 word) \<Rightarrow> int \<Rightarrow> int list
   \<Rightarrow> 'b subrange_state \<Rightarrow> 'b subrange_state option" where
  "subrange_loop F nMaxBlockSize nDoFinalize nInDataSize avail_in in_dat prev_size [] st =
     (if snd (snd (snd (snd st))) < nInDataSize \<and> fst st = ZULTRA_OK then None else Some st)"
| "subrange_loop F nMaxBlockSize nDoFinalize nInDataSize avail_in in_dat prev_size (nSplit # rest) st =
     (if snd (snd (snd (snd st))) < nInDataSize \<and> fst st = ZULTRA_OK
      then subrange_loop F nMaxBlockSize nDoFinalize nInDataSize avail_in in_dat prev_size rest
             (compress_subrange F nMaxBlockSize nDoFinalize nInDataSize avail_in in_dat prev_size
                nSplit st)
      else Some st)"

subsection \<open>One block group\<close>

text \<open>
  The body of \<^verbatim>\<open>if (nInDataSize > 0)\<close>: checksum, suffix array and matches, splitting, the
  sub-ranges, the history carry-over, the final flush and the hand-over of the output
  bytes. The result is \<^verbatim>\<open>nError\<close>, the checksum and the compressor.
\<close>

definition compress_block_group ::
  "'b collaborators \<Rightarrow> int \<Rightarrow> nat \<Rightarrow> 32 word \<Rightarrow> int \<Rightarrow> 'b zultra_compressor_t
   \<Rightarrow> (zultra_status_t \<times> 32 word \<times> 'b zultra_compressor_t) option" where
  "compress_block_group F nDoFinalize avail_in adler0 nInDataSize cmp0 =
     (let nMaxBlockSize = uint (max_block_size cmp0);
          adler1 = frame_update_checksum F adler0
                     (map (\<lambda>k. in_data cmp0 (HISTORY_SIZE + int k)) [0..<nat nInDataSize])
                     (flags cmp0);
          cmp1 = cmp0 \<lparr> dictionary_size := 0, cur_in_bytes := 0 \<rparr>;
          prev_size = previous_block_size cmp1;
          window = (\<lambda>k. in_data cmp1 (HISTORY_SIZE - prev_size + k));
          (sa, bs1) = build_suffix_array F (block_state cmp1) window (prev_size + nInDataSize);
          (nError1, bs2) =
             (if sa \<noteq> 0 then (ZULTRA_ERROR_COMPRESSION, bs1)
              else (ZULTRA_OK,
                    find_all_matches F
                      (if prev_size \<noteq> 0 then skip_matches F bs1 0 prev_size else bs1)
                      prev_size (prev_size + nInDataSize)));
          looped =
             (if nError1 \<noteq> ZULTRA_OK then Some (nError1, bs2, bitwriter cmp1, out_buffer cmp1, 0)
              else
                let (nSplitArraySize, nSplitOffset, bs3) =
                       block_split F bs2 window prev_size nInDataSize MAX_SPLITS
                in if nSplitArraySize < 0
                   then Some (ZULTRA_ERROR_COMPRESSION, bs3, bitwriter cmp1, out_buffer cmp1, 0)
                   else subrange_loop F nMaxBlockSize nDoFinalize nInDataSize avail_in
                          (in_data cmp1) prev_size nSplitOffset
                          (ZULTRA_OK, bs3, bitwriter cmp1, out_buffer cmp1, 0))
      in case looped of
           None \<Rightarrow> None
         | Some (nError2, bs4, bw2, out2, nInStart) \<Rightarrow>
             let prev' = (if nInDataSize > HISTORY_SIZE then HISTORY_SIZE else nInDataSize);
                 in_data' = (if prev' \<noteq> 0
                             then memcpy_store (in_data cmp1) (HISTORY_SIZE - prev') (in_data cmp1)
                                    (HISTORY_SIZE + (nMaxBlockSize - prev')) prev'
                             else in_data cmp1);
                 cmp2 = cmp1 \<lparr> block_state := bs4, bitwriter := bw2, out_buffer := out2,
                               previous_block_size := prev', in_data := in_data' \<rparr>;
                 (nError3, cmp3) =
                    (if nError2 = ZULTRA_OK \<and> nDoFinalize \<noteq> 0 \<and> avail_in = 0 then
                       (let (r, bw3, out3) =
                              zultra_bitwriter_flush_bits (bitwriter cmp2) (out_buffer cmp2)
                        in if r < 0
                           then (ZULTRA_ERROR_DST, cmp2 \<lparr> bitwriter := bw3, out_buffer := out3 \<rparr>)
                           else (nError2,
                                 cmp2 \<lparr> bitwriter := bw3, out_buffer := out3,
                                        compression_state :=
                                          compression_state cmp2 OR CSTATE_FINALIZED_COMPRESSION \<rparr>))
                     else (nError2, cmp2));
                 (nError4, cmp4) =
                    (if nError3 = ZULTRA_OK then
                       (let nCurWriteOffset = zultra_bitwriter_get_offset (bitwriter cmp3)
                        in if nCurWriteOffset < 0 then (ZULTRA_ERROR_DST, cmp3)
                           else (nError3,
                                 cmp3 \<lparr> cur_out_index := 0,
                                        pending_out_bytes := nat nCurWriteOffset,
                                        bitwriter := zultra_bitwriter_set_offset (bitwriter cmp3) 0 \<rparr>))
                     else (nError3, cmp3))
             in Some (nError4, adler1, cmp4))"

subsection \<open>\<^verbatim>\<open>zultra_stream_compress\<close>\<close>

text \<open>
  The two identical blocks that move pending bytes of \<^verbatim>\<open>frame_buffer\<close> (header or footer)
  to the caller's output.
\<close>

definition emit_frame_bytes ::
  "zultra_status_t \<times> 'b zultra_stream_t \<Rightarrow> zultra_status_t \<times> 'b zultra_stream_t" where
  "emit_frame_bytes es =
     (let nError = fst es; strm = snd es; cmp = state strm in
      if nError = ZULTRA_OK \<and> pending_frame_bytes cmp \<noteq> 0 then
        (if cur_frame_index cmp + pending_frame_bytes cmp > 16 then (ZULTRA_ERROR_COMPRESSION, strm)
         else if avail_out strm \<noteq> 0 then
           (let nMaxFrameOutBytes = min (avail_out strm) (pending_frame_bytes cmp) in
            (nError,
             strm \<lparr> out_bytes := out_bytes strm
                                    @ take nMaxFrameOutBytes (drop (cur_frame_index cmp) (frame_buffer cmp)),
                    avail_out := avail_out strm - nMaxFrameOutBytes,
                    total_out := total_out strm + nMaxFrameOutBytes,
                    state := cmp \<lparr> cur_frame_index := cur_frame_index cmp + nMaxFrameOutBytes,
                                   pending_frame_bytes := pending_frame_bytes cmp - nMaxFrameOutBytes \<rparr> \<rparr>))
         else (nError, strm))
      else (nError, strm))"

text \<open>The block that encodes the stream header on the first call.\<close>

definition emit_header ::
  "'b collaborators \<Rightarrow> 'b zultra_stream_t \<Rightarrow> zultra_status_t \<times> 'b zultra_stream_t" where
  "emit_header F strm =
     (let cmp = state strm in
      if compression_state cmp AND CSTATE_HEADER_EMITTED = 0 then
        (let cmp1 = cmp \<lparr> compression_state := compression_state cmp OR CSTATE_HEADER_EMITTED \<rparr>;
             (nHeaderSize, buf) = frame_encode_header F (flags cmp1) (dictionary_data cmp1)
                                    (dictionary_size cmp1);
             cmp2 = cmp1 \<lparr> frame_buffer := buf \<rparr>;
             (nError, cmp3) =
                (if nHeaderSize < 0 then (ZULTRA_ERROR_COMPRESSION, cmp2)
                 else (ZULTRA_OK, cmp2 \<lparr> cur_frame_index := 0,
                                         pending_frame_bytes := nat nHeaderSize \<rparr>))
         in (nError, strm \<lparr> adler := frame_init_checksum F (flags cmp3), state := cmp3 \<rparr>))
      else (ZULTRA_OK, strm))"

text \<open>The block that copies a dictionary in front of the first block.\<close>

definition load_dictionary ::
  "zultra_status_t \<times> 'b zultra_stream_t \<Rightarrow> zultra_status_t \<times> 'b zultra_stream_t" where
  "load_dictionary es =
     (let nError = fst es; strm = snd es; cmp = state strm in
      case dictionary_data cmp of
        Some dict \<Rightarrow>
          if nError = ZULTRA_OK \<and> previous_block_size cmp = 0 \<and> dictionary_size cmp \<noteq> 0 then
            (nError,
             strm \<lparr> state := cmp \<lparr>
                in_data := memcpy_store (in_data cmp) (HISTORY_SIZE - dictionary_size cmp)
                             (\<lambda>k. dict ! nat k) 0 (dictionary_size cmp),
                previous_block_size := dictionary_size cmp \<rparr> \<rparr>)
          else (nError, strm)
      | None \<Rightarrow> (nError, strm))"

text \<open>
  The block that takes input into the window and, when the block is full or the stream is
  being finalised, compresses the block group. Nothing is compressed, flushed or marked
  as finalised when no input bytes are pending (\<^verbatim>\<open>if (nInDataSize > 0)\<close>).
\<close>

definition consume_input ::
  "'b collaborators \<Rightarrow> int \<Rightarrow> zultra_status_t \<times> 'b zultra_stream_t
   \<Rightarrow> (zultra_status_t \<times> 'b zultra_stream_t) option" where
  "consume_input F nDoFinalize es =
     (let nError = fst es; strm = snd es; cmp = state strm;
          nMaxBlockSize = uint (max_block_size cmp) in
      if nError = ZULTRA_OK \<and> pending_frame_bytes cmp = 0 \<and> pending_out_bytes cmp = 0 then
        (let nMaxInBytes = min (length (next_in strm)) (nat nMaxBlockSize - cur_in_bytes cmp);
             cmp1 = cmp \<lparr> in_data := memcpy_store (in_data cmp)
                                        (HISTORY_SIZE + int (cur_in_bytes cmp))
                                        (\<lambda>k. next_in strm ! nat k) 0 (int nMaxInBytes),
                           cur_in_bytes := cur_in_bytes cmp + nMaxInBytes \<rparr>;
             strm1 = strm \<lparr> next_in := drop nMaxInBytes (next_in strm),
                            total_in := total_in strm + nMaxInBytes,
                            state := cmp1 \<rparr>
         in if (int (cur_in_bytes cmp1) \<ge> nMaxBlockSize \<and> next_in strm1 \<noteq> []) \<or> nDoFinalize \<noteq> 0
            then
              (let nInDataSize = int (cur_in_bytes cmp1) in
               if nInDataSize > 0 then
                 (case compress_block_group F nDoFinalize (length (next_in strm1)) (adler strm1)
                         nInDataSize cmp1 of
                    None \<Rightarrow> None
                  | Some (nError', adler', cmp') \<Rightarrow>
                      Some (nError', strm1 \<lparr> adler := adler', state := cmp' \<rparr>))
               else Some (nError, strm1))
            else Some (nError, strm1))
      else Some (nError, strm))"

text \<open>The block that moves pending compressed bytes of \<^verbatim>\<open>out_buffer\<close> to the output.\<close>

definition emit_out_bytes ::
  "zultra_status_t \<times> 'b zultra_stream_t \<Rightarrow> zultra_status_t \<times> 'b zultra_stream_t" where
  "emit_out_bytes es =
     (let nError = fst es; strm = snd es; cmp = state strm in
      if nError = ZULTRA_OK \<and> pending_frame_bytes cmp = 0 \<and> pending_out_bytes cmp \<noteq> 0 then
        (if int (cur_out_index cmp + pending_frame_bytes cmp)
              > out_buffer_size (uint (max_block_size cmp))
         then (ZULTRA_ERROR_COMPRESSION, strm)
         else if avail_out strm \<noteq> 0 then
           (let nMaxOutDataBytes = min (avail_out strm) (pending_out_bytes cmp) in
            (nError,
             strm \<lparr> out_bytes := out_bytes strm
                                    @ map (\<lambda>k. out_buffer cmp (int (cur_out_index cmp + k)))
                                        [0..<nMaxOutDataBytes],
                    avail_out := avail_out strm - nMaxOutDataBytes,
                    total_out := total_out strm + nMaxOutDataBytes,
                    state := cmp \<lparr> cur_out_index := cur_out_index cmp + nMaxOutDataBytes,
                                   pending_out_bytes := pending_out_bytes cmp - nMaxOutDataBytes \<rparr> \<rparr>))
         else (nError, strm))
      else (nError, strm))"

text \<open>The block that encodes the footer once the compression is marked as finalised.\<close>

definition prepare_footer ::
  "'b collaborators \<Rightarrow> zultra_status_t \<times> 'b zultra_stream_t \<Rightarrow> zultra_status_t \<times> 'b zultra_stream_t" where
  "prepare_footer F es =
     (let nError = fst es; strm = snd es; cmp = state strm in
      if nError = ZULTRA_OK \<and> pending_frame_bytes cmp = 0 \<and> pending_out_bytes cmp = 0 \<and>
         compression_state cmp AND CSTATE_FINALIZED_COMPRESSION \<noteq> 0 \<and>
         compression_state cmp AND CSTATE_FOOTER_EMITTED = 0
      then
        (let (nFooterSize, buf) = frame_encode_footer F (adler strm) (total_in strm) (flags cmp);
             cmp1 = cmp \<lparr> frame_buffer := buf \<rparr>
         in if nFooterSize < 0 then (ZULTRA_ERROR_COMPRESSION, strm \<lparr> state := cmp1 \<rparr>)
            else (nError,
                  strm \<lparr> state := cmp1 \<lparr>
                     compression_state := (compression_state cmp1 OR CSTATE_FOOTER_EMITTED)
                                            AND NOT CSTATE_FINALIZED_COMPRESSION,
                     cur_frame_index := 0,
                     pending_frame_bytes := nat nFooterSize \<rparr> \<rparr>))
      else (nError, strm))"

text \<open>One round of the \<^verbatim>\<open>do { ... } while\<close> loop: the seven blocks in order.\<close>

definition stream_compress_round ::
  "'b collaborators \<Rightarrow> int \<Rightarrow> 'b zultra_stream_t \<Rightarrow> (zultra_status_t \<times> 'b zultra_stream_t) option" where
  "stream_compress_round F nDoFinalize strm =
     (case consume_input F nDoFinalize (load_dictionary (emit_frame_bytes (emit_header F strm))) of
        None \<Rightarrow> None
      | Some es \<Rightarrow> Some (emit_frame_bytes (prepare_footer F (emit_out_bytes es))))"

text \<open>
  The loop \<^verbatim>\<open>do { ... } while (!nError && pStream->avail_in && pStream->avail_out)\<close>. It is
  not known to terminate for every behaviour of the block-level functions: not returning
  is the value \<open>None\<close>, as is a read of an uninitialised split offset.
\<close>

partial_function (option) zultra_stream_compress ::
  "'b collaborators \<Rightarrow> int \<Rightarrow> 'b zultra_stream_t \<Rightarrow> (zultra_status_t \<times> 'b zultra_stream_t) option" where
  "zultra_stream_compress F nDoFinalize strm =
     (case stream_compress_round F nDoFinalize strm of
        None \<Rightarrow> None
      | Some es \<Rightarrow>
          if fst es = ZULTRA_OK \<and> next_in (snd es) \<noteq> [] \<and> avail_out (snd es) \<noteq> 0
          then zultra_stream_compress F nDoFinalize (snd es)
          else Some es)"

declare zultra_stream_compress.simps [code]

subsection \<open>\<^verbatim>\<open>zultra_memory_compress\<close>\<close>

text \<open>
  The result of \<^verbatim>\<open>zultra_memory_compress\<close>: \<^verbatim>\<open>(size_t)-1\<close> for an error, or the compressed
  size together with the bytes written to the output buffer.
\<close>

datatype compress_result = Compress_Error | Compressed nat "8 word list"

definition zultra_memory_compress ::
  "'b collaborators \<Rightarrow> (nat \<Rightarrow> bool) \<Rightarrow> int \<Rightarrow> 'b \<Rightarrow> 8 word list \<Rightarrow> nat \<Rightarrow> 32 word \<Rightarrow> 32 word
   \<Rightarrow> compress_result option" where
  "zultra_memory_compress F zalloc divsufsort_init bs pInputData nMaxOutBufferSize nFlags nMaxBlockSize =
     (case zultra_stream_init zalloc divsufsort_init bs nFlags nMaxBlockSize of
        (nStatus, None) \<Rightarrow> Some Compress_Error
      | (nStatus, Some cmp) \<Rightarrow>
          if nStatus \<noteq> ZULTRA_OK then Some Compress_Error
          else
            (case zultra_stream_compress F ZULTRA_FINALIZE
                    \<lparr> next_in = pInputData, total_in = 0, out_bytes = [],
                      avail_out = nMaxOutBufferSize, total_out = 0, adler = 0, state = cmp \<rparr> of
               None \<Rightarrow> None
             | Some (nStatus', strm) \<Rightarrow>
                 if nStatus' \<noteq> ZULTRA_OK then Some Compress_Error
                 else Some (Compressed (nMaxOutBufferSize - avail_out strm) (out_bytes strm))))"

text \<open>
  Modelled from the spec: collaborators whose framing follows the specification (gzip
  header and sizes as in \<open>spec_frame_header_bytes\<close>; the frame buffer has 16 bytes), for a
  stream that never reaches the block-level functions or the footer, which are inert
  here.
\<close>

definition spec_framing :: "unit collaborators" where
  "spec_framing =
     \<lparr> frame_encode_header =
         (\<lambda>fl dict dsize. (spec_frame_get_header_size fl,
             spec_frame_header_bytes fl
               @ replicate (16 - length (spec_frame_header_bytes fl)) 0)),
       frame_init_checksum = (\<lambda>fl. 0),
       frame_update_checksum = (\<lambda>sum dat fl. sum),
       frame_encode_footer = (\<lambda>sum total fl. (spec_frame_get_footer_size fl, replicate 16 0)),
       build_suffix_array = (\<lambda>bs w n. (0, bs)),
       skip_matches = (\<lambda>bs s e. bs),
       find_all_matches = (\<lambda>bs s e. bs),
       block_split = (\<lambda>bs w s n k. (1, [s + n], bs)),
       cost_evaluation = (\<lambda>bs w s n. (False, 0, 0, bs)),
       block_deflate = (\<lambda>bs bw out w s n d. (-1, bs, bw, out)) \<rparr>"

text \<open>The stream that \<^verbatim>\<open>zultra_memory_compress\<close> sets up for an empty input and gzip framing.\<close>

definition fresh_gzip_stream :: "nat \<Rightarrow> unit zultra_stream_t" where
  "fresh_gzip_stream cap =
     \<lparr> next_in = [], total_in = 0, out_bytes = [], avail_out = cap, total_out = 0, adler = 0,
       state = the (snd (zultra_stream_init always_succeeds 0 () ZULTRA_FLAG_GZIP_FRAMING 0)) \<rparr>"



subsection \<open>Stored blocks as a bit stream\<close>





subsection \<open>A block of literals under the static code\<close>


text \<open>The 16-bit reversal of \<^verbatim>\<open>zultra_huffman_encoder_build_static_codewords\<close>.\<close>

definition rev16 :: "32 word \<Rightarrow> 32 word" where
  "rev16 w =
     (let a = push_bit 1 (w AND 0x5555) OR drop_bit 1 (w AND 0xaaaa);
          b = push_bit 2 (a AND 0x3333) OR drop_bit 2 (a AND 0xcccc);
          c = push_bit 4 (b AND 0x0f0f) OR drop_bit 4 (b AND 0xf0f0)
      in push_bit 8 (c AND 0x00ff) OR drop_bit 8 (c AND 0xff00))"







section \<open>Huffman code construction (huffman/huffencoder.c)\<close>

subsection \<open>Array accesses and shifts\<close>

text \<open>
  The C arrays are lists holding their initialised entries. A read or a write outside a
  list, a shift by a negative count or by 32 or more, and a left shift whose result does
  not fit \<^verbatim>\<open>int\<close> have no defined result in C: here they give \<open>None\<close>, and so does every
  function in which one happens. Sums of \<^verbatim>\<open>int\<close>s are sums of integers, which is what C
  computes for counts that are not negative and add up to less than \<open>2\<^sup>3\<^sup>1\<close>.
\<close>

definition arr_get :: "'a list \<Rightarrow> int \<Rightarrow> 'a option" where
  "arr_get xs i = (if 0 \<le> i \<and> i < int (length xs) then Some (xs ! nat i) else None)"

definition arr_set :: "'a list \<Rightarrow> int \<Rightarrow> 'a \<Rightarrow> 'a list option" where
  "arr_set xs i v = (if 0 \<le> i \<and> i < int (length xs) then Some (xs[nat i := v]) else None)"

definition int_shl :: "int \<Rightarrow> int \<Rightarrow> int option" where
  "int_shl x n = (if 0 \<le> n \<and> n < 32 \<and> 0 \<le> x \<and> x * 2 ^ nat n < 2 ^ 31
                  then Some (x * 2 ^ nat n) else None)"

definition int_shr :: "int \<Rightarrow> int \<Rightarrow> int option" where
  "int_shr x n = (if 0 \<le> n \<and> n < 32 \<and> 0 \<le> x then Some (x div 2 ^ nat n) else None)"

subsection \<open>Sorting symbol indices\<close>

text \<open>
  One round of the partition loop of \<^verbatim>\<open>zultra_huffman_encoder_qsort\<close>, at index \<open>i\<close>: the
  state is the index array and \<^verbatim>\<open>last\<close> (here \<open>lastp\<close>).
\<close>

definition qsort_step :: "int list \<Rightarrow> int \<Rightarrow> int \<Rightarrow> int list \<times> int \<Rightarrow> (int list \<times> int) option" where
  "qsort_step val left i st = (case st of (idx, lastp) \<Rightarrow>
     do { tmp \<leftarrow> arr_get idx i;
          p \<leftarrow> arr_get idx left;
          vp \<leftarrow> arr_get val p;
          vt \<leftarrow> arr_get val tmp;
          if vp > vt \<or> (vp = vt \<and> p > tmp)
          then do { x \<leftarrow> arr_get idx (lastp + 1);
                    idx1 \<leftarrow> arr_set idx i x;
                    idx2 \<leftarrow> arr_set idx1 (lastp + 1) tmp;
                    Some (idx2, lastp + 1) }
          else Some (idx, lastp) })"

function qsort_scan ::
  "int list \<Rightarrow> int \<Rightarrow> int \<Rightarrow> int \<Rightarrow> int list \<times> int \<Rightarrow> (int list \<times> int) option" where
  "qsort_scan val left right i st =
     (if i \<le> right
      then (case qsort_step val left i st of
              None \<Rightarrow> None
            | Some st' \<Rightarrow> qsort_scan val left right (i + 1) st')
      else Some st)"
  by pat_completeness auto

termination by (relation "measure (\<lambda>(val, left, right, i, st). nat (right + 1 - i))") auto

declare qsort_scan.simps [simp del]

text \<open>Swapping two entries, as the three \<^verbatim>\<open>tmp\<close> assignments do.\<close>

definition arr_swap :: "int list \<Rightarrow> int \<Rightarrow> int \<Rightarrow> int list option" where
  "arr_swap idx i j =
     do { a \<leftarrow> arr_get idx i;
          b \<leftarrow> arr_get idx j;
          idx1 \<leftarrow> arr_set idx i b;
          arr_set idx1 j a }"

text \<open>
  The part of \<^verbatim>\<open>zultra_huffman_encoder_qsort\<close> before its two recursive calls, entered
  with \<open>left < right\<close>; \<^verbatim>\<open>mid = (left + right) >> 1\<close> is the half rounded down.
\<close>

definition qsort_partition :: "int list \<Rightarrow> int list \<Rightarrow> int \<Rightarrow> int \<Rightarrow> (int list \<times> int) option" where
  "qsort_partition val idx left right =
     do { idx1 \<leftarrow> arr_swap idx left ((left + right) div 2);
          (idx2, lastp) \<leftarrow> qsort_scan val left right (left + 1) (idx1, left);
          idx3 \<leftarrow> arr_swap idx2 left lastp;
          Some (idx3, lastp) }"

function zultra_huffman_encoder_qsort :: "int list \<Rightarrow> int list \<Rightarrow> int \<Rightarrow> int \<Rightarrow> int list option" where
  "zultra_huffman_encoder_qsort val idx left right =
     (if left \<ge> right then Some idx
      else (case qsort_partition val idx left right of
              None \<Rightarrow> None
            | Some (idx1, lastp) \<Rightarrow>
                (case zultra_huffman_encoder_qsort val idx1 left (lastp - 1) of
                   None \<Rightarrow> None
                 | Some idx2 \<Rightarrow> zultra_huffman_encoder_qsort val idx2 (lastp + 1) right)))"
  by pat_completeness auto

termination
proof -
  have step: "l \<le> l' \<and> l' \<le> l + 1"
    if "qsort_step val left i (idx, l) = Some (idx', l')" for val left i idx l idx' l'
    using that by (auto simp add: qsort_step_def split: Option.bind_splits if_splits)
  have scan: "snd st \<le> snd st' \<and> snd st' \<le> snd st + (right + 1 - i)"
    if "qsort_scan val left right i st = Some st'" and "i \<le> right + 1" for val left right i st st'
    using that
  proof (induction val left right i st rule: qsort_scan.induct)
    case (1 val left right i st)
    show ?case
    proof (cases "i \<le> right")
      case True
      then obtain st1 where s1: "qsort_step val left i st = Some st1"
        and rest: "qsort_scan val left right (i + 1) st1 = Some st'"
        using "1.prems"(1) by (subst (asm) qsort_scan.simps) (auto split: option.splits)
      from step [of val left i "fst st" "snd st" "fst st1" "snd st1"] s1
      have a: "snd st \<le> snd st1 \<and> snd st1 \<le> snd st + 1" by simp
      from "1.IH" [OF True s1 rest] True
      have "snd st1 \<le> snd st' \<and> snd st' \<le> snd st1 + (right + 1 - (i + 1))" by simp
      with a show ?thesis by simp
    next
      case False
      then show ?thesis using "1.prems" by (subst (asm) qsort_scan.simps) auto
    qed
  qed
  have part: "left \<le> l \<and> l \<le> right"
    if "qsort_partition val idx left right = Some (idx', l)" and "left < right"
    for val idx left right idx' l
  proof -
    from that(1) obtain idx1 idx2 where
      "qsort_scan val left right (left + 1) (idx1, left) = Some (idx2, l)"
      by (auto simp add: qsort_partition_def split: Option.bind_splits)
    from scan [OF this] that(2) show ?thesis by simp
  qed
  show ?thesis
  proof (relation "measure (\<lambda>(val, idx, left, right). nat (right - left + 1))", goal_cases)
    case 1
    show ?case by simp
  next
    case (2 val idx left right x2 x y)
    then show ?case using part [of val idx left right x y] by simp
  next
    case (3 val idx left right x2 x y x2a)
    then show ?case using part [of val idx left right x y] by simp
  qed
qed

declare zultra_huffman_encoder_qsort.simps [simp del]

subsection \<open>Code lengths: \<^verbatim>\<open>zultra_huffman_encoder_estimate_dynamic_codelens\<close>\<close>

text \<open>
  Collecting the symbols below \<open>nSyms\<close> whose entry in \<open>arr\<close> is not zero, in ascending
  order. \<^verbatim>\<open>nMinQueue\<close> is the list of its first \<^verbatim>\<open>nNumSorted\<close> entries, the only ones that
  hold a symbol; \<^verbatim>\<open>nMinQueue[nNumSorted++] = i\<close> appends to it.
\<close>

function enum_nonzero :: "int list \<Rightarrow> int \<Rightarrow> int \<Rightarrow> int list \<Rightarrow> int list option" where
  "enum_nonzero arr nSyms i q =
     (if i < nSyms
      then (case arr_get arr i of
              None \<Rightarrow> None
            | Some e \<Rightarrow> enum_nonzero arr nSyms (i + 1) (if e \<noteq> 0 then q @ [i] else q))
      else Some q)"
  by pat_completeness auto

termination by (relation "measure (\<lambda>(arr, nSyms, i, q). nat (nSyms - i))") auto

declare enum_nonzero.simps [simp del]

text \<open>\<^verbatim>\<open>A[i] = pEncoder->nEntropy[nMinQueue[i]]\<close> for every queue entry.\<close>

fun gather :: "int list \<Rightarrow> int list \<Rightarrow> int list option" where
  "gather arr [] = Some []"
| "gather arr (s # q) = do { v \<leftarrow> arr_get arr s; vs \<leftarrow> gather arr q; Some (v # vs) }"

text \<open>
  Phase 1 of the Moffat-Katajainen method. One selection takes either the next internal
  node (at \<open>r\<close>, which then receives the parent pointer \<open>t + 1\<close>) or the next leaf (at \<open>s\<close>);
  it returns the selected weight with the new array, \<open>s\<close> and \<open>r\<close>.
\<close>

definition mk_select :: "int \<Rightarrow> int \<Rightarrow> int list \<times> int \<times> int \<Rightarrow> (int \<times> int list \<times> int \<times> int) option" where
  "mk_select n t st = (case st of (A, s, r) \<Rightarrow>
     do { internal \<leftarrow> (if s \<ge> n then Some True
                        else if r < t then do { x \<leftarrow> arr_get A r; y \<leftarrow> arr_get A s; Some (x < y) }
                        else Some False);
          if internal
          then do { v \<leftarrow> arr_get A r; A' \<leftarrow> arr_set A r (t + 1); Some (v, A', s, r + 1) }
          else do { v \<leftarrow> arr_get A s; Some (v, A, s + 1, r) } })"

definition phase1_step :: "int \<Rightarrow> int \<Rightarrow> int list \<times> int \<times> int \<Rightarrow> (int list \<times> int \<times> int) option" where
  "phase1_step n t st =
     do { (v1, st1) \<leftarrow> mk_select n t st;
          (v2, A2, s2, r2) \<leftarrow> mk_select n t st1;
          A3 \<leftarrow> arr_set A2 t (v1 + v2);
          Some (A3, s2, r2) }"

function phase1 :: "int \<Rightarrow> int \<Rightarrow> int list \<times> int \<times> int \<Rightarrow> int list option" where
  "phase1 n t st =
     (if t < n - 1
      then (case phase1_step n t st of None \<Rightarrow> None | Some st' \<Rightarrow> phase1 n (t + 1) st')
      else Some (fst st))"
  by pat_completeness auto

termination by (relation "measure (\<lambda>(n, t, st). nat (n - 1 - t))") auto

declare phase1.simps [simp del]

text \<open>Phase 2, first loop: \<^verbatim>\<open>A[t] = A[A[t] - 1] + 1\<close> for \<open>t\<close> from \<open>n - 3\<close> down to 0.\<close>

definition depth_step :: "int list \<Rightarrow> int \<Rightarrow> int list option" where
  "depth_step A t = do { p \<leftarrow> arr_get A t; d \<leftarrow> arr_get A (p - 1); arr_set A t (d + 1) }"

function phase2_depths :: "int list \<Rightarrow> int \<Rightarrow> int list option" where
  "phase2_depths A t =
     (if t \<ge> 0
      then (case depth_step A t of None \<Rightarrow> None | Some A' \<Rightarrow> phase2_depths A' (t - 1))
      else Some A)"
  by pat_completeness auto

termination by (relation "measure (\<lambda>(A, t). nat (t + 1))") auto

declare phase2_depths.simps [simp del]

text \<open>
  Phase 2, second loop. \<open>count_level\<close> is \<^verbatim>\<open>while (t >= 0 && A[t] == d) { u++; t--; }\<close> on
  the pair \<open>(u, t)\<close>; \<open>assign_level\<close> is \<^verbatim>\<open>while (a > u) { A[x] = d; x--; a--; }\<close> on
  \<open>(A, x, a)\<close>; \<open>level_step\<close> is one round of the enclosing \<^verbatim>\<open>while (a > 0)\<close> on
  \<open>(A, a, d, x, t)\<close>, which starts and ends with \<open>u = 0\<close>.
\<close>

function count_level :: "int list \<Rightarrow> int \<Rightarrow> int \<times> int \<Rightarrow> (int \<times> int) option" where
  "count_level A d ut =
     (if snd ut \<ge> 0
      then (case arr_get A (snd ut) of
              None \<Rightarrow> None
            | Some v \<Rightarrow> if v = d then count_level A d (fst ut + 1, snd ut - 1) else Some ut)
      else Some ut)"
  by pat_completeness auto

termination by (relation "measure (\<lambda>(A, d, ut). nat (snd ut + 1))") auto

declare count_level.simps [simp del]

function assign_level :: "int \<Rightarrow> int \<Rightarrow> int list \<times> int \<times> int \<Rightarrow> (int list \<times> int \<times> int) option" where
  "assign_level u d st = (case st of (A, x, a) \<Rightarrow>
     (if a > u
      then (case arr_set A x d of
              None \<Rightarrow> None
            | Some A' \<Rightarrow> assign_level u d (A', x - 1, a - 1))
      else Some st))"
  by pat_completeness auto

termination by (relation "measure (\<lambda>(u, d, A, x, a). nat (a - u))") auto

declare assign_level.simps [simp del]

definition level_step ::
  "int list \<times> int \<times> int \<times> int \<times> int \<Rightarrow> (int list \<times> int \<times> int \<times> int \<times> int) option" where
  "level_step st = (case st of (A, a, d, x, t) \<Rightarrow>
     do { (u, t') \<leftarrow> count_level A d (0, t);
          (A', x', a') \<leftarrow> assign_level u d (A, x, a);
          Some (A', 2 * u, d + 1, x', t') })"

function phase2_lengths :: "int list \<times> int \<times> int \<times> int \<times> int \<Rightarrow> int list option" where
  "phase2_lengths st =
     (if fst (snd st) > 0
      then (case level_step st of None \<Rightarrow> None | Some st' \<Rightarrow> phase2_lengths st')
      else Some (fst st))"
  by pat_completeness auto

termination
proof -
  have counted: "fst ut \<le> fst ut' \<and> snd ut' = snd ut - (fst ut' - fst ut) \<and> (fst ut < fst ut' \<longrightarrow> 0 \<le> snd ut)"
    if "count_level A d ut = Some ut'" for A d ut ut'
    using that
  proof (induction A d ut rule: count_level.induct)
    case (1 A d ut)
    show ?case
    proof (cases "snd ut \<ge> 0 \<and> arr_get A (snd ut) = Some d")
      case True
      then have rest: "count_level A d (fst ut + 1, snd ut - 1) = Some ut'"
        using "1.prems" by (subst (asm) count_level.simps) simp
      from "1.IH" [OF _ _ _ rest] True show ?thesis by simp
    next
      case False
      then have "ut' = ut"
        using "1.prems" by (subst (asm) count_level.simps) (auto split: option.splits if_splits)
      then show ?thesis by simp
    qed
  qed
  show ?thesis
  proof (relation "measure (\<lambda>(A, a, d, x, t). if a > 0 then nat (t + 1) + 1 else 0)", goal_cases)
    case 1
    show ?case by simp
  next
    case (2 st st')
    obtain A a d x t where st: "st = (A, a, d, x, t)" by (cases st) auto
    from 2(2) st obtain u t' A' x' a' where c: "count_level A d (0, t) = Some (u, t')"
      and st': "st' = (A', 2 * u, d + 1, x', t')"
      by (auto simp add: level_step_def split: Option.bind_splits)
    from counted [OF c] have "0 \<le> u" "t' = t - u" "0 < u \<longrightarrow> 0 \<le> t" by simp_all
    then show ?case using 2(1) st st' by auto
  qed
qed

declare phase2_lengths.simps [simp del]

text \<open>\<^verbatim>\<open>pEncoder->nCodeLength[nMinQueue[i]] = A[i]\<close> for \<open>i\<close> from the given index up to \<open>n - 1\<close>.\<close>

definition scatter_step :: "int list \<Rightarrow> int list \<Rightarrow> int \<Rightarrow> int list \<Rightarrow> int list option" where
  "scatter_step q A i len = do { s \<leftarrow> arr_get q i; v \<leftarrow> arr_get A i; arr_set len s v }"

function scatter :: "int list \<Rightarrow> int list \<Rightarrow> int \<Rightarrow> int \<Rightarrow> int list \<Rightarrow> int list option" where
  "scatter q A n i len =
     (if i < n
      then (case scatter_step q A i len of None \<Rightarrow> None | Some len' \<Rightarrow> scatter q A n (i + 1) len')
      else Some len)"
  by pat_completeness auto

termination by (relation "measure (\<lambda>(q, A, n, i, len). nat (n - i))") auto

declare scatter.simps [simp del]

text \<open>
  The whole function: the result is the C return value and the encoder. The symbols with
  a nonzero entropy are collected and sorted first; with two symbols or more the code
  lengths are computed in \<open>A\<close>, otherwise symbol 0 gets length 1. The loop that zeroes
  \<^verbatim>\<open>nMinQueue\<close> from index \<^verbatim>\<open>nSymbols\<close> on writes entries that the function never reads; it
  is left out. \<^verbatim>\<open>memset\<close> makes \<^verbatim>\<open>nCodeLength\<close> a list of \<^verbatim>\<open>MAX_SYMBOLS\<close> zeros.
\<close>

definition zultra_huffman_encoder_estimate_dynamic_codelens ::
  "zultra_huffman_encoder_t \<Rightarrow> (int \<times> zultra_huffman_encoder_t) option" where
  "zultra_huffman_encoder_estimate_dynamic_codelens enc =
     (if nSymbols enc < 0 \<or> nSymbols enc > MAX_SYMBOLS then Some (-1, enc)
      else
        do { q \<leftarrow> enum_nonzero (nEntropy enc) (nSymbols enc) 0 [];
             let n = int (length q);
             if n > 1
             then do { q' \<leftarrow> zultra_huffman_encoder_qsort (nEntropy enc) q 0 (n - 1);
                       A \<leftarrow> gather (nEntropy enc) q';
                       A1 \<leftarrow> phase1 n 0 (A, 0, 0);
                       A2 \<leftarrow> arr_set A1 (n - 2) 0;
                       A3 \<leftarrow> phase2_depths A2 (n - 3);
                       A4 \<leftarrow> phase2_lengths (A3, 1, 0, n - 1, n - 2);
                       len \<leftarrow> scatter q' A4 n 0 (replicate (nat MAX_SYMBOLS) 0);
                       Some (0, enc \<lparr> nCodeLength := len \<rparr>) }
             else do { len \<leftarrow> arr_set (replicate (nat MAX_SYMBOLS) 0) 0 1;
                       Some (0, enc \<lparr> nCodeLength := len \<rparr>) } })"

subsection \<open>Length limiting and codewords: \<^verbatim>\<open>zultra_huffman_encoder_build_dynamic_codewords\<close>\<close>

text \<open>
  First loop of the length limiter, on \<open>(nCodeLength, k)\<close>: cap the length of the symbol
  \<open>nMinQueue[i]\<close> and add its share \<^verbatim>\<open>maxk >> nCodeLength[n]\<close> to \<open>k\<close>.
\<close>

definition cap_step :: "int \<Rightarrow> int \<Rightarrow> int list \<Rightarrow> int \<Rightarrow> int list \<times> int \<Rightarrow> (int list \<times> int) option" where
  "cap_step L maxk q i st = (case st of (len, k) \<Rightarrow>
     do { s \<leftarrow> arr_get q i;
          l \<leftarrow> arr_get len s;
          len' \<leftarrow> (if l > L then arr_set len s L else Some len);
          l' \<leftarrow> arr_get len' s;
          d \<leftarrow> int_shr maxk l';
          Some (len', k + d) })"

function cap_loop :: "int \<Rightarrow> int \<Rightarrow> int list \<Rightarrow> int \<Rightarrow> int list \<times> int \<Rightarrow> (int list \<times> int) option" where
  "cap_loop L maxk q i st =
     (if i \<ge> 0
      then (case cap_step L maxk q i st of None \<Rightarrow> None | Some st' \<Rightarrow> cap_loop L maxk q (i - 1) st')
      else Some st)"
  by pat_completeness auto

termination by (relation "measure (\<lambda>(L, maxk, q, i, st). nat (i + 1))") auto

declare cap_loop.simps [simp del]

text \<open>
  Second loop. \<open>lengthen\<close> is the inner
  \<^verbatim>\<open>while (nCodeLength[n] < nMaxCodeLength && k > maxk)\<close> for the symbol \<open>s\<close>.
\<close>

definition lengthen_step :: "int \<Rightarrow> int \<Rightarrow> int \<Rightarrow> int list \<times> int \<Rightarrow> (int list \<times> int) option" where
  "lengthen_step maxk s l st =
     do { len' \<leftarrow> arr_set (fst st) s (l + 1);
          l' \<leftarrow> arr_get len' s;
          d \<leftarrow> int_shr maxk l';
          Some (len', snd st - d) }"

function lengthen :: "int \<Rightarrow> int \<Rightarrow> int \<Rightarrow> int list \<times> int \<Rightarrow> (int list \<times> int) option" where
  "lengthen L maxk s st =
     (case arr_get (fst st) s of
        None \<Rightarrow> None
      | Some l \<Rightarrow>
          if l < L \<and> snd st > maxk
          then (case lengthen_step maxk s l st of
                  None \<Rightarrow> None
                | Some st' \<Rightarrow> lengthen L maxk s st')
          else Some st)"
  by pat_completeness auto

termination
proof (relation "measure (\<lambda>(L, maxk, s, st). nat (L - fst st ! nat s))", goal_cases)
  case 1
  show ?case by simp
next
  case (2 L maxk s st l st')
  then show ?case
    by (auto simp add: lengthen_step_def arr_get_def arr_set_def
        split: Option.bind_splits if_splits)
qed

declare lengthen.simps [simp del]

function propagate :: "int \<Rightarrow> int \<Rightarrow> int list \<Rightarrow> int \<Rightarrow> int list \<times> int \<Rightarrow> (int list \<times> int) option" where
  "propagate L maxk q i st =
     (if snd st > maxk \<and> i \<ge> 0
      then (case Option.bind (arr_get q i) (\<lambda>s. lengthen L maxk s st) of
              None \<Rightarrow> None
            | Some st' \<Rightarrow> propagate L maxk q (i - 1) st')
      else Some st)"
  by pat_completeness auto

termination by (relation "measure (\<lambda>(L, maxk, q, i, st). nat (i + 1))") auto

declare propagate.simps [simp del]

text \<open>
  Third loop. \<open>shorten\<close> is the inner
  \<^verbatim>\<open>while ((k + (maxk >> nCodeLength[n])) <= maxk)\<close> for the symbol \<open>s\<close>. The enclosing
  \<^verbatim>\<open>for (i = 0; k < maxk && i <= nNumSorted; i++)\<close> admits \<open>i = nNumSorted\<close>, where
  \<^verbatim>\<open>nMinQueue[i]\<close> was never written: reading it is the error value.
\<close>

function shorten :: "int \<Rightarrow> int \<Rightarrow> int list \<times> int \<Rightarrow> (int list \<times> int) option" where
  "shorten maxk s st =
     (case Option.bind (arr_get (fst st) s) (\<lambda>l. Option.bind (int_shr maxk l) (\<lambda>d. Some (l, d))) of
        None \<Rightarrow> None
      | Some (l, d) \<Rightarrow>
          if snd st + d \<le> maxk
          then (case arr_set (fst st) s (l - 1) of
                  None \<Rightarrow> None
                | Some len' \<Rightarrow> shorten maxk s (len', snd st + d))
          else Some st)"
  by pat_completeness auto

termination
proof (relation "measure (\<lambda>(maxk, s, st). nat (fst st ! nat s + 1))", goal_cases)
  case 1
  show ?case by simp
next
  case (2 maxk s st x l d len')
  then show ?case
    by (auto simp add: arr_get_def arr_set_def int_shr_def split: Option.bind_splits if_splits)
qed

declare shorten.simps [simp del]

function reclaim :: "int \<Rightarrow> int list \<Rightarrow> int \<Rightarrow> int \<Rightarrow> int list \<times> int \<Rightarrow> (int list \<times> int) option" where
  "reclaim maxk q n i st =
     (if snd st < maxk \<and> i \<le> n
      then (case Option.bind (arr_get q i) (\<lambda>s. shorten maxk s st) of
              None \<Rightarrow> None
            | Some st' \<Rightarrow> reclaim maxk q n (i + 1) st')
      else Some st)"
  by pat_completeness auto

termination by (relation "measure (\<lambda>(maxk, q, n, i, st). nat (n + 1 - i))") auto

declare reclaim.simps [simp del]

text \<open>
  The body of \<^verbatim>\<open>if (nCodeLength[nMinQueue[nNumSorted - 1]] > nMaxCodeLength)\<close>: the three
  loops and the second sort. It returns the code lengths and the queue.
\<close>

definition limit_lengths :: "int \<Rightarrow> int list \<Rightarrow> int list \<Rightarrow> (int list \<times> int list) option" where
  "limit_lengths L q len =
     do { let n = int (length q);
          maxk \<leftarrow> int_shl 1 L;
          st1 \<leftarrow> cap_loop L maxk q (n - 1) (len, 0);
          st2 \<leftarrow> propagate L maxk q (n - 1) st1;
          st3 \<leftarrow> reclaim maxk q n 0 st2;
          q' \<leftarrow> zultra_huffman_encoder_qsort (fst st3) q 0 (n - 1);
          Some (fst st3, q') }"

text \<open>Canonical codewords, bit-reversed in 16 bits and shifted down to their length.\<close>

definition word_shl :: "32 word \<Rightarrow> int \<Rightarrow> 32 word option" where
  "word_shl w n = (if 0 \<le> n \<and> n < 32 then Some (push_bit (nat n) w) else None)"

definition word_shr :: "32 word \<Rightarrow> int \<Rightarrow> 32 word option" where
  "word_shr w n = (if 0 \<le> n \<and> n < 32 then Some (drop_bit (nat n) w) else None)"

definition issue_step ::
  "int list \<Rightarrow> int list \<Rightarrow> int \<Rightarrow> int \<Rightarrow> 32 word list \<times> 32 word \<times> int \<Rightarrow>
   (32 word list \<times> 32 word \<times> int) option" where
  "issue_step len q n i st = (case st of (cw, nCanonicalCodeWord, nCanonicalLength) \<Rightarrow>
     do { s \<leftarrow> arr_get q i;
          nRevWord \<leftarrow> word_shr (rev16 nCanonicalCodeWord) (16 - nCanonicalLength);
          cw' \<leftarrow> arr_set cw s nRevWord;
          if i + 1 < n
          then do { s' \<leftarrow> arr_get q (i + 1);
                    nNewLength \<leftarrow> arr_get len s';
                    c' \<leftarrow> word_shl (nCanonicalCodeWord + 1) (nNewLength - nCanonicalLength);
                    Some (cw', c', nNewLength) }
          else Some (cw', nCanonicalCodeWord, nCanonicalLength) })"

function issue_loop ::
  "int list \<Rightarrow> int list \<Rightarrow> int \<Rightarrow> int \<Rightarrow> 32 word list \<times> 32 word \<times> int \<Rightarrow> 32 word list option" where
  "issue_loop len q n i st =
     (if i < n
      then (case issue_step len q n i st of None \<Rightarrow> None | Some st' \<Rightarrow> issue_loop len q n (i + 1) st')
      else Some (fst st))"
  by pat_completeness auto

termination by (relation "measure (\<lambda>(len, q, n, i, st). nat (n - i))") auto

declare issue_loop.simps [simp del]

definition zultra_huffman_encoder_build_dynamic_codewords ::
  "zultra_huffman_encoder_t \<Rightarrow> (int \<times> zultra_huffman_encoder_t) option" where
  "zultra_huffman_encoder_build_dynamic_codewords enc0 =
     do { (r, enc) \<leftarrow> zultra_huffman_encoder_estimate_dynamic_codelens enc0;
          if r < 0 then Some (-1, enc)
          else
            do { q \<leftarrow> enum_nonzero (nCodeLength enc) (nSymbols enc) 0 [];
                 let n = int (length q);
                 (len, q') \<leftarrow>
                   (if n > 0 \<and> nMaxCodeLength enc > 0
                    then do { q1 \<leftarrow> zultra_huffman_encoder_qsort (nCodeLength enc) q 0 (n - 1);
                              s \<leftarrow> arr_get q1 (n - 1);
                              l \<leftarrow> arr_get (nCodeLength enc) s;
                              if l > nMaxCodeLength enc
                              then limit_lengths (nMaxCodeLength enc) q1 (nCodeLength enc)
                              else Some (nCodeLength enc, q1) }
                    else Some (nCodeLength enc, q));
                 cw \<leftarrow>
                   (if n > 0
                    then do { s0 \<leftarrow> arr_get q' 0;
                              l0 \<leftarrow> arr_get len s0;
                              issue_loop len q' n 0 (nCodeWord enc, 0, l0) }
                    else Some (nCodeWord enc));
                 Some (0, enc \<lparr> nCodeWord := cw, nCodeLength := len \<rparr>) } }"

text \<open>
  The Kraft sum of a code length table in units of \<open>2\<^sup>-\<^sup>L\<close>: every symbol with a nonzero
  length \<open>l\<close> counts \<open>2\<^sup>L\<^sup>-\<^sup>l\<close>.
\<close>

definition kraft_sum :: "int \<Rightarrow> int list \<Rightarrow> int" where
  "kraft_sum L lens = sum_list (map (\<lambda>l. if l = 0 then 0 else 2 ^ nat (L - l)) lens)"

text \<open>
  An encoder as \<^verbatim>\<open>zultra_huffman_encoder_init\<close> sets it up for four symbols and 15 bits, with
  the counts 5, 0, 3 and 2.
\<close>

definition ex_counts_encoder :: zultra_huffman_encoder_t where
  "ex_counts_encoder =
     \<lparr> nSymbols = 4, nMaxCodeLength = 15, nEntropy = [5, 0, 3, 2] @ replicate 284 0,
       nCodeWord = replicate 288 0, nCodeLength = replicate 288 0 \<rparr>"

subsection \<open>Invariants of the code builder\<close>

text \<open>
  The predicates and measures in which the loops of the code builder are specified.
\<close>

text \<open>
  \<open>seg_perm l r xs ys\<close>: \<open>ys\<close> rearranges \<open>xs\<close> inside the index range \<open>l..r\<close> and agrees
  with it outside.
\<close>

definition seg_perm :: "int \<Rightarrow> int \<Rightarrow> int list \<Rightarrow> int list \<Rightarrow> bool" where
  "seg_perm l r xs ys \<longleftrightarrow>
     length ys = length xs \<and> mset ys = mset xs \<and>
     (\<forall>i. 0 \<le> i \<and> i < int (length xs) \<and> (i < l \<or> r < i) \<longrightarrow> ys ! nat i = xs ! nat i) \<and>
     (\<forall>i. l \<le> i \<and> i \<le> r \<longrightarrow> (\<exists>j. l \<le> j \<and> j \<le> r \<and> ys ! nat i = xs ! nat j))"

text \<open>The order of the partition loop: \<open>x\<close> is moved in front of the pivot \<open>p\<close>.\<close>

definition key_lt :: "int list \<Rightarrow> int \<Rightarrow> int \<Rightarrow> bool" where
  "key_lt val x p \<longleftrightarrow> val ! nat p > val ! nat x \<or> (val ! nat p = val ! nat x \<and> p > x)"

definition scan_inv ::
  "int list \<Rightarrow> int \<Rightarrow> int \<Rightarrow> int \<Rightarrow> int list \<Rightarrow> int \<Rightarrow> int list \<times> int \<Rightarrow> bool" where
  "scan_inv val left right p idx0 i st \<longleftrightarrow>
     left \<le> snd st \<and> snd st < i \<and> i \<le> right + 1 \<and> seg_perm left right idx0 (fst st) \<and>
     fst st ! nat left = p \<and>
     (\<forall>j. left < j \<and> j \<le> snd st \<longrightarrow> key_lt val (fst st ! nat j) p) \<and>
     (\<forall>j. snd st < j \<and> j < i \<longrightarrow> \<not> key_lt val (fst st ! nat j) p)"

text \<open>
  \<open>R p\<close> is the value of \<open>r\<close> when step \<open>p\<close> starts: the internal nodes selected by step
  \<open>p\<close> are those at \<open>R p \<le> i < R (p + 1)\<close>, at most two, all below \<open>p\<close>, and they hold the
  parent pointer \<open>p + 1\<close>.
\<close>

definition ptrs_upto :: "(int \<Rightarrow> int) \<Rightarrow> int \<Rightarrow> int list \<Rightarrow> bool" where
  "ptrs_upto R t A \<longleftrightarrow>
     R 0 = 0 \<and>
     (\<forall>p. 0 \<le> p \<and> p < t \<longrightarrow>
        0 \<le> R p \<and> R p \<le> R (p + 1) \<and> R (p + 1) \<le> R p + 2 \<and> R (p + 1) \<le> p \<and>
        R (p + 1) \<le> R t \<and>
        (\<forall>i. R p \<le> i \<and> i < R (p + 1) \<longrightarrow> A ! nat i = p + 1))"

definition p1_inv :: "int \<Rightarrow> (int \<Rightarrow> int) \<Rightarrow> int \<Rightarrow> int list \<times> int \<times> int \<Rightarrow> bool" where
  "p1_inv n R t st \<longleftrightarrow> (case st of (A, s, r) \<Rightarrow>
     int (length A) = n \<and> 0 \<le> t \<and> t \<le> n - 1 \<and> r + s = 2 * t \<and> 0 \<le> r \<and> r \<le> t \<and> s \<le> n \<and>
     R t = r \<and> ptrs_upto R t A)"

text \<open>What phase 1 leaves in \<open>A\<close>: the parent pointers of the internal nodes \<open>0..n - 3\<close>.\<close>

definition tree_ptrs :: "int \<Rightarrow> (int \<Rightarrow> int) \<Rightarrow> int list \<Rightarrow> bool" where
  "tree_ptrs n R A \<longleftrightarrow> int (length A) = n \<and> R (n - 1) = n - 2 \<and> ptrs_upto R (n - 1) A"

definition tree_shape :: "int \<Rightarrow> (int \<Rightarrow> int) \<Rightarrow> bool" where
  "tree_shape n R \<longleftrightarrow>
     R 0 = 0 \<and> R (n - 1) = n - 2 \<and>
     (\<forall>p. 0 \<le> p \<and> p < n - 1 \<longrightarrow>
        0 \<le> R p \<and> R p \<le> R (p + 1) \<and> R (p + 1) \<le> R p + 2 \<and> R (p + 1) \<le> p \<and> R (p + 1) \<le> n - 2)"

definition d2_inv :: "int \<Rightarrow> (int \<Rightarrow> int) \<Rightarrow> int \<Rightarrow> int list \<Rightarrow> bool" where
  "d2_inv n R t A \<longleftrightarrow>
     int (length A) = n \<and> A ! nat (n - 2) = 0 \<and>
     (\<forall>p i. 0 \<le> p \<and> p < n - 1 \<and> R p \<le> i \<and> i < R (p + 1) \<longrightarrow>
        (if i \<le> t then A ! nat i = p + 1 else A ! nat i = A ! nat p + 1))"

text \<open>The Kraft sum of a list of code lengths.\<close>

definition wsum :: "int list \<Rightarrow> real" where
  "wsum ls = sum_list (map (\<lambda>l. (1 / 2) ^ nat l) ls)"

definition depths_ok :: "int \<Rightarrow> (int \<Rightarrow> int) \<Rightarrow> int list \<Rightarrow> bool" where
  "depths_ok n R A0 \<longleftrightarrow>
     int (length A0) = n \<and> A0 ! nat (n - 2) = 0 \<and>
     (\<forall>p i. 0 \<le> p \<and> p < n - 1 \<and> R p \<le> i \<and> i < R (p + 1) \<longrightarrow> A0 ! nat i = A0 ! nat p + 1)"

definition lv_inv ::
  "int \<Rightarrow> (int \<Rightarrow> int) \<Rightarrow> int list \<Rightarrow> int list \<Rightarrow> int \<Rightarrow> int \<Rightarrow> int \<Rightarrow> int \<Rightarrow> bool" where
  "lv_inv n R A0 A a d x t \<longleftrightarrow>
     int (length A) = n \<and> -1 \<le> t \<and> t \<le> n - 2 \<and> 0 \<le> d \<and> x = t + a \<and> x \<le> n - 1 \<and>
     t + 1 - R (t + 1) \<le> a \<and>
     (d = 0 \<longrightarrow> a = 1 \<and> t = n - 2) \<and>
     (\<forall>i. R (t + 1) \<le> i \<and> i \<le> t \<longrightarrow> A0 ! nat i = d) \<and>
     (\<forall>i. 0 \<le> i \<and> i < R (t + 1) \<longrightarrow> d + 1 \<le> A0 ! nat i) \<and>
     (\<forall>i. 0 \<le> i \<and> i \<le> t \<longrightarrow> A ! nat i = A0 ! nat i) \<and>
     wsum (drop (nat (x + 1)) A) + real_of_int a * (1 / 2) ^ nat d = 1 \<and>
     (\<forall>i. x < i \<and> i \<le> n - 1 \<longrightarrow> 1 \<le> A ! nat i)"

text \<open>The symbols below \<open>nSyms\<close> with a nonzero entry, in ascending order.\<close>

definition used_syms :: "int list \<Rightarrow> int \<Rightarrow> int list" where
  "used_syms arr nSyms = filter (\<lambda>s. arr ! nat s \<noteq> 0) [0..nSyms - 1]"

text \<open>The share of a symbol of length \<open>l\<close> in the Kraft sum, in units of \<open>2\<^sup>-\<^sup>L\<close>.\<close>

definition share :: "int \<Rightarrow> int \<Rightarrow> int" where
  "share L l = 2 ^ nat (L - l)"

text \<open>
  The lengths of the queued symbols, by queue position, and their Kraft sum. The limiter
  changes the table only at queued symbols, one position at a time.
\<close>

definition pos_lens :: "int list \<Rightarrow> int list \<Rightarrow> int list" where
  "pos_lens len q = map (\<lambda>s. len ! nat s) q"

definition ksum :: "int \<Rightarrow> int list \<Rightarrow> int" where
  "ksum L ls = sum_list (map (share L) ls)"

definition good_queue :: "int list \<Rightarrow> int list \<Rightarrow> int \<Rightarrow> bool" where
  "good_queue q len n \<longleftrightarrow>
     int (length q) = n \<and> distinct q \<and> (\<forall>s \<in> set q. 0 \<le> s \<and> s < int (length len))"

text \<open>The number of positions holding the maximum length.\<close>

definition countL :: "int \<Rightarrow> int list \<Rightarrow> int" where
  "countL L ls = int (length (filter (\<lambda>l. l = L) ls))"

text \<open>
  What the second loop establishes: the Kraft sum is at most \<open>2\<^sup>L\<close>, and a deficit is
  smaller than the share of every position up to some \<open>j\<close>, while the positions after \<open>j\<close>
  hold the maximum length and are numerous enough to fill the deficit.
\<close>

definition post2 :: "int \<Rightarrow> int \<Rightarrow> int list \<Rightarrow> int \<Rightarrow> bool" where
  "post2 L n ls k \<longleftrightarrow>
     k \<le> 2 ^ nat L \<and>
     (k = 2 ^ nat L \<or>
      (\<exists>j b. 0 \<le> j \<and> j < n \<and>
         (\<forall>j'. 0 \<le> j' \<and> j' \<le> j \<longrightarrow> 2 ^ nat L - k < share L (ls ! nat j')) \<and>
         (\<forall>j'. j < j' \<and> j' < n \<longrightarrow> ls ! nat j' = L) \<and>
         2 ^ nat L - k < 2 ^ b \<and> 2 ^ b \<le> 2 ^ nat L - k + (n - 1 - j)))"

subsection \<open>The distance tables of a dynamic block (blockdeflate.c)\<close>

definition NVALIDOFFSETSYMS :: int where "NVALIDOFFSETSYMS = 30"

text \<open>
  \<^verbatim>\<open>zultra_huffman_encoder_get_defined_var_lengths_count\<close>: the loop
  \<^verbatim>\<open>while (i > nMinSymbols && !pEncoder->nCodeLength[i - 1]) i--\<close>, started at \<^verbatim>\<open>nSymbols\<close>.
\<close>

function defined_lengths_loop :: "int list \<Rightarrow> int \<Rightarrow> int \<Rightarrow> int option" where
  "defined_lengths_loop len nMinSymbols i =
     (if i > nMinSymbols
      then (case arr_get len (i - 1) of
              None \<Rightarrow> None
            | Some l \<Rightarrow> if l = 0 then defined_lengths_loop len nMinSymbols (i - 1) else Some i)
      else Some i)"
  by pat_completeness auto

termination by (relation "measure (\<lambda>(len, nMinSymbols, i). nat (i - nMinSymbols))") auto

declare defined_lengths_loop.simps [simp del]

definition zultra_huffman_encoder_get_defined_var_lengths_count ::
  "zultra_huffman_encoder_t \<Rightarrow> int \<Rightarrow> int option" where
  "zultra_huffman_encoder_get_defined_var_lengths_count enc nMinSymbols =
     defined_lengths_loop (nCodeLength enc) nMinSymbols (nSymbols enc)"

text \<open>
  The last convergence pass of \<^verbatim>\<open>zultra_block_deflate\<close>, between the final entropy count
  and the final build: \<^verbatim>\<open>for (i = 0; nOffsetLens < 2 && i < NOFFSETSYMS - 2; i++)\<close> counts
  the distance symbols in use, up to two, and one or two entropies are set to 1 when
  fewer are found (\<^verbatim>\<open>nEntropy[0] = nEntropy[1] = 1\<close> assigns entry 1 first).
\<close>

function count_offset_lens :: "int list \<Rightarrow> int \<Rightarrow> int \<Rightarrow> int option" where
  "count_offset_lens ent i nOffsetLens =
     (if nOffsetLens < 2 \<and> i < NOFFSETSYMS - 2
      then (case arr_get ent i of
              None \<Rightarrow> None
            | Some e \<Rightarrow> count_offset_lens ent (i + 1) (if e \<noteq> 0 then nOffsetLens + 1 else nOffsetLens))
      else Some nOffsetLens)"
  by pat_completeness auto

termination by (relation "measure (\<lambda>(ent, i, nOffsetLens). nat (NOFFSETSYMS - 2 - i))") auto

declare count_offset_lens.simps [simp del]

definition offset_floor :: "int list \<Rightarrow> int list option" where
  "offset_floor ent =
     do { nOffsetLens \<leftarrow> count_offset_lens ent 0 0;
          if nOffsetLens = 0
          then do { ent1 \<leftarrow> arr_set ent 1 1; arr_set ent1 0 1 }
          else if nOffsetLens = 1
          then do { e0 \<leftarrow> arr_get ent 0;
                    if e0 \<noteq> 0 then arr_set ent 1 1 else arr_set ent 0 1 }
          else Some ent }"

text \<open>
  What \<^verbatim>\<open>zultra_block_deflate\<close> does to \<^verbatim>\<open>offsetEncoder\<close> from there to the header: the
  final build on the floored entropies; the copy \<^verbatim>\<open>optOffsetEncoder\<close>, whose entropies
  \<^verbatim>\<open>zultra_huffman_encoder_optimize_for_rle\<close> rewrites and which is built in turn; the
  choice of the copy when \<^verbatim>\<open>nOptTotalBitCost < nCurTotalBitCost\<close>; and the count
  \<^verbatim>\<open>nOffsetSyms\<close> of the lengths that the header declares, which are the first
  \<^verbatim>\<open>nOffsetSyms\<close> entries of \<^verbatim>\<open>nCodeLength\<close>. The result is the return value so far (-1 when a
  build fails or \<^verbatim>\<open>nOffsetSyms > NVALIDOFFSETSYMS\<close>, and then no header is written), the
  encoder and \<^verbatim>\<open>nOffsetSyms\<close>. \<^verbatim>\<open>zultra_huffman_encoder_optimize_for_rle\<close> (huffutils.c) and
  the outcome of the cost comparison, which depends on the literal tables, are
  parameters.
\<close>

definition final_offset_tables ::
  "(int \<Rightarrow> int list \<Rightarrow> int list) \<Rightarrow> bool \<Rightarrow> zultra_huffman_encoder_t
   \<Rightarrow> (int \<times> zultra_huffman_encoder_t \<times> int) option" where
  "final_offset_tables optimize_for_rle cheaper enc =
     do { ent \<leftarrow> offset_floor (nEntropy enc);
          (r, cur) \<leftarrow> zultra_huffman_encoder_build_dynamic_codewords (enc \<lparr> nEntropy := ent \<rparr>);
          if r < 0 then Some (-1, cur, 0)
          else
            do { (r', opt) \<leftarrow> zultra_huffman_encoder_build_dynamic_codewords
                               (cur \<lparr> nEntropy := optimize_for_rle NOFFSETSYMS (nEntropy cur) \<rparr>);
                 if r' < 0 then Some (-1, cur, 0)
                 else
                   do { let fin = (if cheaper then opt else cur);
                        nOffsetSyms \<leftarrow> zultra_huffman_encoder_get_defined_var_lengths_count fin 1;
                        Some ((if nOffsetSyms > NVALIDOFFSETSYMS then -1 else 0), fin, nOffsetSyms) } } }"

text \<open>
  The distance encoder of a block without a match, as the last pass finds it: 32 symbols,
  at most 15 bits, no entropy counted.
\<close>

definition ex_offset_encoder :: zultra_huffman_encoder_t where
  "ex_offset_encoder =
     \<lparr> nSymbols = 32, nMaxCodeLength = 15, nEntropy = replicate 288 0,
       nCodeWord = replicate 288 0, nCodeLength = replicate 288 0 \<rparr>"

chapter \<open>Part II: lemmas\<close>

section \<open>Bit writer: lemmas\<close>

lemma put_bits_loop_lt8:
  "nEncBitCount bw < 8 \<Longrightarrow> put_bits_loop bw m = (0, bw, m)"
  by (simp add: put_bits_loop.simps)

lemma put_bits_loop_full:
  "nEncBitCount bw \<ge> 8 \<Longrightarrow> nOutOffset bw \<ge> nMaxOutDataOffset bw \<Longrightarrow>
   put_bits_loop bw m = (-1, bw, m)"
  by (simp add: put_bits_loop.simps)

lemma put_bits_loop_step:
  "nEncBitCount bw \<ge> 8 \<Longrightarrow> nOutOffset bw < nMaxOutDataOffset bw \<Longrightarrow>
   put_bits_loop bw m =
     put_bits_loop
       (bw \<lparr> nOutOffset := nOutOffset bw + 1,
             nEncBitsData := drop_bit 8 (nEncBitsData bw),
             nEncBitCount := nEncBitCount bw - 8 \<rparr>)
       (m (pOutData bw + nOutOffset bw := ucast (nEncBitsData bw)))"
  by (subst put_bits_loop.simps) simp

lemma put_bits_loop_inv:
  "put_bits_loop bw m = (0, bw', m') \<Longrightarrow> 0 \<le> nEncBitCount bw \<Longrightarrow>
   nOutOffset bw \<le> nMaxOutDataOffset bw \<Longrightarrow> bw_inv bw'"
proof (induction bw m rule: put_bits_loop.induct)
  case (1 bw m)
  show ?case
  proof (cases "nEncBitCount bw \<ge> 8")
    case True
    have lt: "nOutOffset bw < nMaxOutDataOffset bw"
    proof (rule ccontr)
      assume "\<not> ?thesis"
      then have "put_bits_loop bw m = (-1, bw, m)"
        using True by (simp add: put_bits_loop_full)
      with "1.prems"(1) show False by simp
    qed
    have "\<not> nMaxOutDataOffset bw \<le> nOutOffset bw" using lt by simp
    from "1.IH"[OF True this] "1.prems" True lt show ?thesis
      by (simp add: put_bits_loop_step fun_upd_def)
  next
    case False
    with "1.prems" show ?thesis by (simp add: bw_inv_def put_bits_loop_lt8)
  qed
qed


subsection \<open>Bit lists\<close>

lemma length_bits_of [simp]: "length (bits_of n w) = n"
  by (simp add: bits_of_def)

lemma bits_of_add: "bits_of (a + b) w = bits_of a w @ bits_of b (drop_bit a w)"
proof -
  have "map (bit w) [a..<a + b] = map (bit (drop_bit a w)) [0..<b]"
    by (rule nth_equalityI) (simp_all add: bit_drop_bit_eq add.commute)
  moreover have "[0..<a + b] = [0..<a] @ [a..<a + b]"
    by (rule upt_add_eq_append) simp
  ultimately show ?thesis
    by (simp add: bits_of_def)
qed

lemma bits_of_ucast8: "bits_of 8 (ucast (w :: 32 word) :: 8 word) = bits_of 8 w"
  by (rule nth_equalityI) (simp_all add: bits_of_def bit_ucast_iff)

lemma bits_of_flush_byte:
  assumes "8 \<le> c"
  shows "bits_of 8 (ucast (w :: 32 word) :: 8 word) @ bits_of (c - 8) (drop_bit 8 w) = bits_of c w"
proof -
  from assms have "c = 8 + (c - 8)" by simp
  then have "bits_of c w = bits_of 8 w @ bits_of (c - 8) (drop_bit 8 w)"
    using bits_of_add [of 8 "c - 8" w] by simp
  then show ?thesis by (simp add: bits_of_ucast8)
qed

lemma bits_of_or_push_low:
  "bits_of c (d OR push_bit c v) = bits_of c (d :: 32 word)"
  by (rule nth_equalityI) (simp_all add: bits_of_def bit_or_iff bit_push_bit_iff)

lemma bits_of_or_push_high:
  assumes "take_bit c d = (d :: 32 word)" and "c + n \<le> 32"
  shows "bits_of n (drop_bit c (d OR push_bit c v)) = bits_of n v"
proof (rule nth_equalityI)
  show "length (bits_of n (drop_bit c (d OR push_bit c v))) = length (bits_of n v)" by simp
next
  fix i assume "i < length (bits_of n (drop_bit c (d OR push_bit c v)))"
  then have i: "i < n" by simp
  have "\<not> bit d (c + i)"
  proof -
    have "bit d (c + i) = bit (take_bit c d) (c + i)" using assms(1) by simp
    then show ?thesis by (simp add: bit_take_bit_iff)
  qed
  moreover have "c + i < 32" using i assms(2) by simp
  ultimately show "bits_of n (drop_bit c (d OR push_bit c v)) ! i = bits_of n v ! i"
    using i by (simp add: bits_of_def bit_drop_bit_eq bit_or_iff bit_push_bit_iff)
qed

lemma bits_of_append_value:
  assumes "take_bit c d = (d :: 32 word)" and "c + n \<le> 32"
  shows "bits_of (c + n) (d OR push_bit c v) = bits_of c d @ bits_of n v"
  using bits_of_or_push_high [OF assms, of v]
  by (simp only: bits_of_add bits_of_or_push_low)


subsection \<open>What a put does to the stream\<close>

lemma bw_stream_flush_byte:
  assumes "8 \<le> nEncBitCount bw" and "0 \<le> nOutOffset bw"
  shows "bw_stream
           (bw \<lparr> nOutOffset := nOutOffset bw + 1,
                 nEncBitsData := drop_bit 8 (nEncBitsData bw),
                 nEncBitCount := nEncBitCount bw - 8 \<rparr>)
           (m (pOutData bw + nOutOffset bw := ucast (nEncBitsData bw)))
         = bw_stream bw m"
proof -
  let ?p = "pOutData bw" and ?o = "nOutOffset bw" and ?d = "nEncBitsData bw"
  let ?m' = "m (?p + ?o := ucast ?d)"
  have upt: "[0..<nat (?o + 1)] = [0..<nat ?o] @ [nat ?o]"
    using assms(2) by (simp add: nat_add_distrib)
  have old: "map (\<lambda>i. bits_of 8 (?m' (?p + int i))) [0..<nat ?o]
             = map (\<lambda>i. bits_of 8 (m (?p + int i))) [0..<nat ?o]"
    by (rule map_cong) auto
  have new: "?m' (?p + int (nat ?o)) = ucast ?d"
    using assms(2) by simp
  have bytes: "concat (map (\<lambda>i. bits_of 8 (?m' (?p + int i))) [0..<nat (?o + 1)])
               = concat (map (\<lambda>i. bits_of 8 (m (?p + int i))) [0..<nat ?o]) @ bits_of 8 (ucast ?d :: 8 word)"
    unfolding upt map_append concat_append old by (simp only: new list.map concat.simps append_Nil2)
  have cnt: "nat (nEncBitCount bw - 8) = nat (nEncBitCount bw) - 8"
    by simp
  have "8 \<le> nat (nEncBitCount bw)" using assms(1) by simp
  from bits_of_flush_byte [OF this, of ?d] show ?thesis
    unfolding bw_stream_def by (simp add: bytes cnt del: fun_upd_apply)
qed

lemma put_bits_loop_spec:
  assumes "put_bits_loop bw m = (st, bw', m')"
    and "0 \<le> nEncBitCount bw" and "0 \<le> nOutOffset bw"
    and "nOutOffset bw \<le> nMaxOutDataOffset bw"
  shows "(st = 0 \<or> st = -1) \<and>
         (st = 0 \<longleftrightarrow> nOutOffset bw + nEncBitCount bw div 8 \<le> nMaxOutDataOffset bw) \<and>
         (st = 0 \<longrightarrow>
            bw_stream bw' m' = bw_stream bw m \<and>
            nEncBitCount bw' = nEncBitCount bw mod 8 \<and>
            nOutOffset bw' = nOutOffset bw + nEncBitCount bw div 8 \<and>
            nEncBitsData bw' = drop_bit (8 * nat (nEncBitCount bw div 8)) (nEncBitsData bw) \<and>
            pOutData bw' = pOutData bw \<and>
            nMaxOutDataOffset bw' = nMaxOutDataOffset bw)"
  using assms
proof (induction bw m rule: put_bits_loop.induct)
  case (1 bw m)
  show ?case
  proof (cases "nEncBitCount bw \<ge> 8")
    case False
    then have "put_bits_loop bw m = (0, bw, m)" by (simp add: put_bits_loop_lt8)
    with "1.prems" False show ?thesis by simp
  next
    case True
    show ?thesis
    proof (cases "nOutOffset bw \<ge> nMaxOutDataOffset bw")
      case full: True
      then have "put_bits_loop bw m = (-1, bw, m)"
        using True by (simp add: put_bits_loop_full)
      moreover have "1 \<le> nEncBitCount bw div 8" using True by simp
      ultimately show ?thesis using "1.prems" full by simp
    next
      case room: False
      let ?bw2 = "bw \<lparr> nOutOffset := nOutOffset bw + 1,
                        nEncBitsData := drop_bit 8 (nEncBitsData bw),
                        nEncBitCount := nEncBitCount bw - 8 \<rparr>"
      let ?m2 = "m (pOutData bw + nOutOffset bw := ucast (nEncBitsData bw))"
      have step: "put_bits_loop ?bw2 ?m2 = (st, bw', m')"
        using "1.prems"(1) True room by (simp add: put_bits_loop_step)
      have IH: "(st = 0 \<or> st = -1) \<and>
         (st = 0 \<longleftrightarrow> nOutOffset ?bw2 + nEncBitCount ?bw2 div 8 \<le> nMaxOutDataOffset ?bw2) \<and>
         (st = 0 \<longrightarrow>
            bw_stream bw' m' = bw_stream ?bw2 ?m2 \<and>
            nEncBitCount bw' = nEncBitCount ?bw2 mod 8 \<and>
            nOutOffset bw' = nOutOffset ?bw2 + nEncBitCount ?bw2 div 8 \<and>
            nEncBitsData bw' = drop_bit (8 * nat (nEncBitCount ?bw2 div 8)) (nEncBitsData ?bw2) \<and>
            pOutData bw' = pOutData ?bw2 \<and>
            nMaxOutDataOffset bw' = nMaxOutDataOffset ?bw2)"
        by (rule "1.IH" [OF True room step]) (use "1.prems" True room in simp_all)
      have div8: "(nEncBitCount bw - 8) div 8 = nEncBitCount bw div 8 - 1" by simp
      have mod8: "(nEncBitCount bw - 8) mod 8 = nEncBitCount bw mod 8"
        by (metis mod_diff_right_eq mod_self diff_zero)
      have dr: "8 * nat (nEncBitCount bw div 8 - 1) + 8 = 8 * nat (nEncBitCount bw div 8)"
      proof -
        have "1 \<le> nEncBitCount bw div 8" using True by simp
        then show ?thesis by (simp add: nat_diff_distrib)
      qed
      have str: "bw_stream ?bw2 ?m2 = bw_stream bw m"
        using True "1.prems"(3) by (rule bw_stream_flush_byte)
      from IH show ?thesis
        by (auto simp add: div8 mod8 dr str simp del: fun_upd_apply)
    qed
  qed
qed


lemma put_bits_clean:
  assumes "take_bit c d = (d :: 32 word)" and "take_bit n v = (v :: 32 word)"
    and "8 * k + c' = c + n"
  shows "take_bit c' (drop_bit (8 * k) (d OR push_bit c v)) = drop_bit (8 * k) (d OR push_bit c v)"
proof (rule bit_eqI)
  fix i
  have d: "bit d j \<Longrightarrow> j < c" for j
  proof -
    assume "bit d j"
    then have "bit (take_bit c d) j" using assms(1) by simp
    then show "j < c" by (simp add: bit_take_bit_iff)
  qed
  have v: "bit v j \<Longrightarrow> j < n" for j
  proof -
    assume "bit v j"
    then have "bit (take_bit n v) j" using assms(2) by simp
    then show "j < n" by (simp add: bit_take_bit_iff)
  qed
  show "bit (take_bit c' (drop_bit (8 * k) (d OR push_bit c v))) i
        = bit (drop_bit (8 * k) (d OR push_bit c v)) i"
    using d [of "8 * k + i"] v [of "8 * k + i - c"] assms(3)
    by (auto simp add: bit_take_bit_iff bit_drop_bit_eq bit_or_iff bit_push_bit_iff)
qed


subsection \<open>Writes that succeed\<close>









section \<open>Block size and sizing: lemmas\<close>

lemma effective_block_size_range:
  "32768 \<le> effective_block_size B \<and> effective_block_size B \<le> 2097152"
  unfolding effective_block_size_def by (auto simp: not_less)

lemma effective_block_size_uint:
  "32768 \<le> uint (effective_block_size B) \<and> uint (effective_block_size B) \<le> 2097152"
  using effective_block_size_range [of B] by (simp add: word_le_def)

lemma clamp_is_effective:
  "(if (if (if B = 0 then ZULTRA_DEFAULT_MAX_BLOCK_SIZE else B) < 32768 then 32768
        else (if B = 0 then ZULTRA_DEFAULT_MAX_BLOCK_SIZE else B)) > 2097152 then 2097152
    else (if (if B = 0 then ZULTRA_DEFAULT_MAX_BLOCK_SIZE else B) < 32768 then 32768
        else (if B = 0 then ZULTRA_DEFAULT_MAX_BLOCK_SIZE else B)))
   = effective_block_size (B :: 32 word)"
  unfolding effective_block_size_def ZULTRA_DEFAULT_MAX_BLOCK_SIZE_def
  by (auto simp: not_less)

lemma ceil_div:
  assumes "0 < (b::int)"
  shows "\<lceil>real_of_int a / real_of_int b\<rceil> = (a + b - 1) div b"
proof (rule ceiling_unique)
  let ?z = "(a + b - 1) div b"
  have eq: "b * ?z + (a + b - 1) mod b = a + b - 1" by simp
  have m0: "0 \<le> (a + b - 1) mod b" and m1: "(a + b - 1) mod b < b"
    using assms by simp_all
  have lo: "a \<le> b * ?z" using eq m1 by linarith
  have hi: "b * ?z < a + b" using eq m0 by linarith
  have rb: "0 < real_of_int b" using assms by simp
  have "real_of_int a \<le> real_of_int (b * ?z)" using lo by linarith
  then have "real_of_int a \<le> real_of_int ?z * real_of_int b" by (simp add: mult.commute)
  then show "real_of_int a / real_of_int b \<le> real_of_int ?z"
    using rb by (simp add: pos_divide_le_eq)
  have "real_of_int (b * ?z) < real_of_int (a + b)" using hi by linarith
  then have "(real_of_int ?z - 1) * real_of_int b < real_of_int a"
    by (simp add: algebra_simps)
  then show "real_of_int ?z - 1 < real_of_int a / real_of_int b"
    using rb by (simp add: pos_less_divide_eq)
qed

lemma rounded_blocks_uint:
  fixes n :: "64 word" and b :: "32 word"
  assumes "32768 \<le> uint b" and "uint n + uint b - 1 < 2 ^ 64"
  shows "uint ((n + ucast (b - 1)) div ucast b) = (uint n + uint b - 1) div uint b"
proof -
  have b1: "uint (b - 1) = uint b - 1"
    using assms(1) by (simp add: uint_sub_if')
  have u1: "uint (ucast (b - 1) :: 64 word) = uint b - 1"
    using b1 by (simp add: uint_up_ucast is_up)
  have u2: "uint (ucast b :: 64 word) = uint b"
    by (simp add: uint_up_ucast is_up)
  have "uint (n + ucast (b - 1)) = uint n + (uint b - 1)"
    using assms(2) u1 by (simp add: uint_add_lem [THEN iffD1])
  moreover have "uint n + (uint b - 1) = uint n + uint b - 1" by simp
  ultimately show ?thesis
    by (simp only: uint_div u2)
qed

section \<open>Optimal parser: lemmas\<close>

lemma opt_k_loop_len_ok:
  "len_ok i e best \<Longrightarrow> k \<le> 65535 \<Longrightarrow> i + k \<le> e - 1 \<Longrightarrow>
   len_ok i e (opt_k_loop cached cost i os ofs k best)"
proof (induction cached cost i os ofs k best rule: opt_k_loop.induct)
  case (1 cached cost i os ofs k best)
  show ?case
  proof (cases "k \<ge> 3")
    case False
    then show ?thesis using "1.prems" by (simp add: opt_k_loop.simps)
  next
    case True
    let ?cur = "cached ! nat (k - 3) + (os + cost (i + k))"
    let ?b = "if fst best > ?cur then (?cur, k, ofs) else best"
    have "len_ok i e ?b" using "1.prems" True by (simp add: len_ok_def)
    moreover have "k - 1 \<le> 65535" "i + (k - 1) \<le> e - 1" using "1.prems" by simp_all
    ultimately have "len_ok i e (opt_k_loop cached cost i os ofs (k - 1) ?b)"
      using "1.IH" [OF True refl] by simp
    then show ?thesis using True by (subst opt_k_loop.simps) (simp add: Let_def)
  qed
qed

lemma opt_m_body_len_ok:
  assumes "len_ok i e best" and "i \<le> e - 2"
  shows "len_ok i e (opt_m_body c cached cost i e m best)"
proof -
  let ?pm = "match c (i * 8 + m)"
  let ?raw = "uint (match_length ?pm)"
  let ?cl = "if (i + ?raw) > (e - 1) then e - 1 - i else ?raw"
  have l0: "?raw \<le> 65535" "0 \<le> ?raw" using uint_lt2p [of "match_length ?pm"] by simp_all
  have l: "0 \<le> ?cl" "?cl \<le> 65535" "i + ?cl \<le> e - 1"
  proof -
    show "0 \<le> ?cl" using l0(2) assms(2) by (cases "i + ?raw > e - 1") simp_all
    show "?cl \<le> 65535" using l0 assms(2) by (cases "i + ?raw > e - 1") simp_all
    show "i + ?cl \<le> e - 1" by (cases "i + ?raw > e - 1") simp_all
  qed
  show ?thesis
  proof (cases "?raw \<ge> 40")
    case True
    then show ?thesis using l assms(1) by (simp add: opt_m_body_def len_ok_def Let_def)
  next
    case False
    then show ?thesis using opt_k_loop_len_ok [OF assms(1) l(2) l(3)]
      by (simp add: opt_m_body_def Let_def)
  qed
qed

lemma opt_m_loop_len_ok:
  "len_ok i e best \<Longrightarrow> i \<le> e - 2 \<Longrightarrow> len_ok i e (opt_m_loop c cached cost i e m best)"
proof (induction c cached cost i e m best rule: opt_m_loop.induct)
  case (1 c cached cost i e m best)
  show ?case
  proof (cases "m < 8 \<and> uint (match_length (match c (i * 8 + m))) \<ge> 3")
    case False
    then show ?thesis using "1.prems" by (subst opt_m_loop.simps) auto
  next
    case True
    have "len_ok i e (opt_m_body c cached cost i e m best)"
      using "1.prems" by (rule opt_m_body_len_ok)
    then have "len_ok i e (opt_m_loop c cached cost i e (m + 1) (opt_m_body c cached cost i e m best))"
      using "1.IH" [OF True] "1.prems"(2) by simp
    then show ?thesis using True by (subst opt_m_loop.simps) simp
  qed
qed

lemma opt_i_body_parse_ok:
  assumes "parse_ok (i + 1) e (snd st)" and "i \<le> e - 2"
  shows "parse_ok i e (snd (opt_i_body c w cached e i st))"
proof -
  let ?lit = "zultra_get_literal_size c (ucast (w i)) + fst st (i + 1)"
  let ?r = "opt_m_loop c cached (fst st) i e 0 (?lit, 0, 0)"
  have "len_ok i e (?lit, 0, 0)" using assms(2) by (simp add: len_ok_def)
  then have r: "len_ok i e ?r" using assms(2) by (rule opt_m_loop_len_ok)
  then have "uint (word_of_int (fst (snd ?r)) :: 16 word) = fst (snd ?r)"
    by (simp add: len_ok_def uint_word_of_int)
  with r have new: "i + uint (word_of_int (fst (snd ?r)) :: 16 word) \<le> e - 1"
    by (simp add: len_ok_def)
  show ?thesis
    unfolding parse_ok_def
  proof (intro allI impI)
    fix j assume j: "i \<le> j \<and> j < e"
    show "j + uint (match_length (snd (opt_i_body c w cached e i st) j)) \<le> e - 1"
    proof (cases "j = i")
      case True
      then show ?thesis using new by (simp add: opt_i_body_def Let_def)
    next
      case False
      then have "i + 1 \<le> j \<and> j < e" using j by simp
      then have "j + uint (match_length (snd st j)) \<le> e - 1"
        using assms(1) unfolding parse_ok_def by blast
      then show ?thesis using False by (simp add: opt_i_body_def Let_def)
    qed
  qed
qed

lemma opt_i_loop_parse_ok:
  "parse_ok (i + 1) e (snd st) \<Longrightarrow> i \<le> e - 2 \<Longrightarrow> s - 1 \<le> i \<Longrightarrow>
   parse_ok s e (snd (opt_i_loop c w cached s e i st))"
proof (induction c w cached s e i st rule: opt_i_loop.induct)
  case (1 c w cached s e i st)
  show ?case
  proof (cases "i > s - 1")
    case False
    with "1.prems" have "i + 1 = s" by simp
    with "1.prems"(1) False show ?thesis by (subst opt_i_loop.simps) simp
  next
    case True
    have "parse_ok i e (snd (opt_i_body c w cached e i st))"
      using "1.prems"(1,2) by (rule opt_i_body_parse_ok)
    then have "parse_ok s e (snd (opt_i_loop c w cached s e (i - 1) (opt_i_body c w cached e i st)))"
      using "1.IH" [OF True] "1.prems"(2) True by simp
    then show ?thesis using True by (subst opt_i_loop.simps) simp
  qed
qed

lemma optimize_parse_ok:
  assumes "s < e"
  shows "parse_ok s e (best_match (zultra_optimize_matches_lwd c w s e))"
proof -
  let ?cached = "map (\<lambda>i. zultra_get_varlen_size c (word_of_nat i)) [0..<40]"
  let ?cost0 = "(pos_data c) (e - 1 := zultra_get_literal_size c (ucast (w (e - 1))))"
  let ?best0 = "(best_match c) (e - 1 := \<lparr> match_length = 0, match_offset = 0 \<rparr>)"
  have "parse_ok (e - 2 + 1) e (snd (?cost0, ?best0))"
    by (auto simp add: parse_ok_def)
  then have "parse_ok s e (snd (opt_i_loop c w ?cached s e (e - 2) (?cost0, ?best0)))"
    using assms by (intro opt_i_loop_parse_ok) simp_all
  then show ?thesis
    using assms by (simp add: zultra_optimize_matches_lwd_def Let_def)
qed

lemma token_starts_last:
  "parse_ok lo e best \<Longrightarrow> lo \<le> i \<Longrightarrow> i < e \<Longrightarrow>
   token_starts best i e \<noteq> [] \<and> last (token_starts best i e) = e - 1"
proof (induction best i e rule: token_starts.induct)
  case (1 best i e)
  have bound: "i + uint (match_length (best i)) \<le> e - 1"
    using "1.prems" by (simp add: parse_ok_def)
  show ?case
  proof (cases "uint (match_length (best i)) \<ge> 3")
    case True
    let ?n = "i + uint (match_length (best i))"
    have "?n < e" "lo \<le> ?n" using bound "1.prems"(2) True by simp_all
    with "1.IH"(1) [OF "1.prems"(3) True "1.prems"(1)]
    have "token_starts best ?n e \<noteq> [] \<and> last (token_starts best ?n e) = e - 1" by simp
    then show ?thesis using True "1.prems"(3) by (subst (1 2) token_starts.simps) simp
  next
    case False
    show ?thesis
    proof (cases "i + 1 < e")
      case True
      with "1.IH"(2) [OF "1.prems"(3) False "1.prems"(1)] "1.prems"(2)
      have "token_starts best (i + 1) e \<noteq> [] \<and> last (token_starts best (i + 1) e) = e - 1" by simp
      then show ?thesis using False "1.prems"(3) by (subst (1 2) token_starts.simps) simp
    next
      case last: False
      then have "i = e - 1" using "1.prems"(3) by simp
      moreover have "token_starts best (i + 1) e = []"
        using last by (subst token_starts.simps) simp
      ultimately show ?thesis using False "1.prems"(3)
        by (subst (1 2) token_starts.simps) simp
    qed
  qed
qed

subsection \<open>The loops as a fold over the candidates\<close>

lemma take_if_cheaper_tuple:
  "take_if_cheaper best (x, y, z) = (if fst best > x then (x, y, z) else best)"
  by (simp add: take_if_cheaper_def)

lemma opt_k_loop_foldl:
  "opt_k_loop cached cost i os ofs k best =
   foldl take_if_cheaper best
     (map (\<lambda>k. (cached ! nat (k - 3) + (os + cost (i + k)), k, ofs)) (rev [3..k]))"
proof (induction cached cost i os ofs k best rule: opt_k_loop.induct)
  case (1 cached cost i os ofs k best)
  show ?case
  proof (cases "k \<ge> 3")
    case False
    then show ?thesis by (subst opt_k_loop.simps) simp
  next
    case True
    then have up: "[3..k] = [3..k - 1] @ [k]" by (rule upto_rec2)
    show ?thesis
      using True "1.IH" [OF True refl]
      by (subst opt_k_loop.simps) (simp add: up Let_def take_if_cheaper_tuple)
  qed
qed

lemma map_upt_nth: "n < N \<Longrightarrow> map f [0..<N] ! n = f n"
  by simp

lemma cached_varlen_nth:
  assumes "3 \<le> k" and "k < 43"
  shows "cached_varlen c ! nat (k - 3) = zultra_get_varlen_size c (word_of_int (k - 3))"
proof -
  have n: "nat (k - 3) < 40" using assms by simp
  have w: "(word_of_nat (nat (k - 3)) :: 32 word) = word_of_int (k - 3)"
    by (rule word_of_int_nat [symmetric]) (use assms(1) in simp)
  show ?thesis
    unfolding cached_varlen_def by (simp only: map_upt_nth [OF n] w)
qed

lemma opt_m_body_foldl:
  "opt_m_body c (cached_varlen c) cost i e m best =
   foldl take_if_cheaper best (slot_candidates c cost i e m)"
proof -
  let ?pm = "match c (i * 8 + m)"
  let ?raw = "uint (match_length ?pm)"
  let ?cl = "if (i + ?raw) > (e - 1) then e - 1 - i else ?raw"
  show ?thesis
  proof (cases "?raw \<ge> 40")
    case True
    then show ?thesis
      by (simp add: opt_m_body_def slot_candidates_def Let_def take_if_cheaper_tuple)
  next
    case False
    let ?os = "zultra_get_offset_size c (ucast (match_offset ?pm))"
    have cl: "?cl \<le> 39" using False by auto
    have mapeq: "map (\<lambda>k. (cached_varlen c ! nat (k - 3) + (?os + cost (i + k)), k, match_offset ?pm))
                   (rev [3..?cl])
        = map (\<lambda>k. (zultra_get_varlen_size c (word_of_int (k - 3)) + (?os + cost (i + k)), k,
                     match_offset ?pm))
            (rev [3..?cl])"
    proof (rule map_cong [OF refl])
      fix k assume "k \<in> set (rev [3..?cl])"
      then have "3 \<le> k" "k < 43" using cl by auto
      then show "(cached_varlen c ! nat (k - 3) + (?os + cost (i + k)), k, match_offset ?pm)
                 = (zultra_get_varlen_size c (word_of_int (k - 3)) + (?os + cost (i + k)), k,
                     match_offset ?pm)"
        by (simp only: cached_varlen_nth)
    qed
    have body: "opt_m_body c (cached_varlen c) cost i e m best
                = opt_k_loop (cached_varlen c) cost i ?os (match_offset ?pm) ?cl best"
      using False unfolding opt_m_body_def Let_def by (simp only: if_False)
    have slot: "slot_candidates c cost i e m
                = map (\<lambda>k. (zultra_get_varlen_size c (word_of_int (k - 3)) + (?os + cost (i + k)), k,
                     match_offset ?pm))
            (rev [3..?cl])"
      using False unfolding slot_candidates_def Let_def by (simp only: if_False)
    show ?thesis unfolding body slot opt_k_loop_foldl mapeq ..
  qed
qed

lemma opt_m_loop_foldl:
  "0 \<le> m \<Longrightarrow>
   opt_m_loop c (cached_varlen c) cost i e m best =
   foldl take_if_cheaper best
     (concat (map (slot_candidates c cost i e)
                (takeWhile (\<lambda>m. uint (match_length (match c (i * 8 + m))) \<ge> 3) [m..7])))"
proof (induction c "cached_varlen c" cost i e m best rule: opt_m_loop.induct)
  case (1 c cost i e m best)
  show ?case
  proof (cases "m < 8 \<and> uint (match_length (match c (i * 8 + m))) \<ge> 3")
    case False
    have "takeWhile (\<lambda>m. uint (match_length (match c (i * 8 + m))) \<ge> 3) [m..7] = []"
    proof (cases "m \<le> 7")
      case True
      then have "[m..7] = m # [m + 1..7]" by (rule upto_rec1)
      then show ?thesis using False True by simp
    next
      case False
      then show ?thesis by simp
    qed
    moreover have "opt_m_loop c (cached_varlen c) cost i e m best = best"
      using False by (subst opt_m_loop.simps) auto
    ultimately show ?thesis by simp
  next
    case True
    then have "m \<le> 7" by simp
    then have up: "[m..7] = m # [m + 1..7]" by (rule upto_rec1)
    show ?thesis
      using True "1.hyps" [OF True] "1.prems"
      by (subst opt_m_loop.simps) (simp add: up opt_m_body_foldl)
  qed
qed

lemma foldl_take_if_cheaper:
  "(let r = foldl take_if_cheaper b cs in
      fst r \<le> fst b \<and> (\<forall>x \<in> set cs. fst r \<le> fst x) \<and>
      ((r = b \<and> (\<forall>x \<in> set cs. fst b \<le> fst x)) \<or>
       (\<exists>j < length cs. r = cs ! j \<and> fst r < fst b \<and> (\<forall>j' < j. fst r < fst (cs ! j')))))"
proof (induction cs rule: rev_induct)
  case Nil
  then show ?case by simp
next
  case (snoc x cs)
  let ?r = "foldl take_if_cheaper b cs"
  from snoc have IH: "fst ?r \<le> fst b" "\<forall>x \<in> set cs. fst ?r \<le> fst x"
    "(?r = b \<and> (\<forall>x \<in> set cs. fst b \<le> fst x)) \<or>
       (\<exists>j < length cs. ?r = cs ! j \<and> fst ?r < fst b \<and> (\<forall>j' < j. fst ?r < fst (cs ! j')))"
    by (simp_all add: Let_def)
  show ?case
  proof (cases "fst ?r > fst x")
    case True
    then have r: "foldl take_if_cheaper b (cs @ [x]) = x" by (simp add: take_if_cheaper_def)
    have "\<forall>j' < length cs. fst x < fst (cs ! j')"
    proof (intro allI impI)
      fix j' assume "j' < length cs"
      then have "cs ! j' \<in> set cs" by simp
      then have "fst ?r \<le> fst (cs ! j')" using IH(2) by blast
      then show "fst x < fst (cs ! j')" using True by linarith
    qed
    then have "\<exists>j < length (cs @ [x]). x = (cs @ [x]) ! j \<and> fst x < fst b \<and>
                 (\<forall>j' < j. fst x < fst ((cs @ [x]) ! j'))"
      using True IH(1) by (intro exI [of _ "length cs"]) (auto simp add: nth_append)
    moreover have "fst x \<le> fst b" "\<forall>y \<in> set (cs @ [x]). fst x \<le> fst y"
      using True IH(1,2) by auto
    ultimately show ?thesis unfolding Let_def r by blast
  next
    case False
    then have r: "foldl take_if_cheaper b (cs @ [x]) = ?r" by (simp add: take_if_cheaper_def)
    have a: "\<forall>y \<in> set (cs @ [x]). fst ?r \<le> fst y" using False IH(2) by auto
    from IH(3) have "(?r = b \<and> (\<forall>y \<in> set (cs @ [x]). fst b \<le> fst y)) \<or>
       (\<exists>j < length (cs @ [x]). ?r = (cs @ [x]) ! j \<and> fst ?r < fst b \<and>
           (\<forall>j' < j. fst ?r < fst ((cs @ [x]) ! j')))"
    proof
      assume "?r = b \<and> (\<forall>x \<in> set cs. fst b \<le> fst x)"
      then show ?thesis using False by auto
    next
      assume "\<exists>j < length cs. ?r = cs ! j \<and> fst ?r < fst b \<and> (\<forall>j' < j. fst ?r < fst (cs ! j'))"
      then obtain j where j: "j < length cs" "?r = cs ! j" "fst ?r < fst b"
        "\<forall>j' < j. fst ?r < fst (cs ! j')" by blast
      then have "j < length (cs @ [x]) \<and> ?r = (cs @ [x]) ! j \<and> fst ?r < fst b \<and>
           (\<forall>j' < j. fst ?r < fst ((cs @ [x]) ! j'))"
        by (auto simp add: nth_append)
      then show ?thesis by blast
    qed
    with a IH(1) show ?thesis unfolding Let_def r by blast
  qed
qed

subsection \<open>What the parser leaves at each position\<close>

lemma opt_m_loop_chosen:
  "opt_m_loop c (cached_varlen c) cost i e 0 (literal_candidate c w cost i) = chosen_at c w cost i e"
  by (simp add: opt_m_loop_foldl chosen_at_def position_candidates_def)

lemma slot_candidates_cong:
  assumes "\<forall>j. i < j \<longrightarrow> cost1 j = cost2 j" and "i \<le> e - 2"
  shows "slot_candidates c cost1 i e m = slot_candidates c cost2 i e m"
proof -
  let ?raw = "uint (match_length (match c (i * 8 + m)))"
  let ?cl = "if (i + ?raw) > (e - 1) then e - 1 - i else ?raw"
  show ?thesis
  proof (cases "?raw \<ge> 40")
    case True
    then have "0 < ?cl" using assms(2) by auto
    then have "cost1 (i + ?cl) = cost2 (i + ?cl)" using assms(1) by simp
    then show ?thesis using True by (simp add: slot_candidates_def Let_def)
  next
    case False
    have "map (\<lambda>k. (zultra_get_varlen_size c (word_of_int (k - 3)) + (os + cost1 (i + k)), k, ofs))
            (rev [3..?cl])
        = map (\<lambda>k. (zultra_get_varlen_size c (word_of_int (k - 3)) + (os + cost2 (i + k)), k, ofs))
            (rev [3..?cl])" for os ofs
      by (rule map_cong [OF refl]) (use assms(1) in auto)
    then show ?thesis using False unfolding slot_candidates_def Let_def by (simp only: if_False)
  qed
qed

lemma chosen_at_cong:
  assumes "\<forall>j. i < j \<longrightarrow> cost1 j = cost2 j" and "i \<le> e - 2"
  shows "chosen_at c w cost1 i e = chosen_at c w cost2 i e"
proof -
  have "slot_candidates c cost1 i e = slot_candidates c cost2 i e"
    using slot_candidates_cong [OF assms] by (intro ext)
  moreover have "cost1 (i + 1) = cost2 (i + 1)" using assms(1) by simp
  ultimately show ?thesis
    by (simp add: chosen_at_def position_candidates_def literal_candidate_def)
qed

lemma chosen_at_len_ok:
  assumes "i \<le> e - 2"
  shows "len_ok i e (chosen_at c w cost i e)"
proof -
  have "len_ok i e (literal_candidate c w cost i)"
    using assms by (simp add: len_ok_def literal_candidate_def)
  then have "len_ok i e (opt_m_loop c (cached_varlen c) cost i e 0 (literal_candidate c w cost i))"
    using assms by (rule opt_m_loop_len_ok)
  then show ?thesis by (simp only: opt_m_loop_chosen)
qed

lemma opt_i_body_eq:
  "opt_i_body c w (cached_varlen c) e i st =
     ((fst st) (i := fst (chosen_at c w (fst st) i e)),
      (snd st) (i := \<lparr> match_length = word_of_int (fst (snd (chosen_at c w (fst st) i e))),
                       match_offset = snd (snd (chosen_at c w (fst st) i e)) \<rparr>))"
  unfolding opt_i_body_def Let_def
  using opt_m_loop_chosen [of c "fst st" i e w]
  by (simp add: literal_candidate_def)

lemma opt_i_body_parse_opt:
  assumes "parse_opt c w e (i + 1) st" and "i \<le> e - 2"
  shows "parse_opt c w e i (opt_i_body c w (cached_varlen c) e i st)"
  unfolding parse_opt_def
proof (intro allI impI)
  let ?st' = "opt_i_body c w (cached_varlen c) e i st"
  let ?r = "chosen_at c w (fst st) i e"
  fix p assume p: "i \<le> p \<and> p \<le> e - 2"
  have agree: "\<forall>j. p < j \<longrightarrow> fst ?st' j = fst st j"
    using p by (simp add: opt_i_body_eq)
  have same: "chosen_at c w (fst ?st') p e = chosen_at c w (fst st) p e"
    using agree p by (intro chosen_at_cong) simp_all
  show "(fst ?st' p, uint (match_length (snd ?st' p)), match_offset (snd ?st' p))
        = chosen_at c w (fst ?st') p e"
  proof (cases "p = i")
    case True
    have "len_ok i e ?r" using assms(2) by (rule chosen_at_len_ok)
    then have "uint (word_of_int (fst (snd ?r)) :: 16 word) = fst (snd ?r)"
      by (simp add: len_ok_def uint_word_of_int)
    then have "(fst ?st' i, uint (match_length (snd ?st' i)), match_offset (snd ?st' i)) = ?r"
      by (simp add: opt_i_body_eq)
    then show ?thesis using same True by simp
  next
    case False
    then have "i + 1 \<le> p \<and> p \<le> e - 2" using p by simp
    then have "(fst st p, uint (match_length (snd st p)), match_offset (snd st p))
               = chosen_at c w (fst st) p e"
      using assms(1) unfolding parse_opt_def by blast
    then show ?thesis using same False by (simp add: opt_i_body_eq)
  qed
qed

lemma opt_i_loop_parse_opt:
  "parse_opt c w e (i + 1) st \<Longrightarrow> i \<le> e - 2 \<Longrightarrow> s - 1 \<le> i \<Longrightarrow> cached = cached_varlen c \<Longrightarrow>
   parse_opt c w e s (opt_i_loop c w cached s e i st)"
proof (induction c w cached s e i st rule: opt_i_loop.induct)
  case (1 c w cached s e i st)
  show ?case
  proof (cases "i > s - 1")
    case False
    with "1.prems" have "i + 1 = s" by simp
    with "1.prems"(1) False show ?thesis by (subst opt_i_loop.simps) simp
  next
    case True
    have "parse_opt c w e i (opt_i_body c w cached e i st)"
      using "1.prems"(1,2,4) by (simp add: opt_i_body_parse_opt)
    then have "parse_opt c w e s (opt_i_loop c w cached s e (i - 1) (opt_i_body c w cached e i st))"
      using "1.IH" [OF True] "1.prems"(2,4) True by simp
    then show ?thesis using True by (subst opt_i_loop.simps) simp
  qed
qed

lemma optimize_fields:
  "match (zultra_optimize_matches_lwd c w s e) = match c \<and>
   literalsEncoder (zultra_optimize_matches_lwd c w s e) = literalsEncoder c \<and>
   offsetEncoder (zultra_optimize_matches_lwd c w s e) = offsetEncoder c"
  by (simp add: zultra_optimize_matches_lwd_def Let_def)

lemma optimize_parse_opt:
  assumes "s < e" and "s \<le> i" and "i \<le> e - 2"
  shows "parsed_at (zultra_optimize_matches_lwd c w s e) i
         = chosen_at c w (pos_data (zultra_optimize_matches_lwd c w s e)) i e"
proof -
  let ?cost0 = "(pos_data c) (e - 1 := zultra_get_literal_size c (ucast (w (e - 1))))"
  let ?best0 = "(best_match c) (e - 1 := \<lparr> match_length = 0, match_offset = 0 \<rparr>)"
  let ?st = "opt_i_loop c w (cached_varlen c) s e (e - 2) (?cost0, ?best0)"
  have "\<not> (e - 2 + 1 \<le> p \<and> p \<le> e - 2)" for p by simp
  then have "parse_opt c w e (e - 2 + 1) (?cost0, ?best0)"
    unfolding parse_opt_def by blast
  then have "parse_opt c w e s ?st"
    using assms(1) by (intro opt_i_loop_parse_opt) simp_all
  then have "(fst ?st i, uint (match_length (snd ?st i)), match_offset (snd ?st i))
             = chosen_at c w (fst ?st) i e"
    using assms(2,3) unfolding parse_opt_def by blast
  then show ?thesis
    using assms(1) by (simp add: zultra_optimize_matches_lwd_def Let_def parsed_at_def cached_varlen_def)
qed

section \<open>Stream compression: lemmas\<close>

lemma memcpy_store_nothing: "n \<le> 0 \<Longrightarrow> memcpy_store dst d src s n = dst"
  by (rule ext) (auto simp add: memcpy_store_def)

lemma replicate_6_bytes: "replicate 6 (0 :: 8 word) = [0, 0, 0, 0, 0, 0]"
  by (simp add: numeral_eq_Suc)

lemma fresh_gzip_stream_next_in: "next_in (fresh_gzip_stream cap) = []"
  by (simp add: fresh_gzip_stream_def)

lemma empty_round:
  "stream_compress_round spec_framing ZULTRA_FINALIZE (fresh_gzip_stream 20)
   = Some (ZULTRA_OK,
       (fresh_gzip_stream 20) \<lparr>
          out_bytes := [0x1f, 0x8b, 0x08, 0, 0, 0, 0, 0, 0, 0xff],
          avail_out := 10, total_out := 10,
          state := (state (fresh_gzip_stream 20)) \<lparr>
             compression_state := 2, cur_frame_index := 10, pending_frame_bytes := 0,
             frame_buffer := [0x1f, 0x8b, 0x08, 0, 0, 0, 0, 0, 0, 0xff, 0, 0, 0, 0, 0, 0] \<rparr> \<rparr>)"
  by (simp add: stream_compress_round_def emit_header_def emit_frame_bytes_def load_dictionary_def
      consume_input_def emit_out_bytes_def prepare_footer_def fresh_gzip_stream_def
      zultra_stream_init_def always_succeeds_def spec_framing_def
      spec_frame_get_header_size_def spec_frame_header_bytes_def
      ZULTRA_FLAG_GZIP_FRAMING_def ZULTRA_FLAG_ZLIB_FRAMING_def ZULTRA_DEFAULT_MAX_BLOCK_SIZE_def
      CSTATE_HEADER_EMITTED_def CSTATE_FINALIZED_COMPRESSION_def CSTATE_FOOTER_EMITTED_def
      ZULTRA_FINALIZE_def Let_def memcpy_store_nothing replicate_6_bytes)


lemma empty_stream_compress:
  "zultra_stream_compress spec_framing ZULTRA_FINALIZE (fresh_gzip_stream 20)
   = Some (ZULTRA_OK,
       (fresh_gzip_stream 20) \<lparr>
          out_bytes := [0x1f, 0x8b, 0x08, 0, 0, 0, 0, 0, 0, 0xff],
          avail_out := 10, total_out := 10,
          state := (state (fresh_gzip_stream 20)) \<lparr>
             compression_state := 2, cur_frame_index := 10, pending_frame_bytes := 0,
             frame_buffer := [0x1f, 0x8b, 0x08, 0, 0, 0, 0, 0, 0, 0xff, 0, 0, 0, 0, 0, 0] \<rparr> \<rparr>)"
  by (subst zultra_stream_compress.simps) (simp add: empty_round fresh_gzip_stream_next_in)

subsection \<open>Stored blocks\<close>







subsection \<open>The stored-block loop emits stored blocks\<close>




















subsection \<open>Two sub-ranges evaluated\<close>








section \<open>Huffman code construction: lemmas\<close>

lemma arr_get_Some: "0 \<le> i \<Longrightarrow> i < int (length xs) \<Longrightarrow> arr_get xs i = Some (xs ! nat i)"
  by (simp add: arr_get_def)

lemma arr_set_Some: "0 \<le> i \<Longrightarrow> i < int (length xs) \<Longrightarrow> arr_set xs i v = Some (xs[nat i := v])"
  by (simp add: arr_set_def)

lemma arr_get_SomeD: "arr_get xs i = Some v \<Longrightarrow> 0 \<le> i \<and> i < int (length xs) \<and> v = xs ! nat i"
  by (auto simp add: arr_get_def split: if_splits)

lemma arr_set_SomeD: "arr_set xs i v = Some ys \<Longrightarrow> 0 \<le> i \<and> i < int (length xs) \<and> ys = xs[nat i := v]"
  by (auto simp add: arr_set_def split: if_splits)

lemma arr_swap_Some:
  "0 \<le> i \<Longrightarrow> i < int (length xs) \<Longrightarrow> 0 \<le> j \<Longrightarrow> j < int (length xs) \<Longrightarrow>
   arr_swap xs i j = Some (xs[nat i := xs ! nat j, nat j := xs ! nat i])"
  by (simp add: arr_swap_def arr_get_Some arr_set_Some)

lemma seg_perm_refl: "seg_perm l r xs xs"
  by (auto simp add: seg_perm_def)

lemma seg_perm_trans:
  assumes "seg_perm l r xs ys" and "seg_perm l r ys zs"
  shows "seg_perm l r xs zs"
  using assms unfolding seg_perm_def
  apply (intro conjI)
     apply simp
    apply simp
   apply simp
  apply (metis)
  done

lemma seg_perm_mono:
  assumes "seg_perm l' r' xs ys" and "l \<le> l'" and "r' \<le> r" and "0 \<le> l" and "r < int (length xs)"
  shows "seg_perm l r xs ys"
proof -
  have "\<exists>j. l \<le> j \<and> j \<le> r \<and> ys ! nat i = xs ! nat j" if i: "l \<le> i" "i \<le> r" for i
  proof (cases "l' \<le> i \<and> i \<le> r'")
    case True
    then obtain j where "l' \<le> j" "j \<le> r'" "ys ! nat i = xs ! nat j"
      using assms(1) unfolding seg_perm_def by blast
    then show ?thesis using assms(2,3) by (intro exI [of _ j]) simp
  next
    case False
    then have "ys ! nat i = xs ! nat i"
      using assms(1,4,5) i unfolding seg_perm_def by auto
    then show ?thesis using i by blast
  qed
  then show ?thesis using assms unfolding seg_perm_def by auto
qed

lemma seg_perm_swap:
  assumes "l \<le> i" "i \<le> r" "l \<le> j" "j \<le> r" "0 \<le> l" "r < int (length xs)"
  shows "seg_perm l r xs (xs[nat i := xs ! nat j, nat j := xs ! nat i])"
proof -
  let ?ys = "xs[nat i := xs ! nat j, nat j := xs ! nat i]"
  have li: "nat i < length xs" and lj: "nat j < length xs" using assms by auto
  have m: "mset ?ys = mset xs" using li lj by (simp add: mset_swap)
  have out: "?ys ! nat k = xs ! nat k" if "0 \<le> k" "k < l \<or> r < k" for k
    using that assms by (auto simp add: nth_list_update)
  have inn: "\<exists>k'. l \<le> k' \<and> k' \<le> r \<and> ?ys ! nat k = xs ! nat k'" if k: "l \<le> k" "k \<le> r" for k
  proof -
    have kl: "nat k < length xs" using k assms by auto
    consider "k = j" | "k \<noteq> j" "k = i" | "k \<noteq> j" "k \<noteq> i" by blast
    then show ?thesis
    proof cases
      case 1
      then have "?ys ! nat k = xs ! nat i" using lj by simp
      then show ?thesis using assms by blast
    next
      case 2
      then have "nat k \<noteq> nat j" using k assms by auto
      then have "?ys ! nat k = xs ! nat j" using 2 li by simp
      then show ?thesis using assms by blast
    next
      case 3
      then have "nat k \<noteq> nat j" "nat k \<noteq> nat i" using k assms by auto
      then have "?ys ! nat k = xs ! nat k" by simp
      then show ?thesis using k by blast
    qed
  qed
  show ?thesis unfolding seg_perm_def using m out inn by simp
qed

lemma seg_perm_valid:
  assumes "seg_perm l r xs ys" and "\<forall>x \<in> set xs. 0 \<le> x \<and> x < n"
  shows "\<forall>x \<in> set ys. 0 \<le> x \<and> x < n"
proof -
  have "set ys = set xs" using assms(1) unfolding seg_perm_def by (metis set_mset_mset)
  then show ?thesis using assms(2) by simp
qed

lemma qsort_step_inv:
  assumes inv: "scan_inv val left right p idx0 i (idx, l)" and i: "i \<le> right"
    and rng: "0 \<le> left" "right < int (length idx0)"
    and valid: "\<forall>x \<in> set idx0. 0 \<le> x \<and> x < int (length val)"
  shows "\<exists>st'. qsort_step val left i (idx, l) = Some st' \<and> scan_inv val left right p idx0 (i + 1) st'"
proof -
  have sp: "seg_perm left right idx0 idx" and len: "length idx = length idx0"
    and l: "left \<le> l" "l < i" and p: "idx ! nat left = p"
    and lo: "\<forall>j. left < j \<and> j \<le> l \<longrightarrow> key_lt val (idx ! nat j) p"
    and hi: "\<forall>j. l < j \<and> j < i \<longrightarrow> \<not> key_lt val (idx ! nat j) p"
    using inv by (simp_all add: scan_inv_def seg_perm_def)
  have v: "\<forall>x \<in> set idx. 0 \<le> x \<and> x < int (length val)" by (rule seg_perm_valid [OF sp valid])
  have ib: "0 \<le> i" "i < int (length idx)" "0 \<le> left" "left < int (length idx)"
    "0 \<le> l + 1" "l + 1 < int (length idx)"
    using l i rng len by simp_all
  have vi: "0 \<le> idx ! nat i \<and> idx ! nat i < int (length val)"
    and vl: "0 \<le> idx ! nat left \<and> idx ! nat left < int (length val)"
    using v ib by (simp_all add: nth_mem)
  show ?thesis
  proof (cases "key_lt val (idx ! nat i) p")
    case True
    let ?idx' = "idx[nat i := idx ! nat (l + 1), nat (l + 1) := idx ! nat i]"
    have step: "qsort_step val left i (idx, l) = Some (?idx', l + 1)"
      using True ib vi vl p
      by (simp add: qsort_step_def arr_get_Some arr_set_Some key_lt_def)
    have sw: "seg_perm left right idx ?idx'"
      by (rule seg_perm_swap) (use l i rng len in simp_all)
    have sp': "seg_perm left right idx0 ?idx'" by (rule seg_perm_trans [OF sp sw])
    have pl: "?idx' ! nat left = p"
      using p l ib by (simp add: nth_list_update)
    have lo': "key_lt val (?idx' ! nat j) p" if j: "left < j" "j \<le> l + 1" for j
    proof (cases "j = l + 1")
      case True
      then have "?idx' ! nat j = idx ! nat i" using ib by simp
      then show ?thesis using \<open>key_lt val (idx ! nat i) p\<close> by simp
    next
      case False
      then have "nat j \<noteq> nat (l + 1)" "nat j \<noteq> nat i" using j l rng by auto
      then have "?idx' ! nat j = idx ! nat j" by simp
      then show ?thesis using lo j False by simp
    qed
    have hi': "\<not> key_lt val (?idx' ! nat j) p" if j: "l + 1 < j" "j < i + 1" for j
    proof (cases "j = i")
      case True
      then have "nat j \<noteq> nat (l + 1)" using j l rng by auto
      then have "?idx' ! nat j = idx ! nat (l + 1)" using True ib by simp
      moreover have "l < l + 1 \<and> l + 1 < i" using j True by simp
      ultimately show ?thesis using hi by simp
    next
      case False
      then have "nat j \<noteq> nat (l + 1)" "nat j \<noteq> nat i" using j l rng by auto
      then have "?idx' ! nat j = idx ! nat j" by simp
      then show ?thesis using hi j False by simp
    qed
    have "scan_inv val left right p idx0 (i + 1) (?idx', l + 1)"
      unfolding scan_inv_def using l i sp' pl lo' hi' by simp
    then show ?thesis using step by blast
  next
    case False
    have step: "qsort_step val left i (idx, l) = Some (idx, l)"
      using False ib vi vl p
      by (simp add: qsort_step_def arr_get_Some arr_set_Some key_lt_def)
    have hi': "\<not> key_lt val (idx ! nat j) p" if j: "l < j" "j < i + 1" for j
      using hi False j by (cases "j = i") simp_all
    have "scan_inv val left right p idx0 (i + 1) (idx, l)"
      unfolding scan_inv_def using l i sp p lo hi' by simp
    then show ?thesis using step by blast
  qed
qed

lemma qsort_scan_inv:
  assumes "scan_inv val left right p idx0 i st"
    and "0 \<le> left" "right < int (length idx0)"
    and "\<forall>x \<in> set idx0. 0 \<le> x \<and> x < int (length val)"
  shows "\<exists>st'. qsort_scan val left right i st = Some st' \<and>
               scan_inv val left right p idx0 (right + 1) st'"
  using assms
proof (induction val left right i st rule: qsort_scan.induct)
  case (1 val left right i st)
  show ?case
  proof (cases "i \<le> right")
    case True
    from qsort_step_inv [of val left right p idx0 i "fst st" "snd st"] "1.prems" True
    obtain st1 where s1: "qsort_step val left i st = Some st1"
      and i1: "scan_inv val left right p idx0 (i + 1) st1" by auto
    from "1.IH" [OF True s1 i1 "1.prems"(2,3,4)]
    obtain st' where "qsort_scan val left right (i + 1) st1 = Some st'"
      "scan_inv val left right p idx0 (right + 1) st'" by blast
    then show ?thesis using True s1 by (subst qsort_scan.simps) simp
  next
    case False
    then have "i = right + 1" using "1.prems"(1) by (simp add: scan_inv_def)
    then show ?thesis using "1.prems"(1) False by (subst qsort_scan.simps) simp
  qed
qed

lemma qsort_partition_spec:
  assumes lr: "left < right" and rng: "0 \<le> left" "right < int (length idx)"
    and valid: "\<forall>x \<in> set idx. 0 \<le> x \<and> x < int (length val)"
  shows "\<exists>idx' l. qsort_partition val idx left right = Some (idx', l) \<and>
           left \<le> l \<and> l \<le> right \<and> seg_perm left right idx idx' \<and>
           (\<forall>j. left \<le> j \<and> j < l \<longrightarrow> key_lt val (idx' ! nat j) (idx' ! nat l)) \<and>
           (\<forall>j. l < j \<and> j \<le> right \<longrightarrow> \<not> key_lt val (idx' ! nat j) (idx' ! nat l))"
proof -
  let ?mid = "(left + right) div 2"
  let ?idx1 = "idx[nat left := idx ! nat ?mid, nat ?mid := idx ! nat left]"
  have mid: "left \<le> ?mid" "?mid \<le> right" using lr by simp_all
  have sw1: "arr_swap idx left ?mid = Some ?idx1"
    by (rule arr_swap_Some) (use mid lr rng in simp_all)
  have sp1: "seg_perm left right idx ?idx1"
    by (rule seg_perm_swap) (use mid lr rng in simp_all)
  let ?p = "?idx1 ! nat left"
  have inv0: "scan_inv val left right ?p idx (left + 1) (?idx1, left)"
    unfolding scan_inv_def using sp1 lr by auto
  from qsort_scan_inv [OF inv0 rng valid]
  obtain idx2 l where scan: "qsort_scan val left right (left + 1) (?idx1, left) = Some (idx2, l)"
    and inv: "scan_inv val left right ?p idx (right + 1) (idx2, l)" by auto
  have sp2: "seg_perm left right idx idx2" and len2: "length idx2 = length idx"
    and l: "left \<le> l" "l \<le> right" and p2: "idx2 ! nat left = ?p"
    and lo: "\<forall>j. left < j \<and> j \<le> l \<longrightarrow> key_lt val (idx2 ! nat j) ?p"
    and hi: "\<forall>j. l < j \<and> j < right + 1 \<longrightarrow> \<not> key_lt val (idx2 ! nat j) ?p"
    using inv by (simp_all add: scan_inv_def seg_perm_def)
  let ?idx3 = "idx2[nat left := idx2 ! nat l, nat l := idx2 ! nat left]"
  have sw3: "arr_swap idx2 left l = Some ?idx3"
    by (rule arr_swap_Some) (use l lr rng len2 in simp_all)
  have sp3: "seg_perm left right idx ?idx3"
    by (rule seg_perm_trans [OF sp2], rule seg_perm_swap) (use l lr rng len2 in simp_all)
  have part: "qsort_partition val idx left right = Some (?idx3, l)"
    by (simp add: qsort_partition_def sw1 scan sw3)
  have ll: "nat l < length idx2" "nat left < length idx2" using l lr rng len2 by simp_all
  have pl: "?idx3 ! nat l = ?p" using ll p2 by simp
  have lo3: "key_lt val (?idx3 ! nat j) (?idx3 ! nat l)" if j: "left \<le> j" "j < l" for j
  proof (cases "j = left")
    case True
    then have "nat left \<noteq> nat l" using j rng by auto
    then have "?idx3 ! nat j = idx2 ! nat l" using True ll by simp
    moreover have "left < l \<and> l \<le> l" using j True by simp
    ultimately show ?thesis using lo pl by simp
  next
    case False
    then have "nat j \<noteq> nat left" "nat j \<noteq> nat l" using j rng by auto
    then have "?idx3 ! nat j = idx2 ! nat j" by simp
    then show ?thesis using lo pl j False by simp
  qed
  have hi3: "\<not> key_lt val (?idx3 ! nat j) (?idx3 ! nat l)" if j: "l < j" "j \<le> right" for j
  proof -
    have "nat j \<noteq> nat left" "nat j \<noteq> nat l" using j l rng by auto
    then have "?idx3 ! nat j = idx2 ! nat j" by simp
    then show ?thesis using hi pl j by simp
  qed
  show ?thesis using part l sp3 lo3 hi3 by blast
qed

lemma key_lt_le: "key_lt val x p \<Longrightarrow> val ! nat x \<le> val ! nat p"
  by (auto simp add: key_lt_def)

lemma not_key_lt_ge: "\<not> key_lt val x p \<Longrightarrow> val ! nat p \<le> val ! nat x"
  by (auto simp add: key_lt_def)

text \<open>
  The sort succeeds on a valid index range, rearranges the indices inside the range and
  leaves them in ascending order of their values.
\<close>

lemma qsort_spec:
  assumes "left < right \<longrightarrow> 0 \<le> left \<and> right < int (length idx)"
    and "\<forall>x \<in> set idx. 0 \<le> x \<and> x < int (length val)"
  shows "\<exists>idx'. zultra_huffman_encoder_qsort val idx left right = Some idx' \<and>
           (left < right \<longrightarrow> seg_perm left right idx idx') \<and> (\<not> left < right \<longrightarrow> idx' = idx) \<and>
           (\<forall>i j. left \<le> i \<and> i \<le> j \<and> j \<le> right \<longrightarrow>
                  val ! nat (idx' ! nat i) \<le> val ! nat (idx' ! nat j))"
  using assms
proof (induction val idx left right rule: zultra_huffman_encoder_qsort.induct)
  case (1 val idx left right)
  show ?case
  proof (cases "left < right")
    case False
    have "zultra_huffman_encoder_qsort val idx left right = Some idx"
      using False by (subst zultra_huffman_encoder_qsort.simps) simp
    moreover have "val ! nat (idx ! nat i) \<le> val ! nat (idx ! nat j)"
      if "left \<le> i \<and> i \<le> j \<and> j \<le> right" for i j
    proof -
      have "i = j" using that False by simp
      then show ?thesis by simp
    qed
    ultimately show ?thesis using False by simp
  next
    case True
    then have rng: "0 \<le> left" "right < int (length idx)" using "1.prems"(1) by simp_all
    from qsort_partition_spec [OF True rng "1.prems"(2)]
    obtain idx1 l where part: "qsort_partition val idx left right = Some (idx1, l)"
      and l: "left \<le> l" "l \<le> right" and sp1: "seg_perm left right idx idx1"
      and lo1: "\<forall>j. left \<le> j \<and> j < l \<longrightarrow> key_lt val (idx1 ! nat j) (idx1 ! nat l)"
      and hi1: "\<forall>j. l < j \<and> j \<le> right \<longrightarrow> \<not> key_lt val (idx1 ! nat j) (idx1 ! nat l)"
      by blast
    have len1: "length idx1 = length idx" using sp1 by (simp add: seg_perm_def)
    have v1: "\<forall>x \<in> set idx1. 0 \<le> x \<and> x < int (length val)"
      by (rule seg_perm_valid [OF sp1 "1.prems"(2)])
    have nr: "\<not> right \<le> left" using True by simp
    have pre1: "left < l - 1 \<longrightarrow> 0 \<le> left \<and> l - 1 < int (length idx1)"
      using rng l len1 by simp
    from "1.IH"(1) [OF nr part refl pre1 v1]
    obtain idx2 where q1: "zultra_huffman_encoder_qsort val idx1 left (l - 1) = Some idx2"
      and sp2: "left < l - 1 \<longrightarrow> seg_perm left (l - 1) idx1 idx2"
      and id2: "\<not> left < l - 1 \<longrightarrow> idx2 = idx1"
      and so2: "\<forall>i j. left \<le> i \<and> i \<le> j \<and> j \<le> l - 1 \<longrightarrow>
                  val ! nat (idx2 ! nat i) \<le> val ! nat (idx2 ! nat j)" by blast
    have sp2': "seg_perm left (l - 1) idx1 idx2"
      using sp2 id2 seg_perm_refl by (cases "left < l - 1") auto
    have len2: "length idx2 = length idx" using sp2' len1 by (simp add: seg_perm_def)
    have v2: "\<forall>x \<in> set idx2. 0 \<le> x \<and> x < int (length val)"
      by (rule seg_perm_valid [OF sp2' v1])
    have pre2: "l + 1 < right \<longrightarrow> 0 \<le> l + 1 \<and> right < int (length idx2)"
      using rng l len2 by simp
    from "1.IH"(2) [OF nr part refl q1 pre2 v2]
    obtain idx3 where q2: "zultra_huffman_encoder_qsort val idx2 (l + 1) right = Some idx3"
      and sp3: "l + 1 < right \<longrightarrow> seg_perm (l + 1) right idx2 idx3"
      and id3: "\<not> l + 1 < right \<longrightarrow> idx3 = idx2"
      and so3: "\<forall>i j. l + 1 \<le> i \<and> i \<le> j \<and> j \<le> right \<longrightarrow>
                  val ! nat (idx3 ! nat i) \<le> val ! nat (idx3 ! nat j)" by blast
    have sp3': "seg_perm (l + 1) right idx2 idx3"
      using sp3 id3 seg_perm_refl by (cases "l + 1 < right") auto
    have res: "zultra_huffman_encoder_qsort val idx left right = Some idx3"
      using True part q1 q2 by (subst zultra_huffman_encoder_qsort.simps) simp
    have w2: "seg_perm left right idx1 idx2"
      by (rule seg_perm_mono [OF sp2']) (use l rng len1 in simp_all)
    have w3: "seg_perm left right idx2 idx3"
      by (rule seg_perm_mono [OF sp3']) (use l rng len2 in simp_all)
    have sp: "seg_perm left right idx idx3"
      by (rule seg_perm_trans [OF seg_perm_trans [OF sp1 w2] w3])
    \<comment> \<open>the three regions of the result\<close>
    have out2: "idx2 ! nat i = idx1 ! nat i" if "l \<le> i" "i \<le> right" for i
      using sp2' that rng l len1 unfolding seg_perm_def by auto
    have out3: "idx3 ! nat i = idx2 ! nat i" if "left \<le> i" "i \<le> l" for i
      using sp3' that rng l len2 unfolding seg_perm_def by auto
    have piv: "idx3 ! nat l = idx1 ! nat l" using out2 [of l] out3 [of l] l by simp
    have low: "val ! nat (idx3 ! nat i) \<le> val ! nat (idx1 ! nat l)" if i: "left \<le> i" "i < l" for i
    proof -
      obtain j where j: "left \<le> j" "j \<le> l - 1" "idx2 ! nat i = idx1 ! nat j"
        using sp2' i unfolding seg_perm_def by (metis zle_diff1_eq)
      have "key_lt val (idx1 ! nat j) (idx1 ! nat l)" using lo1 j by simp
      then show ?thesis using key_lt_le j(3) out3 [of i] i by simp
    qed
    have high: "val ! nat (idx1 ! nat l) \<le> val ! nat (idx3 ! nat i)" if i: "l < i" "i \<le> right" for i
    proof -
      obtain j where j: "l + 1 \<le> j" "j \<le> right" "idx3 ! nat i = idx2 ! nat j"
        using sp3' i unfolding seg_perm_def by (metis zless_imp_add1_zle)
      have "\<not> key_lt val (idx1 ! nat j) (idx1 ! nat l)" using hi1 j by simp
      moreover have "idx2 ! nat j = idx1 ! nat j" using out2 [of j] j by simp
      ultimately show ?thesis using not_key_lt_ge j(3) by simp
    qed
    have sorted: "val ! nat (idx3 ! nat i) \<le> val ! nat (idx3 ! nat j)"
      if ij: "left \<le> i \<and> i \<le> j \<and> j \<le> right" for i j
    proof -
      consider "j < l" | "l < i" | "i \<le> l" "l \<le> j" using ij by linarith
      then show ?thesis
      proof cases
        case 1
        then have "val ! nat (idx2 ! nat i) \<le> val ! nat (idx2 ! nat j)" using so2 ij by simp
        then show ?thesis using out3 [of i] out3 [of j] ij 1 by simp
      next
        case 2
        then show ?thesis using so3 ij by simp
      next
        case 3
        have a: "val ! nat (idx3 ! nat i) \<le> val ! nat (idx1 ! nat l)"
          using low [of i] piv ij 3 by (cases "i = l") simp_all
        have b: "val ! nat (idx1 ! nat l) \<le> val ! nat (idx3 ! nat j)"
          using high [of j] piv ij 3 by (cases "j = l") simp_all
        from a b show ?thesis by simp
      qed
    qed
    show ?thesis using res sp sorted True by blast
  qed
qed

subsection \<open>Phase 1 builds a tree\<close>

lemma mk_select_spec:
  assumes "int (length A) = n" "0 \<le> r" "r \<le> t" "0 \<le> s" "s \<le> n" "t \<le> n - 1"
    and "1 \<le> (n - s) + (t - r)"
  shows "\<exists>v. (r < t \<and> mk_select n t (A, s, r) = Some (v, A[nat r := t + 1], s, r + 1)) \<or>
             (s < n \<and> mk_select n t (A, s, r) = Some (v, A, s + 1, r))"
proof (cases "s \<ge> n")
  case True
  then have "r < t" using assms by simp
  then show ?thesis using True assms
    by (simp add: mk_select_def arr_get_Some arr_set_Some)
next
  case False
  show ?thesis
  proof (cases "r < t")
    case True
    then show ?thesis using False assms
      by (simp add: mk_select_def arr_get_Some arr_set_Some)
  next
    case r: False
    then show ?thesis using False assms
      by (simp add: mk_select_def arr_get_Some arr_set_Some)
  qed
qed

lemma mk_select_effect:
  assumes "int (length A) = n" "0 \<le> r" "r \<le> t" "0 \<le> s" "s \<le> n" "t \<le> n - 1"
    and "1 \<le> (n - s) + (t - r)"
  shows "\<exists>v A' s' r'. mk_select n t (A, s, r) = Some (v, A', s', r') \<and>
           length A' = length A \<and> r \<le> r' \<and> r' \<le> r + 1 \<and> r' \<le> t \<and> s' + r' = s + r + 1 \<and>
           s \<le> s' \<and> s' \<le> n \<and>
           (\<forall>i. 0 \<le> i \<longrightarrow> A' ! nat i = (if r \<le> i \<and> i < r' then t + 1 else A ! nat i))"
proof -
  from mk_select_spec [OF assms] obtain v where
    v: "(r < t \<and> mk_select n t (A, s, r) = Some (v, A[nat r := t + 1], s, r + 1)) \<or>
        (s < n \<and> mk_select n t (A, s, r) = Some (v, A, s + 1, r))" by blast
  then show ?thesis
  proof
    assume a: "r < t \<and> mk_select n t (A, s, r) = Some (v, A[nat r := t + 1], s, r + 1)"
    have "A[nat r := t + 1] ! nat i = (if r \<le> i \<and> i < r + 1 then t + 1 else A ! nat i)"
      if "0 \<le> i" for i
    proof (cases "i = r")
      case True
      have "r < int (length A)" using a assms by linarith
      then have "nat r < length A" using assms(2) by simp
      then show ?thesis using True a by simp
    next
      case False
      then have "nat i \<noteq> nat r" using that assms(2) by simp
      then show ?thesis using False by simp
    qed
    then show ?thesis using a assms by simp
  next
    assume "s < n \<and> mk_select n t (A, s, r) = Some (v, A, s + 1, r)"
    then show ?thesis using assms by simp
  qed
qed

lemma phase1_step_inv:
  assumes inv: "p1_inv n R t (A, s, r)" and t: "t < n - 1"
  shows "\<exists>A' s' r'. phase1_step n t (A, s, r) = Some (A', s', r') \<and>
           p1_inv n (R (t + 1 := r')) (t + 1) (A', s', r')"
proof -
  have len: "int (length A) = n" and t0: "0 \<le> t" and sum: "r + s = 2 * t" and r: "0 \<le> r" "r \<le> t"
    and s: "s \<le> n" and Rt: "R t = r" and P: "ptrs_upto R t A"
    using inv by (simp_all add: p1_inv_def)
  have s0: "0 \<le> s" using sum r by simp
  have av: "1 \<le> (n - s) + (t - r)" using sum t by simp
  from mk_select_effect [OF len r s0 s _ av] t
  obtain v1 A1 s1 r1 where m1: "mk_select n t (A, s, r) = Some (v1, A1, s1, r1)"
    and l1: "length A1 = length A" and r1: "r \<le> r1" "r1 \<le> r + 1" "r1 \<le> t"
    and sum1: "s1 + r1 = s + r + 1" and s1: "s \<le> s1" "s1 \<le> n"
    and A1: "\<forall>i. 0 \<le> i \<longrightarrow> A1 ! nat i = (if r \<le> i \<and> i < r1 then t + 1 else A ! nat i)"
    by auto
  have len1: "int (length A1) = n" using l1 len by simp
  have av1: "1 \<le> (n - s1) + (t - r1)" using sum sum1 t by simp
  have r10: "0 \<le> r1" and s10: "0 \<le> s1" using r r1 s0 s1 by simp_all
  from mk_select_effect [OF len1 r10 r1(3) s10 s1(2) _ av1] t
  obtain v2 A2 s2 r2 where m2: "mk_select n t (A1, s1, r1) = Some (v2, A2, s2, r2)"
    and l2: "length A2 = length A1" and r2: "r1 \<le> r2" "r2 \<le> r1 + 1" "r2 \<le> t"
    and sum2: "s2 + r2 = s1 + r1 + 1" and s2: "s1 \<le> s2" "s2 \<le> n"
    and A2: "\<forall>i. 0 \<le> i \<longrightarrow> A2 ! nat i = (if r1 \<le> i \<and> i < r2 then t + 1 else A1 ! nat i)"
    by auto
  let ?A3 = "A2[nat t := v1 + v2]"
  have len2: "int (length A2) = n" using l2 len1 by simp
  have step: "phase1_step n t (A, s, r) = Some (?A3, s2, r2)"
    using m1 m2 len2 t0 t by (simp add: phase1_step_def arr_set_Some)
  have A3: "?A3 ! nat i = (if r \<le> i \<and> i < r2 then t + 1 else A ! nat i)" if i: "0 \<le> i" "i < t" for i
  proof -
    have "nat i \<noteq> nat t" using i by simp
    then have "?A3 ! nat i = A2 ! nat i" by simp
    then show ?thesis using A1 A2 i r1 r2 by auto
  qed
  let ?R = "R (t + 1 := r2)"
  have R0: "?R 0 = 0" using P t0 by (simp add: ptrs_upto_def)
  have Rp: "0 \<le> ?R p \<and> ?R p \<le> ?R (p + 1) \<and> ?R (p + 1) \<le> ?R p + 2 \<and> ?R (p + 1) \<le> p \<and>
          ?R (p + 1) \<le> ?R (t + 1) \<and>
          (\<forall>i. ?R p \<le> i \<and> i < ?R (p + 1) \<longrightarrow> ?A3 ! nat i = p + 1)"
    if p: "0 \<le> p \<and> p < t + 1" for p
  proof (cases "p = t")
    case True
    have "?A3 ! nat i = t + 1" if "r \<le> i \<and> i < r2" for i
      using A3 [of i] that r r2 by simp
    then show ?thesis using True Rt r r1 r2 by simp
  next
    case False
    then have pt: "p < t" using p by simp
    then have Pp: "0 \<le> R p" "R p \<le> R (p + 1)" "R (p + 1) \<le> R p + 2" "R (p + 1) \<le> p"
      "R (p + 1) \<le> R t" "\<forall>i. R p \<le> i \<and> i < R (p + 1) \<longrightarrow> A ! nat i = p + 1"
      using P p unfolding ptrs_upto_def by blast+
    have "?A3 ! nat i = p + 1" if i: "R p \<le> i \<and> i < R (p + 1)" for i
    proof -
      have "0 \<le> i" "i < t" "i < r" using i Pp pt Rt by simp_all
      then have "?A3 ! nat i = A ! nat i" using A3 [of i] by simp
      then show ?thesis using Pp(6) i by simp
    qed
    then show ?thesis using Pp pt Rt r1 r2 by simp
  qed
  have "ptrs_upto ?R (t + 1) ?A3"
    unfolding ptrs_upto_def using R0 Rp by blast
  then have "p1_inv n ?R (t + 1) (?A3, s2, r2)"
    unfolding p1_inv_def using len2 t0 t sum sum1 sum2 r r1 r2 s2 by simp
  then show ?thesis using step by blast
qed

lemma phase1_inv:
  assumes "p1_inv n R t st" and "2 \<le> n"
  shows "\<exists>A' R'. phase1 n t st = Some A' \<and> tree_ptrs n R' A'"
  using assms
proof (induction n t st arbitrary: R rule: phase1.induct)
  case (1 n t st)
  obtain A s r where st: "st = (A, s, r)" by (cases st) auto
  show ?case
  proof (cases "t < n - 1")
    case True
    from phase1_step_inv [of n R t A s r] "1.prems"(1) st True
    obtain A' s' r' where step: "phase1_step n t st = Some (A', s', r')"
      and inv': "p1_inv n (R (t + 1 := r')) (t + 1) (A', s', r')" by auto
    from "1.IH" [OF True step inv' "1.prems"(2)]
    obtain A'' R' where "phase1 n (t + 1) (A', s', r') = Some A''" "tree_ptrs n R' A''" by blast
    then show ?thesis using True step by (subst phase1.simps) auto
  next
    case False
    then have t: "t = n - 1" using "1.prems"(1) st by (simp add: p1_inv_def)
    have res: "phase1 n t st = Some A" using False st by (subst phase1.simps) simp
    have len: "int (length A) = n" and sum: "r + s = 2 * t" and s: "s \<le> n" and Rt: "R t = r"
      and P: "ptrs_upto R t A"
      using "1.prems"(1) st by (simp_all add: p1_inv_def)
    have "\<forall>p. 0 \<le> p \<and> p < t \<longrightarrow> R (p + 1) \<le> p" using P unfolding ptrs_upto_def by blast
    from this [rule_format, of "n - 2"] have "R (n - 2 + 1) \<le> n - 2" using t "1.prems"(2) by simp
    then have "r \<le> n - 2" using Rt t by simp
    then have "r = n - 2" using sum s t by simp
    then have "tree_ptrs n R A" using len Rt P t by (simp add: tree_ptrs_def)
    then show ?thesis using res by blast
  qed
qed

lemma phase1_spec:
  assumes "int (length A) = n" and "2 \<le> n"
  shows "\<exists>A' R. phase1 n 0 (A, 0, 0) = Some A' \<and> tree_ptrs n R A'"
proof -
  have "p1_inv n (\<lambda>_. 0) 0 (A, 0, 0)"
    using assms by (simp add: p1_inv_def ptrs_upto_def)
  from phase1_inv [OF this assms(2)] show ?thesis .
qed

subsection \<open>Phase 2 turns parent pointers into depths\<close>

lemma tree_ptrs_shape: "tree_ptrs n R A \<Longrightarrow> tree_shape n R"
  unfolding tree_ptrs_def ptrs_upto_def tree_shape_def by auto

lemma tree_shape_parent:
  assumes "tree_shape n R"
  shows "0 \<le> m \<Longrightarrow> m \<le> n - 1 \<Longrightarrow> 0 \<le> i \<Longrightarrow> i < R m \<Longrightarrow>
         \<exists>p. 0 \<le> p \<and> p < m \<and> R p \<le> i \<and> i < R (p + 1)"
proof (induction m rule: int_ge_induct)
  case base
  then show ?case using assms by (simp add: tree_shape_def)
next
  case (step m)
  show ?case
  proof (cases "i < R m")
    case True
    from step.IH [OF _ step.prems(2) True] step.prems(1) obtain p where
      "0 \<le> p \<and> p < m \<and> R p \<le> i \<and> i < R (p + 1)" by auto
    then show ?thesis by (intro exI [of _ p]) simp
  next
    case False
    then show ?thesis using step.hyps step.prems by (intro exI [of _ m]) simp
  qed
qed

lemma tree_ptrs_d2:
  assumes "tree_ptrs n R A" and "2 \<le> n"
  shows "d2_inv n R (n - 3) (A[nat (n - 2) := 0])"
proof -
  have len: "int (length A) = n" and P: "ptrs_upto R (n - 1) A" and Rn: "R (n - 1) = n - 2"
    using assms(1) by (simp_all add: tree_ptrs_def)
  have "A[nat (n - 2) := 0] ! nat i = p + 1 \<and> i \<le> n - 3"
    if "0 \<le> p \<and> p < n - 1 \<and> R p \<le> i \<and> i < R (p + 1)" for p i
  proof -
    have Pp: "0 \<le> R p" "R (p + 1) \<le> R (n - 1)" "A ! nat i = p + 1"
      using P that unfolding ptrs_upto_def by blast+
    have i: "0 \<le> i" "i \<le> n - 3" using Pp Rn that by simp_all
    then have "nat i \<noteq> nat (n - 2)" by simp
    then show ?thesis using Pp i by simp
  qed
  then show ?thesis unfolding d2_inv_def using len assms(2) by simp
qed

lemma depth_step_inv:
  assumes inv: "d2_inv n R t A" and sh: "tree_shape n R" and t: "0 \<le> t" "t \<le> n - 3"
  shows "\<exists>A'. depth_step A t = Some A' \<and> d2_inv n R (t - 1) A'"
proof -
  have len: "int (length A) = n" and root: "A ! nat (n - 2) = 0"
    and rel: "\<forall>p i. 0 \<le> p \<and> p < n - 1 \<and> R p \<le> i \<and> i < R (p + 1) \<longrightarrow>
        (if i \<le> t then A ! nat i = p + 1 else A ! nat i = A ! nat p + 1)"
    using inv by (simp_all add: d2_inv_def)
  have "t < R (n - 1)" using sh t by (simp add: tree_shape_def)
  from tree_shape_parent [OF sh _ _ t(1) this] t
  obtain p where p: "0 \<le> p" "p < n - 1" "R p \<le> t" "t < R (p + 1)" by auto
  have At: "A ! nat t = p + 1" using rel p by auto
  have tp: "t < p" using sh p by (auto simp add: tree_shape_def)
  let ?A' = "A[nat t := A ! nat p + 1]"
  have step: "depth_step A t = Some ?A'"
    using At p t len by (simp add: depth_step_def arr_get_Some arr_set_Some)
  have rel': "if i \<le> t - 1 then ?A' ! nat i = q + 1 else ?A' ! nat i = ?A' ! nat q + 1"
    if q: "0 \<le> q \<and> q < n - 1 \<and> R q \<le> i \<and> i < R (q + 1)" for q i
  proof -
    have iq: "i < q" "0 \<le> i" using sh q by (auto simp add: tree_shape_def)
    consider "i < t" | "i = t" | "t < i" by linarith
    then show ?thesis
    proof cases
      case 1
      then have "nat i \<noteq> nat t" using iq by simp
      then have "?A' ! nat i = A ! nat i" by simp
      then show ?thesis using rel q 1 by auto
    next
      case 2
      then have "A ! nat t = q + 1" using rel q by auto
      then have qp: "q = p" using At by simp
      have "nat p \<noteq> nat t" using tp t by simp
      then have "?A' ! nat p = A ! nat p" by simp
      moreover have "?A' ! nat t = A ! nat p + 1" using t len by simp
      ultimately show ?thesis using 2 qp by simp
    next
      case 3
      then have "nat i \<noteq> nat t" "nat q \<noteq> nat t" using iq t by simp_all
      then have "?A' ! nat i = A ! nat i" "?A' ! nat q = A ! nat q" by simp_all
      then show ?thesis using rel q 3 by auto
    qed
  qed
  have "nat (n - 2) \<noteq> nat t" using t by simp
  then have root': "?A' ! nat (n - 2) = 0" using root by simp
  have "d2_inv n R (t - 1) ?A'"
    unfolding d2_inv_def using len root' rel' by simp
  then show ?thesis using step by blast
qed

lemma phase2_depths_inv:
  assumes "d2_inv n R t A" and "tree_shape n R" and "-1 \<le> t" and "t \<le> n - 3"
  shows "\<exists>A'. phase2_depths A t = Some A' \<and> d2_inv n R (-1) A'"
  using assms
proof (induction A t rule: phase2_depths.induct)
  case (1 A t)
  show ?case
  proof (cases "0 \<le> t")
    case True
    from depth_step_inv [OF "1.prems"(1,2) True "1.prems"(4)]
    obtain A' where step: "depth_step A t = Some A'" and inv': "d2_inv n R (t - 1) A'" by blast
    from "1.IH" [OF True step inv' "1.prems"(2)] True "1.prems"(4)
    obtain A'' where "phase2_depths A' (t - 1) = Some A''" "d2_inv n R (-1) A''" by auto
    then show ?thesis using True step by (subst phase2_depths.simps) simp
  next
    case False
    then have "t = -1" using "1.prems"(3) by simp
    then show ?thesis using "1.prems"(1) by (subst phase2_depths.simps) simp
  qed
qed

subsection \<open>Phase 2 assigns the leaf depths of a complete tree\<close>

lemma tree_shape_children:
  assumes "tree_shape n R" and "0 \<le> m0"
  shows "m0 \<le> m \<Longrightarrow> m \<le> n - 1 \<Longrightarrow> R m0 \<le> i \<Longrightarrow> i < R m \<Longrightarrow>
         \<exists>p. m0 \<le> p \<and> p < m \<and> R p \<le> i \<and> i < R (p + 1)"
proof (induction m rule: int_ge_induct)
  case base
  then show ?case by simp
next
  case (step m)
  show ?case
  proof (cases "i < R m")
    case True
    from step.IH [OF _ step.prems(2) True] step.prems(1) obtain p where
      "m0 \<le> p \<and> p < m \<and> R p \<le> i \<and> i < R (p + 1)" by auto
    then show ?thesis by (intro exI [of _ p]) simp
  next
    case False
    then show ?thesis using step.hyps step.prems by (intro exI [of _ m]) simp
  qed
qed

lemma tree_shape_width:
  assumes "tree_shape n R" and "0 \<le> m0"
  shows "m0 \<le> m \<Longrightarrow> m \<le> n - 1 \<Longrightarrow> R m0 \<le> R m \<and> R m - R m0 \<le> 2 * (m - m0)"
proof (induction m rule: int_ge_induct)
  case base
  then show ?case by simp
next
  case (step m)
  have "R m \<le> R (m + 1) \<and> R (m + 1) \<le> R m + 2"
    using assms step.hyps step.prems by (simp add: tree_shape_def)
  then show ?case using step.IH step.prems by simp
qed

lemma count_level_run:
  assumes "0 \<le> lo" and "lo \<le> snd ut + 1" and "snd ut < int (length A)"
    and "\<forall>i. lo \<le> i \<and> i \<le> snd ut \<longrightarrow> A ! nat i = d"
    and "0 < lo \<longrightarrow> A ! nat (lo - 1) \<noteq> d"
  shows "count_level A d ut = Some (fst ut + (snd ut + 1 - lo), lo - 1)"
  using assms
proof (induction A d ut rule: count_level.induct)
  case (1 A d ut)
  show ?case
  proof (cases "lo \<le> snd ut")
    case True
    then have t0: "0 \<le> snd ut" using "1.prems"(1) by simp
    have g: "arr_get A (snd ut) = Some d"
      using t0 "1.prems"(3,4) True by (simp add: arr_get_Some)
    have "count_level A d (fst ut + 1, snd ut - 1) = Some (fst ut + 1 + (snd ut - 1 + 1 - lo), lo - 1)"
      using "1.IH" [OF t0 g refl] "1.prems" True by simp
    then show ?thesis using t0 g by (subst count_level.simps) simp
  next
    case False
    then have eq: "snd ut = lo - 1" using "1.prems"(2) by simp
    show ?thesis
    proof (cases "0 < lo")
      case True
      then have "arr_get A (snd ut) = Some (A ! nat (lo - 1))"
        using eq "1.prems"(3) by (simp add: arr_get_Some)
      then show ?thesis using True eq "1.prems"(5)
        by (subst count_level.simps) (simp add: prod_eq_iff)
    next
      case False
      then show ?thesis using eq "1.prems"(1)
        by (subst count_level.simps) (simp add: prod_eq_iff)
    qed
  qed
qed

lemma wsum_drop_update:
  assumes "0 \<le> x" and "x < int (length A)"
  shows "wsum (drop (nat (x - 1 + 1)) (A[nat x := d])) = (1 / 2) ^ nat d + wsum (drop (nat (x + 1)) A)"
proof -
  have n: "nat x < length A" using assms by simp
  have "drop (nat x) (A[nat x := d]) = d # drop (Suc (nat x)) (A[nat x := d])"
    using n by (simp add: Cons_nth_drop_Suc [symmetric])
  also have "drop (Suc (nat x)) (A[nat x := d]) = drop (Suc (nat x)) A" by simp
  finally have "drop (nat x) (A[nat x := d]) = d # drop (nat (x + 1)) A"
    using assms(1) by (simp add: nat_add_distrib)
  then show ?thesis by (simp add: wsum_def)
qed

lemma assign_level_run:
  assumes "u \<le> a" and "-1 \<le> x - (a - u)" and "x < int (length A)"
  shows "\<exists>A'. assign_level u d (A, x, a) = Some (A', x - (a - u), u) \<and> length A' = length A \<and>
           (\<forall>i. 0 \<le> i \<and> i \<le> x - (a - u) \<longrightarrow> A' ! nat i = A ! nat i) \<and>
           (\<forall>i. x - (a - u) < i \<and> i \<le> x \<longrightarrow> A' ! nat i = d) \<and>
           (\<forall>i. x < i \<longrightarrow> A' ! nat i = A ! nat i) \<and>
           wsum (drop (nat (x - (a - u) + 1)) A')
             = wsum (drop (nat (x + 1)) A) + real_of_int (a - u) * (1 / 2) ^ nat d"
  using assms
proof (induction u d "(A, x, a)" arbitrary: A x a rule: assign_level.induct)
  case (1 u d A x a)
  show ?case
  proof (cases "u < a")
    case False
    then have "a = u" using "1.prems"(1) by simp
    then show ?thesis by (subst assign_level.simps) simp
  next
    case True
    then have x0: "0 \<le> x" using "1.prems"(2) by simp
    let ?A1 = "A[nat x := d]"
    have set: "arr_set A x d = Some ?A1" using x0 "1.prems"(3) by (simp add: arr_set_Some)
    have pre: "u \<le> a - 1" "-1 \<le> x - 1 - (a - 1 - u)" "x - 1 < int (length ?A1)"
      using True "1.prems" by simp_all
    from "1.hyps" [OF refl refl True set pre]
    obtain A' where run: "assign_level u d (?A1, x - 1, a - 1) = Some (A', x - 1 - (a - 1 - u), u)"
      and len: "length A' = length ?A1"
      and low: "\<forall>i. 0 \<le> i \<and> i \<le> x - 1 - (a - 1 - u) \<longrightarrow> A' ! nat i = ?A1 ! nat i"
      and mid: "\<forall>i. x - 1 - (a - 1 - u) < i \<and> i \<le> x - 1 \<longrightarrow> A' ! nat i = d"
      and high: "\<forall>i. x - 1 < i \<longrightarrow> A' ! nat i = ?A1 ! nat i"
      and sum: "wsum (drop (nat (x - 1 - (a - 1 - u) + 1)) A')
                 = wsum (drop (nat (x - 1 + 1)) ?A1) + real_of_int (a - 1 - u) * (1 / 2) ^ nat d"
      by blast
    have eq: "x - 1 - (a - 1 - u) = x - (a - u)" by simp
    have res: "assign_level u d (A, x, a) = Some (A', x - (a - u), u)"
      using True set run eq by (subst assign_level.simps) simp
    have low': "A' ! nat i = A ! nat i" if "0 \<le> i \<and> i \<le> x - (a - u)" for i
    proof -
      have "i < x" using that True by linarith
      then have "nat i \<noteq> nat x" using that by auto
      then show ?thesis using low that eq by simp
    qed
    have mid': "A' ! nat i = d" if "x - (a - u) < i \<and> i \<le> x" for i
    proof (cases "i = x")
      case True
      then show ?thesis using high x0 "1.prems"(3) by simp
    next
      case False
      then show ?thesis using mid that eq by simp
    qed
    have high': "A' ! nat i = A ! nat i" if "x < i" for i
    proof -
      have "nat i \<noteq> nat x" using that x0 by simp
      then show ?thesis using high that by simp
    qed
    have "wsum (drop (nat (x - (a - u) + 1)) A')
            = (1 / 2) ^ nat d + wsum (drop (nat (x + 1)) A) + real_of_int (a - 1 - u) * (1 / 2) ^ nat d"
      using sum eq wsum_drop_update [OF x0 "1.prems"(3), of d] by simp
    also have "\<dots> = wsum (drop (nat (x + 1)) A) + real_of_int (a - u) * (1 / 2) ^ nat d"
      by (simp add: algebra_simps)
    finally show ?thesis using res len low' mid' high' by simp
  qed
qed

lemma d2_inv_depths_ok:
  assumes "d2_inv n R (-1) A" and "tree_shape n R"
  shows "depths_ok n R A"
proof -
  have "A ! nat i = A ! nat p + 1" if "0 \<le> p \<and> p < n - 1 \<and> R p \<le> i \<and> i < R (p + 1)" for p i
  proof -
    have "0 \<le> R p" using assms(2) that by (simp add: tree_shape_def)
    then have "\<not> i \<le> -1" using that by simp
    then show ?thesis using assms(1) that unfolding d2_inv_def by metis
  qed
  then show ?thesis using assms(1) unfolding depths_ok_def d2_inv_def by simp
qed

lemma depths_positive:
  assumes dp: "depths_ok n R A0" and sh: "tree_shape n R"
  shows "0 \<le> i \<Longrightarrow> i < n - 2 \<Longrightarrow> 1 \<le> A0 ! nat i"
proof (induction "nat (n - 2 - i)" arbitrary: i rule: less_induct)
  case less
  have "i < R (n - 1)" using sh less.prems by (simp add: tree_shape_def)
  from tree_shape_parent [OF sh _ _ less.prems(1) this] less.prems
  obtain p where p: "0 \<le> p" "p < n - 1" "R p \<le> i" "i < R (p + 1)" by auto
  have ip: "i < p" using sh p by (auto simp add: tree_shape_def)
  have rel: "A0 ! nat i = A0 ! nat p + 1" using dp p unfolding depths_ok_def by blast
  show ?case
  proof (cases "p = n - 2")
    case True
    then show ?thesis using rel dp by (simp add: depths_ok_def)
  next
    case False
    then have "1 \<le> A0 ! nat p" using less.hyps [of p] p ip less.prems by simp
    then show ?thesis using rel by simp
  qed
qed

lemma lv_inv_start:
  assumes dp: "depths_ok n R A0" and sh: "tree_shape n R" and n2: "2 \<le> n"
  shows "lv_inv n R A0 A0 1 0 (n - 1) (n - 2)"
proof -
  have len: "int (length A0) = n" and root: "A0 ! nat (n - 2) = 0"
    using dp by (simp_all add: depths_ok_def)
  have Rn: "R (n - 1) = n - 2" using sh by (simp add: tree_shape_def)
  have "drop (nat n) A0 = []" using len by simp
  then have w: "wsum (drop (nat (n - 1 + 1)) A0) = 0" by (simp add: wsum_def)
  have pos: "0 + 1 \<le> A0 ! nat i" if "0 \<le> i \<and> i < R (n - 2 + 1)" for i
    using depths_positive [OF dp sh, of i] that Rn by simp
  have lev: "A0 ! nat i = 0" if "R (n - 2 + 1) \<le> i \<and> i \<le> n - 2" for i
  proof -
    have "i = n - 2" using that Rn by simp
    then show ?thesis using root by simp
  qed
  show ?thesis unfolding lv_inv_def using len n2 Rn w pos lev by simp
qed

lemma level_step_inv:
  assumes inv: "lv_inv n R A0 A a d x t" and a: "0 < a"
    and sh: "tree_shape n R" and dp: "depths_ok n R A0"
  shows "\<exists>A' a' x' t'. level_step (A, a, d, x, t) = Some (A', a', d + 1, x', t') \<and>
           lv_inv n R A0 A' a' (d + 1) x' t'"
proof -
  define lo where "lo = R (t + 1)"
  define u where "u = t + 1 - lo"
  have len: "int (length A) = n" and t: "-1 \<le> t" "t \<le> n - 2" and d0: "0 \<le> d"
    and x: "x = t + a" "x \<le> n - 1" and ua: "u \<le> a"
    and first: "d = 0 \<longrightarrow> a = 1 \<and> t = n - 2"
    and lev: "\<forall>i. lo \<le> i \<and> i \<le> t \<longrightarrow> A0 ! nat i = d"
    and below: "\<forall>i. 0 \<le> i \<and> i < lo \<longrightarrow> d + 1 \<le> A0 ! nat i"
    and same: "\<forall>i. 0 \<le> i \<and> i \<le> t \<longrightarrow> A ! nat i = A0 ! nat i"
    and sum: "wsum (drop (nat (x + 1)) A) + real_of_int a * (1 / 2) ^ nat d = 1"
    and leaves: "\<forall>i. x < i \<and> i \<le> n - 1 \<longrightarrow> 1 \<le> A ! nat i"
    using inv unfolding lv_inv_def lo_def u_def by blast+
  have rel: "\<forall>p i. 0 \<le> p \<and> p < n - 1 \<and> R p \<le> i \<and> i < R (p + 1) \<longrightarrow> A0 ! nat i = A0 ! nat p + 1"
    using dp by (simp add: depths_ok_def)
  have lo: "0 \<le> lo" "lo \<le> t + 1"
  proof -
    show "0 \<le> lo"
    proof (cases "t = -1")
      case True
      then show ?thesis using sh by (simp add: lo_def tree_shape_def)
    next
      case False
      then have "0 \<le> t \<and> t < n - 1" using t by simp
      then have "0 \<le> R t \<and> R t \<le> R (t + 1)" using sh unfolding tree_shape_def by blast
      then show ?thesis by (simp add: lo_def)
    qed
    show "lo \<le> t + 1"
    proof (cases "t = -1")
      case True
      then show ?thesis using sh by (simp add: lo_def tree_shape_def)
    next
      case False
      then have "0 \<le> t \<and> t < n - 1" using t by simp
      then have "R (t + 1) \<le> t" using sh unfolding tree_shape_def by blast
      then show ?thesis by (simp add: lo_def)
    qed
  qed
  have u0: "0 \<le> u" using lo by (simp add: u_def)
  \<comment> \<open>counting the internal nodes of depth \<open>d\<close>\<close>
  have c1: "\<forall>i. lo \<le> i \<and> i \<le> snd (0 :: int, t) \<longrightarrow> A ! nat i = d"
    using lev same lo by simp
  have c2: "0 < lo \<longrightarrow> A ! nat (lo - 1) \<noteq> d"
  proof
    assume "0 < lo"
    then have "A ! nat (lo - 1) = A0 ! nat (lo - 1)" "d + 1 \<le> A0 ! nat (lo - 1)"
      using same below lo by simp_all
    then show "A ! nat (lo - 1) \<noteq> d" by simp
  qed
  have count: "count_level A d (0, t) = Some (u, lo - 1)"
    using count_level_run [of lo "(0, t)" A d] lo t len c1 c2 by (simp add: u_def)
  \<comment> \<open>assigning the leaves of depth \<open>d\<close>\<close>
  have pre: "-1 \<le> x - (a - u)" "x < int (length A)" using x t u0 len by simp_all
  from assign_level_run [OF ua pre, of d]
  obtain A' where assign: "assign_level u d (A, x, a) = Some (A', x - (a - u), u)"
    and len': "length A' = length A"
    and low: "\<forall>i. 0 \<le> i \<and> i \<le> x - (a - u) \<longrightarrow> A' ! nat i = A ! nat i"
    and mid: "\<forall>i. x - (a - u) < i \<and> i \<le> x \<longrightarrow> A' ! nat i = d"
    and high: "\<forall>i. x < i \<longrightarrow> A' ! nat i = A ! nat i"
    and sum': "wsum (drop (nat (x - (a - u) + 1)) A')
                 = wsum (drop (nat (x + 1)) A) + real_of_int (a - u) * (1 / 2) ^ nat d"
    by blast
  have step: "level_step (A, a, d, x, t) = Some (A', 2 * u, d + 1, x - (a - u), lo - 1)"
    by (simp add: level_step_def count assign)
  \<comment> \<open>the invariant one level down\<close>
  have xt: "x - (a - u) = lo - 1 + 2 * u" using x by (simp add: u_def)
  have width: "lo - 1 + 1 - R (lo - 1 + 1) \<le> 2 * u"
    using tree_shape_width [OF sh lo(1), of "t + 1"] lo t by (simp add: lo_def u_def)
  have lev': "A0 ! nat i = d + 1" if i: "R (lo - 1 + 1) \<le> i \<and> i \<le> lo - 1" for i
  proof -
    have "R lo \<le> i" "i < R (t + 1)" using i by (simp_all add: lo_def)
    from tree_shape_children [OF sh lo(1) lo(2) _ this] t
    obtain p where p: "lo \<le> p" "p < t + 1" "R p \<le> i" "i < R (p + 1)" by auto
    have "A0 ! nat p = d" using lev p by simp
    moreover have "A0 ! nat i = A0 ! nat p + 1" using rel p lo t by simp
    ultimately show ?thesis by simp
  qed
  have below': "d + 1 + 1 \<le> A0 ! nat i" if i: "0 \<le> i \<and> i < R (lo - 1 + 1)" for i
  proof -
    have "i < R lo" using i by simp
    from tree_shape_parent [OF sh lo(1) _ _ this] i lo t
    obtain p where p: "0 \<le> p" "p < lo" "R p \<le> i" "i < R (p + 1)" by auto
    have "d + 1 \<le> A0 ! nat p" using below p by simp
    moreover have "A0 ! nat i = A0 ! nat p + 1" using rel p lo t by simp
    ultimately show ?thesis by simp
  qed
  have same': "A' ! nat i = A0 ! nat i" if i: "0 \<le> i \<and> i \<le> lo - 1" for i
  proof -
    have "A' ! nat i = A ! nat i" using low i xt u0 by simp
    then show ?thesis using same i lo by simp
  qed
  have sum'': "wsum (drop (nat (x - (a - u) + 1)) A') + real_of_int (2 * u) * (1 / 2) ^ nat (d + 1) = 1"
  proof -
    have "nat (d + 1) = Suc (nat d)" using d0 by simp
    then have "real_of_int (2 * u) * (1 / 2) ^ nat (d + 1) = real_of_int u * (1 / 2) ^ nat d"
      by simp
    then have "wsum (drop (nat (x - (a - u) + 1)) A') + real_of_int (2 * u) * (1 / 2) ^ nat (d + 1)
             = wsum (drop (nat (x + 1)) A) + real_of_int (a - u) * (1 / 2) ^ nat d
               + real_of_int u * (1 / 2) ^ nat d"
      using sum' by simp
    also have "\<dots> = wsum (drop (nat (x + 1)) A) + real_of_int a * (1 / 2) ^ nat d"
      by (simp add: algebra_simps)
    finally show ?thesis using sum by simp
  qed
  have leaves': "1 \<le> A' ! nat i" if i: "x - (a - u) < i \<and> i \<le> n - 1" for i
  proof (cases "i \<le> x")
    case True
    then have "u < a" using i by simp
    then have "d \<noteq> 0"
    proof -
      have "u = a" if "d = 0"
      proof -
        have "a = 1" "t = n - 2" using first that by simp_all
        moreover have "R (n - 1) = n - 2" using sh by (simp add: tree_shape_def)
        ultimately show ?thesis by (simp add: u_def lo_def)
      qed
      then show ?thesis using \<open>u < a\<close> by auto
    qed
    moreover have "A' ! nat i = d" using mid i True by simp
    ultimately show ?thesis using d0 by simp
  next
    case False
    then show ?thesis using high leaves i by simp
  qed
  have "lv_inv n R A0 A' (2 * u) (d + 1) (x - (a - u)) (lo - 1)"
    unfolding lv_inv_def
    using len len' lo t d0 xt x ua width lev' below' same' sum'' leaves' by simp
  then show ?thesis using step by blast
qed

lemma phase2_lengths_inv:
  assumes "lv_inv n R A0 (fst st) (fst (snd st)) (fst (snd (snd st))) (fst (snd (snd (snd st))))
             (snd (snd (snd (snd st))))"
    and "tree_shape n R" and "depths_ok n R A0"
  shows "\<exists>A'. phase2_lengths st = Some A' \<and> int (length A') = n \<and> wsum A' = 1 \<and>
           (\<forall>i. 0 \<le> i \<and> i \<le> n - 1 \<longrightarrow> 1 \<le> A' ! nat i)"
  using assms
proof (induction st rule: phase2_lengths.induct)
  case (1 st)
  obtain A a d x t where st: "st = (A, a, d, x, t)" by (cases st) auto
  have inv: "lv_inv n R A0 A a d x t" using "1.prems"(1) st by simp
  show ?case
  proof (cases "0 < a")
    case True
    from level_step_inv [OF inv True "1.prems"(2,3)]
    obtain A' a' x' t' where step: "level_step st = Some (A', a', d + 1, x', t')"
      and inv': "lv_inv n R A0 A' a' (d + 1) x' t'" using st by blast
    have "\<exists>A''. phase2_lengths (A', a', d + 1, x', t') = Some A'' \<and> int (length A'') = n \<and>
            wsum A'' = 1 \<and> (\<forall>i. 0 \<le> i \<and> i \<le> n - 1 \<longrightarrow> 1 \<le> A'' ! nat i)"
      by (rule "1.IH" [OF _ step _ "1.prems"(2,3)]) (use True st inv' in simp_all)
    then show ?thesis using True st step by (subst phase2_lengths.simps) simp
  next
    case False
    have len: "int (length A) = n" and t: "-1 \<le> t" "t \<le> n - 2" and xa: "x = t + a"
      and ua: "t + 1 - R (t + 1) \<le> a"
      and sum: "wsum (drop (nat (x + 1)) A) + real_of_int a * (1 / 2) ^ nat d = 1"
      and leaves: "\<forall>i. x < i \<and> i \<le> n - 1 \<longrightarrow> 1 \<le> A ! nat i"
      using inv unfolding lv_inv_def by blast+
    have t1: "t = -1"
    proof (rule ccontr)
      assume "t \<noteq> -1"
      then have "0 \<le> t \<and> t < n - 1" using t by simp
      then have "R (t + 1) \<le> t" using "1.prems"(2) unfolding tree_shape_def by blast
      then show False using ua False by simp
    qed
    have "R (t + 1) = 0" using t1 "1.prems"(2) by (simp add: tree_shape_def)
    then have a0: "a = 0" using ua False t1 by simp
    then have x1: "x = -1" using xa t1 by simp
    have res: "phase2_lengths st = Some A" using False st by (subst phase2_lengths.simps) simp
    have "wsum A = 1" using sum a0 x1 by simp
    moreover have "\<forall>i. 0 \<le> i \<and> i \<le> n - 1 \<longrightarrow> 1 \<le> A ! nat i" using leaves x1 by simp
    ultimately show ?thesis using res len by simp
  qed
qed

subsection \<open>The code lengths of \<^verbatim>\<open>zultra_huffman_encoder_estimate_dynamic_codelens\<close>\<close>

lemma enum_nonzero_spec:
  assumes "0 \<le> i" and "nSyms \<le> int (length arr)"
  shows "enum_nonzero arr nSyms i q = Some (q @ filter (\<lambda>s. arr ! nat s \<noteq> 0) [i..nSyms - 1])"
  using assms
proof (induction arr nSyms i q rule: enum_nonzero.induct)
  case (1 arr nSyms i q)
  show ?case
  proof (cases "i < nSyms")
    case True
    have g: "arr_get arr i = Some (arr ! nat i)" using True "1.prems" by (simp add: arr_get_Some)
    have u: "[i..nSyms - 1] = i # [i + 1..nSyms - 1]" using True by (simp add: upto_rec1)
    have "enum_nonzero arr nSyms (i + 1) (if arr ! nat i \<noteq> 0 then q @ [i] else q)
          = Some ((if arr ! nat i \<noteq> 0 then q @ [i] else q)
                  @ filter (\<lambda>s. arr ! nat s \<noteq> 0) [i + 1..nSyms - 1])"
      using "1.IH" [OF True g] "1.prems" by simp
    then show ?thesis using True g u by (subst enum_nonzero.simps) simp
  next
    case False
    then show ?thesis by (subst enum_nonzero.simps) simp
  qed
qed

lemma used_syms_set: "set (used_syms arr nSyms) = {s. 0 \<le> s \<and> s < nSyms \<and> arr ! nat s \<noteq> 0}"
  by (auto simp add: used_syms_def)

lemma used_syms_distinct: "distinct (used_syms arr nSyms)"
  by (simp add: used_syms_def)

lemma used_syms_cong:
  assumes "\<forall>s. 0 \<le> s \<and> s < nSyms \<longrightarrow> (arr ! nat s \<noteq> 0) = (arr' ! nat s \<noteq> 0)"
  shows "used_syms arr nSyms = used_syms arr' nSyms"
  unfolding used_syms_def using assms by (intro filter_cong) auto

lemma gather_spec:
  "\<forall>s \<in> set q. 0 \<le> s \<and> s < int (length arr) \<Longrightarrow> gather arr q = Some (map (\<lambda>s. arr ! nat s) q)"
  by (induction q) (simp_all add: arr_get_Some)

lemma scatter_spec:
  assumes "int (length q) = n" and "int (length A) = n" and "distinct q"
    and "\<forall>s \<in> set q. 0 \<le> s \<and> s < int (length len)" and "0 \<le> i"
  shows "\<exists>len'. scatter q A n i len = Some len' \<and> length len' = length len \<and>
           (\<forall>j. i \<le> j \<and> j < n \<longrightarrow> len' ! nat (q ! nat j) = A ! nat j) \<and>
           (\<forall>s. 0 \<le> s \<and> (\<forall>j. i \<le> j \<and> j < n \<longrightarrow> s \<noteq> q ! nat j) \<longrightarrow> len' ! nat s = len ! nat s)"
  using assms
proof (induction q A n i len rule: scatter.induct)
  case (1 q A n i len)
  show ?case
  proof (cases "i < n")
    case False
    then show ?thesis by (subst scatter.simps) simp
  next
    case True
    have qi: "q ! nat i \<in> set q" using True "1.prems"(1,5) by simp
    then have v: "0 \<le> q ! nat i" "q ! nat i < int (length len)" using "1.prems"(4) by simp_all
    let ?len1 = "len[nat (q ! nat i) := A ! nat i]"
    have step: "scatter_step q A i len = Some ?len1"
      using True "1.prems"(1,2,5) v by (simp add: scatter_step_def arr_get_Some arr_set_Some)
    from "1.IH" [OF True step "1.prems"(1,2,3)] "1.prems"(4,5)
    obtain len' where run: "scatter q A n (i + 1) ?len1 = Some len'"
      and l: "length len' = length ?len1"
      and a: "\<forall>j. i + 1 \<le> j \<and> j < n \<longrightarrow> len' ! nat (q ! nat j) = A ! nat j"
      and b: "\<forall>s. 0 \<le> s \<and> (\<forall>j. i + 1 \<le> j \<and> j < n \<longrightarrow> s \<noteq> q ! nat j) \<longrightarrow> len' ! nat s = ?len1 ! nat s"
      by auto
    have res: "scatter q A n i len = Some len'" using True step run by (subst scatter.simps) simp
    have other: "q ! nat i \<noteq> q ! nat j" if "i + 1 \<le> j \<and> j < n" for j
    proof -
      have "nat i < length q" "nat j < length q" "nat i \<noteq> nat j"
        using that True "1.prems"(1,5) by auto
      then show ?thesis using "1.prems"(3) by (simp add: nth_eq_iff_index_eq)
    qed
    have here: "len' ! nat (q ! nat i) = A ! nat i"
    proof -
      have "len' ! nat (q ! nat i) = ?len1 ! nat (q ! nat i)" using b v other by simp
      then show ?thesis using v by simp
    qed
    have a': "len' ! nat (q ! nat j) = A ! nat j" if "i \<le> j \<and> j < n" for j
      using a here that by (cases "j = i") simp_all
    have b': "len' ! nat s = len ! nat s" if s: "0 \<le> s \<and> (\<forall>j. i \<le> j \<and> j < n \<longrightarrow> s \<noteq> q ! nat j)" for s
    proof -
      have s0: "0 \<le> s" using s by simp
      have "s \<noteq> q ! nat i" using s True by simp
      then have "nat s \<noteq> nat (q ! nat i)" using s0 v(1) by auto
      then have "?len1 ! nat s = len ! nat s" by simp
      moreover have "len' ! nat s = ?len1 ! nat s" using b s by simp
      ultimately show ?thesis by simp
    qed
    show ?thesis using res l a' b' by simp
  qed
qed

lemma code_lengths_spec:
  assumes "int (length A) = n" and "2 \<le> n"
  shows "\<exists>A1 A2 A3 A4. phase1 n 0 (A, 0, 0) = Some A1 \<and> arr_set A1 (n - 2) 0 = Some A2 \<and>
           phase2_depths A2 (n - 3) = Some A3 \<and>
           phase2_lengths (A3, 1, 0, n - 1, n - 2) = Some A4 \<and>
           int (length A4) = n \<and> wsum A4 = 1 \<and> (\<forall>i. 0 \<le> i \<and> i \<le> n - 1 \<longrightarrow> 1 \<le> A4 ! nat i)"
proof -
  from phase1_spec [OF assms] obtain A1 R where p1: "phase1 n 0 (A, 0, 0) = Some A1"
    and tp: "tree_ptrs n R A1" by blast
  have sh: "tree_shape n R" by (rule tree_ptrs_shape [OF tp])
  have len1: "int (length A1) = n" using tp by (simp add: tree_ptrs_def)
  let ?A2 = "A1[nat (n - 2) := 0]"
  have s2: "arr_set A1 (n - 2) 0 = Some ?A2" using len1 assms(2) by (simp add: arr_set_Some)
  have d2: "d2_inv n R (n - 3) ?A2" by (rule tree_ptrs_d2 [OF tp assms(2)])
  from phase2_depths_inv [OF d2 sh] assms(2)
  obtain A3 where p2: "phase2_depths ?A2 (n - 3) = Some A3" and d3: "d2_inv n R (-1) A3" by auto
  have dp: "depths_ok n R A3" by (rule d2_inv_depths_ok [OF d3 sh])
  have "lv_inv n R A3 A3 1 0 (n - 1) (n - 2)" by (rule lv_inv_start [OF dp sh assms(2)])
  from phase2_lengths_inv [of n R A3 "(A3, 1, 0, n - 1, n - 2)", OF _ sh dp] this
  obtain A4 where "phase2_lengths (A3, 1, 0, n - 1, n - 2) = Some A4" "int (length A4) = n"
    "wsum A4 = 1" "\<forall>i. 0 \<le> i \<and> i \<le> n - 1 \<longrightarrow> 1 \<le> A4 ! nat i" by auto
  then show ?thesis using p1 s2 p2 by blast
qed

lemma estimate_spec:
  assumes sy: "0 \<le> nSymbols enc" "nSymbols enc \<le> MAX_SYMBOLS"
    and le: "length (nEntropy enc) = nat MAX_SYMBOLS"
    and two: "2 \<le> int (length (used_syms (nEntropy enc) (nSymbols enc)))"
  shows "\<exists>len. zultra_huffman_encoder_estimate_dynamic_codelens enc
                 = Some (0, enc \<lparr> nCodeLength := len \<rparr>) \<and>
           length len = nat MAX_SYMBOLS \<and>
           (\<forall>s. 0 \<le> s \<and> s < MAX_SYMBOLS \<and> s \<notin> set (used_syms (nEntropy enc) (nSymbols enc))
                \<longrightarrow> len ! nat s = 0) \<and>
           (\<forall>s \<in> set (used_syms (nEntropy enc) (nSymbols enc)). 1 \<le> len ! nat s) \<and>
           (\<Sum>s \<in> set (used_syms (nEntropy enc) (nSymbols enc)). (1 / 2 :: real) ^ nat (len ! nat s)) = 1"
proof -
  let ?ent = "nEntropy enc" and ?q = "used_syms (nEntropy enc) (nSymbols enc)"
  let ?n = "int (length ?q)"
  have M: "MAX_SYMBOLS = 288" by (simp add: MAX_SYMBOLS_def)
  have enum: "enum_nonzero ?ent (nSymbols enc) 0 [] = Some ?q"
    using enum_nonzero_spec [of 0 "nSymbols enc" ?ent "[]"] sy le M by (simp add: used_syms_def)
  have vq: "\<forall>x \<in> set ?q. 0 \<le> x \<and> x < int (length ?ent)"
    using sy le M by (auto simp add: used_syms_set)
  from qsort_spec [of 0 "?n - 1" ?q ?ent] vq two
  obtain q' where sort: "zultra_huffman_encoder_qsort ?ent ?q 0 (?n - 1) = Some q'"
    and sp: "seg_perm 0 (?n - 1) ?q q'" by auto
  have ms: "mset q' = mset ?q" and lq: "length q' = length ?q" using sp by (simp_all add: seg_perm_def)
  have sq: "set q' = set ?q" using ms by (metis set_mset_mset)
  have dq: "distinct q'"
    using mset_eq_imp_distinct_iff [OF ms] used_syms_distinct [of ?ent "nSymbols enc"] by blast
  have vq': "\<forall>s \<in> set q'. 0 \<le> s \<and> s < int (length ?ent)" using vq sq by simp
  let ?A = "map (\<lambda>s. ?ent ! nat s) q'"
  have gat: "gather ?ent q' = Some ?A" by (rule gather_spec [OF vq'])
  have lA: "int (length ?A) = ?n" using lq by simp
  from code_lengths_spec [OF lA two]
  obtain A1 A2 A3 A4 where p1: "phase1 ?n 0 (?A, 0, 0) = Some A1"
    and s2: "arr_set A1 (?n - 2) 0 = Some A2"
    and p2: "phase2_depths A2 (?n - 3) = Some A3"
    and p3: "phase2_lengths (A3, 1, 0, ?n - 1, ?n - 2) = Some A4"
    and l4: "int (length A4) = ?n" and w4: "wsum A4 = 1"
    and pos: "\<forall>i. 0 \<le> i \<and> i \<le> ?n - 1 \<longrightarrow> 1 \<le> A4 ! nat i" by blast
  let ?z = "replicate (nat MAX_SYMBOLS) (0 :: int)"
  have vz: "\<forall>s \<in> set q'. 0 \<le> s \<and> s < int (length ?z)" using vq' le by simp
  have lq': "int (length q') = ?n" using lq by simp
  from scatter_spec [OF lq' l4 dq vz, of 0]
  obtain len where sc: "scatter q' A4 ?n 0 ?z = Some len" and ll: "length len = length ?z"
    and a: "\<forall>j. 0 \<le> j \<and> j < ?n \<longrightarrow> len ! nat (q' ! nat j) = A4 ! nat j"
    and b: "\<forall>s. 0 \<le> s \<and> (\<forall>j. 0 \<le> j \<and> j < ?n \<longrightarrow> s \<noteq> q' ! nat j) \<longrightarrow> len ! nat s = ?z ! nat s"
    by auto
  have res: "zultra_huffman_encoder_estimate_dynamic_codelens enc = Some (0, enc \<lparr> nCodeLength := len \<rparr>)"
    using sy two enum sort gat p1 s2 p2 p3 sc
    by (simp add: zultra_huffman_encoder_estimate_dynamic_codelens_def Let_def)
  have idx: "\<exists>j. 0 \<le> j \<and> j < ?n \<and> s = q' ! nat j" if "s \<in> set q'" for s
  proof -
    from that obtain k where "k < length q'" "q' ! k = s" by (auto simp add: in_set_conv_nth)
    then show ?thesis using lq by (intro exI [of _ "int k"]) simp
  qed
  have zero: "len ! nat s = 0" if s: "0 \<le> s \<and> s < MAX_SYMBOLS \<and> s \<notin> set ?q" for s
  proof -
    have "\<forall>j. 0 \<le> j \<and> j < ?n \<longrightarrow> s \<noteq> q' ! nat j"
    proof (intro allI impI)
      fix j assume "0 \<le> j \<and> j < ?n"
      then have "nat j < length q'" using lq by auto
      then have "q' ! nat j \<in> set q'" by (rule nth_mem)
      then show "s \<noteq> q' ! nat j" using s sq by auto
    qed
    then have e: "len ! nat s = ?z ! nat s" using b s by simp
    have "nat s < nat MAX_SYMBOLS" using s by simp
    then show ?thesis using e by simp
  qed
  have one: "1 \<le> len ! nat s" if "s \<in> set ?q" for s
  proof -
    from idx [of s] that sq obtain j where j: "0 \<le> j" "j < ?n" "s = q' ! nat j" by auto
    then show ?thesis using a pos by simp
  qed
  have m: "map (\<lambda>s. len ! nat s) q' = A4"
  proof (rule nth_equalityI)
    show "length (map (\<lambda>s. len ! nat s) q') = length A4" using l4 lq by simp
  next
    fix k assume "k < length (map (\<lambda>s. len ! nat s) q')"
    then have "0 \<le> int k \<and> int k < ?n" using lq by simp
    then have "len ! nat (q' ! nat (int k)) = A4 ! nat (int k)" using a by blast
    then show "map (\<lambda>s. len ! nat s) q' ! k = A4 ! k" using \<open>k < length (map (\<lambda>s. len ! nat s) q')\<close> by simp
  qed
  have "(\<Sum>s \<in> set ?q. (1 / 2 :: real) ^ nat (len ! nat s))
        = sum_list (map (\<lambda>s. (1 / 2 :: real) ^ nat (len ! nat s)) q')"
    using sum_list_distinct_conv_sum_set [OF dq, of "\<lambda>s. (1 / 2 :: real) ^ nat (len ! nat s)"] sq by simp
  also have "\<dots> = wsum (map (\<lambda>s. len ! nat s) q')" by (simp add: wsum_def comp_def)
  finally have sum: "(\<Sum>s \<in> set ?q. (1 / 2 :: real) ^ nat (len ! nat s)) = 1" using m w4 by simp
  have "length len = nat MAX_SYMBOLS" using ll by simp
  with res zero one sum show ?thesis by blast
qed

subsection \<open>The length limiter\<close>

lemma share_pos: "1 \<le> share L l"
  by (simp add: share_def)

lemma share_double: "l \<le> L \<Longrightarrow> 1 \<le> l \<Longrightarrow> share L (l - 1) = 2 * share L l"
proof -
  assume "l \<le> L" "1 \<le> l"
  then have "nat (L - (l - 1)) = Suc (nat (L - l))" by simp
  then show ?thesis by (simp add: share_def)
qed

lemma share_mono: "l \<le> l' \<Longrightarrow> share L l' \<le> share L l"
  by (simp add: share_def power_increasing)

lemma int_shr_share:
  assumes "0 \<le> l" and "l \<le> L" and "L \<le> 30"
  shows "int_shr (2 ^ nat L) l = Some (share L l)"
proof -
  have "nat L = nat (L - l) + nat l" using assms by simp
  then have "(2 :: int) ^ nat L = 2 ^ nat (L - l) * 2 ^ nat l" by (metis power_add)
  then have "(2 :: int) ^ nat L div 2 ^ nat l = 2 ^ nat (L - l)" by simp
  then show ?thesis using assms by (simp add: int_shr_def share_def)
qed

lemma int_shl_one: "0 \<le> L \<Longrightarrow> L \<le> 30 \<Longrightarrow> int_shl 1 L = Some (2 ^ nat L)"
proof -
  assume a: "0 \<le> L" "L \<le> 30"
  then have "nat L < 31" by simp
  then have "(2 :: int) ^ nat L < 2 ^ 31" by (rule power_strict_increasing) simp
  then show ?thesis using a by (simp add: int_shl_def)
qed

lemma lengthen_spec:
  assumes "0 \<le> s" and "s < int (length len)" and "0 \<le> len ! nat s" and "len ! nat s \<le> L"
    and "L \<le> 30"
  shows "\<exists>m. lengthen L (2 ^ nat L) s (len, k)
               = Some (len[nat s := m], k - (share L (len ! nat s) - share L m)) \<and>
           len ! nat s \<le> m \<and> m \<le> L \<and>
           (m = L \<or> k - (share L (len ! nat s) - share L m) \<le> 2 ^ nat L) \<and>
           (len ! nat s < m \<longrightarrow> 2 ^ nat L < k - (share L (len ! nat s) - share L m) + share L m) \<and>
           (m = len ! nat s \<longrightarrow> len ! nat s = L \<or> k \<le> 2 ^ nat L)"
  using assms
proof (induction L "(2 :: int) ^ nat L" s "(len, k)" arbitrary: len k rule: lengthen.induct)
  case (1 L s len k)
  let ?l = "len ! nat s" and ?maxk = "(2 :: int) ^ nat L"
  have g: "arr_get len s = Some ?l" using "1.prems" by (simp add: arr_get_Some)
  show ?case
  proof (cases "?l < L \<and> k > ?maxk")
    case False
    have "lengthen L ?maxk s (len, k) = Some (len, k)"
      using False g by (subst lengthen.simps) auto
    then show ?thesis using False "1.prems" by (intro exI [of _ ?l]) auto
  next
    case True
    let ?len1 = "len[nat s := ?l + 1]"
    have ns: "nat s < length len" using "1.prems"(1,2) by simp
    have sh: "int_shr ?maxk (?l + 1) = Some (share L (?l + 1))"
      by (rule int_shr_share) (use True "1.prems" in simp_all)
    have step: "lengthen_step ?maxk s ?l (len, k) = Some (?len1, k - share L (?l + 1))"
      using "1.prems" ns sh by (simp add: lengthen_step_def arr_set_Some arr_get_Some)
    have pre: "0 \<le> s" "s < int (length ?len1)" "0 \<le> ?len1 ! nat s" "?len1 ! nat s \<le> L" "L \<le> 30"
      using "1.prems" True ns by simp_all
    have g': "arr_get (fst (len, k)) s = Some ?l" using g by simp
    have c': "?l < L \<and> ?maxk < snd (len, k)" using True by simp
    from "1.hyps" [OF g' c' step pre]
    obtain m where run: "lengthen L ?maxk s (?len1, k - share L (?l + 1))
               = Some (?len1[nat s := m], k - share L (?l + 1) - (share L (?len1 ! nat s) - share L m))"
      and m: "?len1 ! nat s \<le> m" "m \<le> L"
        "m = L \<or> k - share L (?l + 1) - (share L (?len1 ! nat s) - share L m) \<le> ?maxk"
        "?len1 ! nat s < m \<longrightarrow> ?maxk < k - share L (?l + 1) - (share L (?len1 ! nat s) - share L m) + share L m"
      by auto
    have l1: "?len1 ! nat s = ?l + 1" using ns by simp
    have dbl: "share L ?l = 2 * share L (?l + 1)"
      using share_double [of "?l + 1" L] True "1.prems" by simp
    have keq: "k - share L (?l + 1) - (share L (?l + 1) - share L m) = k - (share L ?l - share L m)"
      using dbl by simp
    have res: "lengthen L ?maxk s (len, k) = Some (len[nat s := m], k - (share L ?l - share L m))"
      using True g step run l1 keq by (subst lengthen.simps) simp
    have last: "?maxk < k - (share L ?l - share L m) + share L m"
    proof (cases "?l + 1 < m")
      case True
      then show ?thesis using m(4) l1 keq by simp
    next
      case False
      then have "m = ?l + 1" using m(1) l1 by simp
      then show ?thesis using True dbl by simp
    qed
    show ?thesis using res m l1 keq last by (intro exI [of _ m]) auto
  qed
qed

lemma shorten_spec:
  assumes "0 \<le> s" and "s < int (length len)" and "0 \<le> len ! nat s" and "len ! nat s \<le> L"
    and "L \<le> 30" and "1 \<le> k"
  shows "\<exists>m. shorten (2 ^ nat L) s (len, k)
               = Some (len[nat s := m], k + (share L m - share L (len ! nat s))) \<and>
           0 \<le> m \<and> m \<le> len ! nat s \<and>
           2 ^ nat L < k + (share L m - share L (len ! nat s)) + share L m \<and>
           (m < len ! nat s \<longrightarrow> k + (share L m - share L (len ! nat s)) \<le> 2 ^ nat L)"
  using assms
proof (induction "(2 :: int) ^ nat L" s "(len, k)" arbitrary: len k rule: shorten.induct)
  case (1 s len k)
  let ?l = "len ! nat s" and ?maxk = "(2 :: int) ^ nat L"
  have ns: "nat s < length len" using "1.prems"(1,2) by simp
  have g: "arr_get len s = Some ?l" using "1.prems" by (simp add: arr_get_Some)
  have sh: "int_shr ?maxk ?l = Some (share L ?l)"
    by (rule int_shr_share) (use "1.prems" in simp_all)
  have b: "Option.bind (arr_get (fst (len, k)) s) (\<lambda>l. Option.bind (int_shr ?maxk l) (\<lambda>d. Some (l, d)))
           = Some (?l, share L ?l)"
    using g sh by simp
  show ?case
  proof (cases "k + share L ?l \<le> ?maxk")
    case False
    have "shorten ?maxk s (len, k) = Some (len, k)"
      using False g sh by (subst shorten.simps) simp
    then show ?thesis using False "1.prems" by (intro exI [of _ ?l]) auto
  next
    case True
    have l1: "1 \<le> ?l"
    proof (rule ccontr)
      assume "\<not> 1 \<le> ?l"
      then have "?l = 0" using "1.prems"(3) by simp
      then have "share L ?l = ?maxk" by (simp add: share_def)
      then show False using True "1.prems"(6) by simp
    qed
    let ?len1 = "len[nat s := ?l - 1]"
    have set: "arr_set (fst (len, k)) s (?l - 1) = Some ?len1"
      using "1.prems" by (simp add: arr_set_Some)
    have l1': "?len1 ! nat s = ?l - 1" using ns by simp
    have pre: "0 \<le> s" "s < int (length ?len1)" "0 \<le> ?len1 ! nat s" "?len1 ! nat s \<le> L" "L \<le> 30"
      "1 \<le> snd (len, k) + share L ?l"
      using "1.prems" l1 l1' share_pos [of L ?l] by simp_all
    have tr: "snd (len, k) + share L ?l \<le> ?maxk" using True by simp
    from "1.hyps" [OF b refl tr set pre]
    obtain m where run: "shorten ?maxk s (?len1, k + share L ?l)
               = Some (?len1[nat s := m], k + share L ?l + (share L m - share L (?len1 ! nat s)))"
      and m: "0 \<le> m" "m \<le> ?len1 ! nat s"
        "?maxk < k + share L ?l + (share L m - share L (?len1 ! nat s)) + share L m"
        "m < ?len1 ! nat s \<longrightarrow> k + share L ?l + (share L m - share L (?len1 ! nat s)) \<le> ?maxk"
      by auto
    have dbl: "share L (?l - 1) = 2 * share L ?l"
      using share_double [of ?l L] l1 "1.prems" by simp
    have keq: "k + share L ?l + (share L m - share L (?l - 1)) = k + (share L m - share L ?l)"
      using dbl by simp
    have res: "shorten ?maxk s (len, k) = Some (len[nat s := m], k + (share L m - share L ?l))"
      using True g sh set run l1' keq by (subst shorten.simps) simp
    have le: "k + (share L m - share L ?l) \<le> ?maxk"
    proof (cases "m < ?l - 1")
      case True
      then show ?thesis using m(4) l1' keq by simp
    next
      case False
      then have "m = ?l - 1" using m(2) l1' by simp
      then show ?thesis using True dbl by simp
    qed
    show ?thesis using res m l1' keq le by (intro exI [of _ m]) auto
  qed
qed

lemma pos_lens_length: "length (pos_lens len q) = length q"
  by (simp add: pos_lens_def)

lemma pos_lens_nth: "0 \<le> i \<Longrightarrow> i < int (length q) \<Longrightarrow> pos_lens len q ! nat i = len ! nat (q ! nat i)"
  by (simp add: pos_lens_def)

lemma good_queue_nth:
  assumes "good_queue q len n" and "0 \<le> i" and "i < n"
  shows "0 \<le> q ! nat i \<and> q ! nat i < int (length len)"
proof -
  have "nat i < length q" using assms by (auto simp add: good_queue_def)
  then have "q ! nat i \<in> set q" by (rule nth_mem)
  then show ?thesis using assms(1) by (simp add: good_queue_def)
qed

lemma pos_update:
  assumes gq: "good_queue q len n" and i: "0 \<le> i" "i < n"
  shows "pos_lens (len[nat (q ! nat i) := v]) q = (pos_lens len q)[nat i := v]"
    and "good_queue q (len[nat (q ! nat i) := v]) n"
    and "\<forall>s. 0 \<le> s \<and> s \<notin> set q \<longrightarrow> len[nat (q ! nat i) := v] ! nat s = len ! nat s"
    and "length (len[nat (q ! nat i) := v]) = length len"
proof -
  have lq: "int (length q) = n" and dq: "distinct q" using gq by (simp_all add: good_queue_def)
  have ni: "nat i < length q" using i lq by auto
  have qi: "0 \<le> q ! nat i" "q ! nat i < int (length len)" using good_queue_nth [OF gq i] by simp_all
  show "pos_lens (len[nat (q ! nat i) := v]) q = (pos_lens len q)[nat i := v]"
  proof (rule nth_equalityI)
    show "length (pos_lens (len[nat (q ! nat i) := v]) q) = length ((pos_lens len q)[nat i := v])"
      by (simp add: pos_lens_def)
  next
    fix k assume "k < length (pos_lens (len[nat (q ! nat i) := v]) q)"
    then have k: "k < length q" by (simp add: pos_lens_def)
    show "pos_lens (len[nat (q ! nat i) := v]) q ! k = (pos_lens len q)[nat i := v] ! k"
    proof (cases "k = nat i")
      case True
      then show ?thesis using k qi by (simp add: pos_lens_def)
    next
      case False
      then have "q ! k \<noteq> q ! nat i" using dq k ni by (simp add: nth_eq_iff_index_eq)
      moreover have "0 \<le> q ! k" using gq k by (simp add: good_queue_def)
      ultimately have "nat (q ! k) \<noteq> nat (q ! nat i)" using qi by auto
      then show ?thesis using False k by (simp add: pos_lens_def)
    qed
  qed
  show "good_queue q (len[nat (q ! nat i) := v]) n" using gq by (simp add: good_queue_def)
  show "\<forall>s. 0 \<le> s \<and> s \<notin> set q \<longrightarrow> len[nat (q ! nat i) := v] ! nat s = len ! nat s"
  proof (intro allI impI)
    fix s assume s: "0 \<le> s \<and> s \<notin> set q"
    have "q ! nat i \<in> set q" using ni by (rule nth_mem)
    then have "s \<noteq> q ! nat i" using s by auto
    then have "nat s \<noteq> nat (q ! nat i)" using s qi by auto
    then show "len[nat (q ! nat i) := v] ! nat s = len ! nat s" by simp
  qed
  show "length (len[nat (q ! nat i) := v]) = length len" by simp
qed

lemma ksum_update:
  assumes "i < length ls"
  shows "ksum L (ls[i := v]) = ksum L ls - share L (ls ! i) + share L v"
proof -
  have a: "ls[i := v] = take i ls @ v # drop (Suc i) ls" using assms by (rule upd_conv_take_nth_drop)
  have b: "ls = take i ls @ ls ! i # drop (Suc i) ls" using assms by (rule id_take_nth_drop)
  have "ksum L (ls[i := v]) = ksum L (take i ls) + share L v + ksum L (drop (Suc i) ls)"
    by (subst a) (simp add: ksum_def)
  moreover have "ksum L ls = ksum L (take i ls) + share L (ls ! i) + ksum L (drop (Suc i) ls)"
    by (subst b) (simp add: ksum_def)
  ultimately show ?thesis by simp
qed

lemma ksum_ge_length: "int (length ls) \<le> ksum L ls"
proof (induction ls)
  case Nil
  show ?case by (simp add: ksum_def)
next
  case (Cons l ls)
  then show ?case using share_pos [of L l] by (simp add: ksum_def)
qed

text \<open>The first loop caps every length and leaves the Kraft sum of the capped lengths in \<open>k\<close>.\<close>

lemma cap_step_spec:
  assumes gq: "good_queue q len n" and i: "0 \<le> i" "i < n"
    and l: "0 \<le> pos_lens len q ! nat i" and L: "0 \<le> L" "L \<le> 30"
  shows "cap_step L (2 ^ nat L) q i (len, k)
         = Some (len[nat (q ! nat i) := min (pos_lens len q ! nat i) L],
                 k + share L (min (pos_lens len q ! nat i) L))"
proof -
  have lq: "int (length q) = n" using gq by (simp add: good_queue_def)
  have qi: "0 \<le> q ! nat i" "q ! nat i < int (length len)" using good_queue_nth [OF gq i] by simp_all
  have pl: "pos_lens len q ! nat i = len ! nat (q ! nat i)" using pos_lens_nth i lq by simp
  let ?s = "q ! nat i" and ?l = "len ! nat (q ! nat i)"
  have g: "arr_get q i = Some ?s" using i lq by (simp add: arr_get_Some)
  have gl: "arr_get len ?s = Some ?l" using qi by (simp add: arr_get_Some)
  have ns: "nat ?s < length len" using qi by simp
  show ?thesis
  proof (cases "?l > L")
    case True
    have sh: "int_shr (2 ^ nat L) L = Some (share L L)" by (rule int_shr_share) (use L in simp_all)
    show ?thesis using True g gl qi ns sh pl
      by (simp add: cap_step_def arr_set_Some arr_get_Some)
  next
    case False
    have sh: "int_shr (2 ^ nat L) ?l = Some (share L ?l)"
      by (rule int_shr_share) (use False l pl L in simp_all)
    have "min ?l L = ?l" using False by simp
    then show ?thesis using False g gl sh pl by (simp add: cap_step_def)
  qed
qed

lemma cap_loop_spec:
  assumes "good_queue q len n" and "-1 \<le> i" and "i < n"
    and "\<forall>l \<in> set (pos_lens len q). 0 \<le> l" and "0 \<le> L" and "L \<le> 30"
  shows "\<exists>len'. cap_loop L (2 ^ nat L) q i (len, k)
                  = Some (len', k + ksum L (map (\<lambda>l. min l L) (take (nat (i + 1)) (pos_lens len q)))) \<and>
           good_queue q len' n \<and> length len' = length len \<and>
           (\<forall>s. 0 \<le> s \<and> s \<notin> set q \<longrightarrow> len' ! nat s = len ! nat s) \<and>
           pos_lens len' q = map (\<lambda>l. min l L) (take (nat (i + 1)) (pos_lens len q))
                             @ drop (nat (i + 1)) (pos_lens len q)"
  using assms
proof (induction L "(2 :: int) ^ nat L" q i "(len, k)" arbitrary: len k rule: cap_loop.induct)
  case (1 L q i len k)
  let ?ls = "pos_lens len q"
  show ?case
  proof (cases "0 \<le> i")
    case False
    then have "cap_loop L (2 ^ nat L) q i (len, k) = Some (len, k)"
      by (subst cap_loop.simps) simp
    moreover have "nat (i + 1) = 0" using False by simp
    ultimately show ?thesis using "1.prems"(1) by (simp add: ksum_def)
  next
    case True
    have lq: "length ?ls = length q" "int (length q) = n"
      using "1.prems"(1) by (simp_all add: pos_lens_def good_queue_def)
    have ni: "nat i < length ?ls" using True "1.prems"(3) lq by auto
    have li: "0 \<le> ?ls ! nat i" using "1.prems"(4) ni by simp
    let ?c = "min (?ls ! nat i) L"
    let ?len1 = "len[nat (q ! nat i) := ?c]"
    have step: "cap_step L (2 ^ nat L) q i (len, k) = Some (?len1, k + share L ?c)"
      by (rule cap_step_spec [OF "1.prems"(1) True "1.prems"(3) li "1.prems"(5,6)])
    note up = pos_update [OF "1.prems"(1) True "1.prems"(3), of ?c]
    have ls1: "pos_lens ?len1 q = ?ls[nat i := ?c]" by (rule up(1))
    have nn: "\<forall>l \<in> set (pos_lens ?len1 q). 0 \<le> l"
    proof
      fix l assume "l \<in> set (pos_lens ?len1 q)"
      then have "l \<in> insert ?c (set ?ls)" using ls1 set_update_subset_insert [of ?ls "nat i" ?c] by auto
      then show "0 \<le> l" using "1.prems"(4,5) li by auto
    qed
    from "1.hyps" [OF True step up(2) _ _ nn "1.prems"(5,6)] True "1.prems"(3)
    obtain len' where run: "cap_loop L (2 ^ nat L) q (i - 1) (?len1, k + share L ?c)
                  = Some (len', k + share L ?c
                            + ksum L (map (\<lambda>l. min l L) (take (nat (i - 1 + 1)) (pos_lens ?len1 q))))"
      and gq': "good_queue q len' n" and ll: "length len' = length ?len1"
      and fr: "\<forall>s. 0 \<le> s \<and> s \<notin> set q \<longrightarrow> len' ! nat s = ?len1 ! nat s"
      and pl: "pos_lens len' q = map (\<lambda>l. min l L) (take (nat (i - 1 + 1)) (pos_lens ?len1 q))
                             @ drop (nat (i - 1 + 1)) (pos_lens ?len1 q)"
      by auto
    have n1: "nat (i - 1 + 1) = nat i" "nat (i + 1) = Suc (nat i)" using True by simp_all
    have tk: "take (nat i) (?ls[nat i := ?c]) = take (nat i) ?ls" by simp
    have dr: "drop (nat i) (?ls[nat i := ?c]) = ?c # drop (Suc (nat i)) ?ls"
      using ni by (simp add: drop_update_swap [symmetric] Cons_nth_drop_Suc [symmetric])
    have tk2: "take (Suc (nat i)) ?ls = take (nat i) ?ls @ [?ls ! nat i]"
      using ni by (rule take_Suc_conv_app_nth)
    have res: "cap_loop L (2 ^ nat L) q i (len, k)
               = Some (len', k + ksum L (map (\<lambda>l. min l L) (take (nat (i + 1)) ?ls)))"
      using True step run ls1 n1 tk tk2 by (subst cap_loop.simps) (simp add: ksum_def)
    have pl': "pos_lens len' q = map (\<lambda>l. min l L) (take (nat (i + 1)) ?ls) @ drop (nat (i + 1)) ?ls"
      using pl ls1 n1 tk dr tk2 by simp
    have fr': "\<forall>s. 0 \<le> s \<and> s \<notin> set q \<longrightarrow> len' ! nat s = len ! nat s"
      using fr up(3) by simp
    show ?thesis using res gq' ll fr' pl' by simp
  qed
qed

lemma countL_le_suffix:
  assumes "\<forall>j. 0 \<le> j \<and> j \<le> i \<longrightarrow> ls ! nat j \<noteq> L" and "-1 \<le> i" and "i < int (length ls)"
  shows "countL L ls \<le> int (length ls) - 1 - i"
proof -
  have "filter (\<lambda>l. l = L) (take (nat (i + 1)) ls) = []"
  proof (rule filter_False, rule ballI)
    fix l assume "l \<in> set (take (nat (i + 1)) ls)"
    then obtain k where k: "k < length (take (nat (i + 1)) ls)" "take (nat (i + 1)) ls ! k = l"
      by (auto simp add: in_set_conv_nth)
    then have "0 \<le> int k \<and> int k \<le> i" using assms(2) by auto
    then have "ls ! nat (int k) \<noteq> L" using assms(1) by blast
    then show "\<not> l = L" using k by simp
  qed
  then have "filter (\<lambda>l. l = L) ls = filter (\<lambda>l. l = L) (drop (nat (i + 1)) ls)"
    by (metis append_Nil append_take_drop_id filter_append)
  then have "countL L ls \<le> int (length (drop (nat (i + 1)) ls))"
    unfolding countL_def by (metis length_filter_le of_nat_le_iff)
  then show ?thesis using assms(2,3) by simp
qed

lemma countL_ge_suffix:
  assumes "\<forall>j. i < j \<and> j < int (length ls) \<longrightarrow> ls ! nat j = L" and "-1 \<le> i" and "i < int (length ls)"
  shows "int (length ls) - 1 - i \<le> countL L (drop (nat (i + 1)) ls)"
proof -
  have "filter (\<lambda>l. l = L) (drop (nat (i + 1)) ls) = drop (nat (i + 1)) ls"
  proof (rule filter_True, rule ballI)
    fix l assume "l \<in> set (drop (nat (i + 1)) ls)"
    then obtain k where k: "k < length (drop (nat (i + 1)) ls)" "drop (nat (i + 1)) ls ! k = l"
      by (auto simp add: in_set_conv_nth)
    then have "i < int (nat (i + 1) + k) \<and> int (nat (i + 1) + k) < int (length ls)"
      using assms(2) by auto
    then have "ls ! nat (int (nat (i + 1) + k)) = L" using assms(1) by blast
    then have "ls ! (nat (i + 1) + k) = L" by (simp only: nat_int)
    then show "l = L" using k by simp
  qed
  then show ?thesis using assms(2,3) by (simp add: countL_def)
qed

lemma countL_update_max: "i < length ls \<Longrightarrow> countL L ls \<le> countL L (ls[i := L])"
proof -
  assume i: "i < length ls"
  have a: "ls[i := L] = take i ls @ L # drop (Suc i) ls" using i by (rule upd_conv_take_nth_drop)
  have b: "ls = take i ls @ ls ! i # drop (Suc i) ls" using i by (rule id_take_nth_drop)
  have "countL L ls = countL L (take i ls) + countL L [ls ! i] + countL L (drop (Suc i) ls)"
    by (subst b) (simp add: countL_def)
  moreover have "countL L (ls[i := L]) = countL L (take i ls) + 1 + countL L (drop (Suc i) ls)"
    by (subst a) (simp add: countL_def)
  moreover have "countL L [ls ! i] \<le> 1" by (simp add: countL_def)
  ultimately show ?thesis by simp
qed

lemma ksum_all_max:
  assumes "\<forall>j. 0 \<le> j \<and> j < int (length ls) \<longrightarrow> ls ! nat j = L"
  shows "ksum L ls = int (length ls)"
proof -
  have "\<forall>l \<in> set ls. l = L"
  proof
    fix l assume "l \<in> set ls"
    then obtain k where "k < length ls" "ls ! k = l" by (auto simp add: in_set_conv_nth)
    then show "l = L" using assms [rule_format, of "int k"] by simp
  qed
  then show ?thesis by (induction ls) (simp_all add: ksum_def share_def)
qed

lemma propagate_spec:
  assumes "good_queue q len n" and "1 \<le> L" and "L \<le> 30" and "n \<le> 2 ^ nat L"
    and "-1 \<le> i" and "i < n"
    and "\<forall>l \<in> set (pos_lens len q). 1 \<le> l \<and> l \<le> L"
    and "k = ksum L (pos_lens len q)"
    and "2 ^ nat L < k \<longrightarrow>
           (\<forall>j. i < j \<and> j < n \<longrightarrow> pos_lens len q ! nat j = L) \<and>
           (\<forall>j j'. 0 \<le> j \<and> j \<le> j' \<and> j' \<le> i \<longrightarrow> pos_lens len q ! nat j \<le> pos_lens len q ! nat j') \<and>
           k - 2 ^ nat L < countL L (pos_lens len q)"
    and "k \<le> 2 ^ nat L \<longrightarrow> post2 L n (pos_lens len q) k"
  shows "\<exists>len' k'. propagate L (2 ^ nat L) q i (len, k) = Some (len', k') \<and>
           good_queue q len' n \<and> length len' = length len \<and>
           (\<forall>s. 0 \<le> s \<and> s \<notin> set q \<longrightarrow> len' ! nat s = len ! nat s) \<and>
           (\<forall>l \<in> set (pos_lens len' q). 1 \<le> l \<and> l \<le> L) \<and>
           k' = ksum L (pos_lens len' q) \<and> post2 L n (pos_lens len' q) k'"
  using assms
proof (induction L "(2 :: int) ^ nat L" q i "(len, k)" arbitrary: len k rule: propagate.induct)
  case (1 L q i len k)
  let ?ls = "pos_lens len q" and ?maxk = "(2 :: int) ^ nat L"
  note gq = "1.prems"(1) and L = "1.prems"(2,3) and nL = "1.prems"(4) and i = "1.prems"(5,6)
    and rng = "1.prems"(7) and k = "1.prems"(8) and inv = "1.prems"(9) and alt = "1.prems"(10)
  have lq: "int (length q) = n" "length ?ls = length q"
    using gq by (simp_all add: good_queue_def pos_lens_def)
  show ?case
  proof (cases "?maxk < k \<and> 0 \<le> i")
    case False
    have res: "propagate L ?maxk q i (len, k) = Some (len, k)"
      using False by (subst propagate.simps) auto
    have "post2 L n ?ls k"
    proof (cases "k \<le> ?maxk")
      case True
      then show ?thesis using alt by simp
    next
      case big: False
      then have i1: "i = -1" using False i by simp
      have "\<forall>j. 0 \<le> j \<and> j < int (length ?ls) \<longrightarrow> ?ls ! nat j = L"
        using inv big i1 lq by simp
      then have "ksum L ?ls = int (length ?ls)" by (rule ksum_all_max)
      then have "k = n" using k lq by simp
      then show ?thesis using big nL by simp
    qed
    then show ?thesis using res gq rng k by auto
  next
    case True
    then have i0: "0 \<le> i" and big: "?maxk < k" by simp_all
    have ni: "nat i < length ?ls" using i0 i lq by auto
    let ?s = "q ! nat i"
    have qi: "0 \<le> ?s" "?s < int (length len)" using good_queue_nth [OF gq i0 i(2)] by simp_all
    have li: "?ls ! nat i = len ! nat ?s" using pos_lens_nth i0 i lq by simp
    have l0: "1 \<le> len ! nat ?s" "len ! nat ?s \<le> L" using rng ni li by (metis nth_mem)+
    from lengthen_spec [OF qi _ l0(2) L(2), of k] l0(1)
    obtain m where run: "lengthen L ?maxk ?s (len, k)
               = Some (len[nat ?s := m], k - (share L (len ! nat ?s) - share L m))"
      and m: "len ! nat ?s \<le> m" "m \<le> L"
        "m = L \<or> k - (share L (len ! nat ?s) - share L m) \<le> ?maxk"
        "len ! nat ?s < m \<longrightarrow> ?maxk < k - (share L (len ! nat ?s) - share L m) + share L m"
        "m = len ! nat ?s \<longrightarrow> len ! nat ?s = L \<or> k \<le> ?maxk"
      by auto
    let ?len1 = "len[nat ?s := m]" and ?k1 = "k - (share L (len ! nat ?s) - share L m)"
    let ?ls1 = "?ls[nat i := m]"
    note up = pos_update [OF gq i0 i(2), of m]
    have ls1: "pos_lens ?len1 q = ?ls1" by (rule up(1))
    have g: "arr_get q i = Some ?s" using i0 i lq by (simp add: arr_get_Some)
    have bnd: "Option.bind (arr_get q i) (\<lambda>s. lengthen L ?maxk s (len, k)) = Some (?len1, ?k1)"
      using g run by simp
    have cnd: "?maxk < snd (len, k) \<and> 0 \<le> i" using True by simp
    have rng1: "\<forall>l \<in> set (pos_lens ?len1 q). 1 \<le> l \<and> l \<le> L"
    proof
      fix l assume "l \<in> set (pos_lens ?len1 q)"
      then have "l \<in> insert m (set ?ls)" using ls1 set_update_subset_insert [of ?ls "nat i" m] by auto
      then show "1 \<le> l \<and> l \<le> L" using rng m l0 by auto
    qed
    have k1: "?k1 = ksum L (pos_lens ?len1 q)"
      using ksum_update [OF ni, of L m] k li ls1 by simp
    have kle: "?k1 \<le> k" using share_mono [OF m(1), of L] by simp
    have sorted: "\<forall>j j'. 0 \<le> j \<and> j \<le> j' \<and> j' \<le> i \<longrightarrow> ?ls ! nat j \<le> ?ls ! nat j'"
      and tail: "\<forall>j. i < j \<and> j < n \<longrightarrow> ?ls ! nat j = L"
      and cnt: "k - ?maxk < countL L ?ls"
      using inv big by simp_all
    have same: "?ls1 ! nat j = ?ls ! nat j" if "0 \<le> j" "j \<noteq> i" for j
    proof -
      have "nat j \<noteq> nat i" using that i0 by auto
      then show ?thesis by simp
    qed
    have here: "?ls1 ! nat i = m" using ni by simp
    have inv1: "?maxk < ?k1 \<longrightarrow>
           (\<forall>j. i - 1 < j \<and> j < n \<longrightarrow> pos_lens ?len1 q ! nat j = L) \<and>
           (\<forall>j j'. 0 \<le> j \<and> j \<le> j' \<and> j' \<le> i - 1 \<longrightarrow>
               pos_lens ?len1 q ! nat j \<le> pos_lens ?len1 q ! nat j') \<and>
           ?k1 - ?maxk < countL L (pos_lens ?len1 q)"
    proof
      assume b1: "?maxk < ?k1"
      then have mL: "m = L" using m(3) by auto
      have a: "pos_lens ?len1 q ! nat j = L" if "i - 1 < j \<and> j < n" for j
      proof (cases "j = i")
        case True
        then show ?thesis using ls1 here mL by simp
      next
        case False
        then show ?thesis using ls1 same [of j] tail that i0 by simp
      qed
      have b: "pos_lens ?len1 q ! nat j \<le> pos_lens ?len1 q ! nat j'"
        if "0 \<le> j \<and> j \<le> j' \<and> j' \<le> i - 1" for j j'
        using ls1 same [of j] same [of j'] sorted that by simp
      have "countL L ?ls \<le> countL L ?ls1" using countL_update_max [OF ni, of L] mL by simp
      then have c: "?k1 - ?maxk < countL L (pos_lens ?len1 q)" using cnt kle ls1 by simp
      show "(\<forall>j. i - 1 < j \<and> j < n \<longrightarrow> pos_lens ?len1 q ! nat j = L) \<and>
           (\<forall>j j'. 0 \<le> j \<and> j \<le> j' \<and> j' \<le> i - 1 \<longrightarrow>
               pos_lens ?len1 q ! nat j \<le> pos_lens ?len1 q ! nat j') \<and>
           ?k1 - ?maxk < countL L (pos_lens ?len1 q)"
        using a b c by blast
    qed
    have alt1: "?k1 \<le> ?maxk \<longrightarrow> post2 L n (pos_lens ?len1 q) ?k1"
    proof
      assume s1: "?k1 \<le> ?maxk"
      have lt: "len ! nat ?s < m"
      proof (rule ccontr)
        assume "\<not> len ! nat ?s < m"
        then have "m = len ! nat ?s" using m(1) by simp
        then show False using s1 big by simp
      qed
      have over: "?maxk < ?k1 + share L m" using m(4) lt by simp
      have dbl: "2 * share L m \<le> share L (len ! nat ?s)"
      proof -
        have "share L (m - 1) = 2 * share L m" using share_double [of m L] m(2) l0(1) lt by simp
        moreover have "share L (m - 1) \<le> share L (len ! nat ?s)"
          using share_mono [of "len ! nat ?s" "m - 1" L] lt by simp
        ultimately show ?thesis by simp
      qed
      have notL: "\<forall>j. 0 \<le> j \<and> j \<le> i \<longrightarrow> ?ls ! nat j \<noteq> L"
      proof (intro allI impI)
        fix j assume "0 \<le> j \<and> j \<le> i"
        then have "?ls ! nat j \<le> ?ls ! nat i" using sorted by simp
        then show "?ls ! nat j \<noteq> L" using li lt m(2) by simp
      qed
      have "countL L ?ls \<le> int (length ?ls) - 1 - i"
        by (rule countL_le_suffix [OF notL i(1)]) (use i lq in simp)
      then have room: "k - ?maxk < n - 1 - i" using cnt lq by simp
      have p1: "?maxk - ?k1 < share L (pos_lens ?len1 q ! nat j')" if j': "0 \<le> j' \<and> j' \<le> i" for j'
      proof (cases "j' = i")
        case True
        then show ?thesis using ls1 here over by simp
      next
        case False
        then have "?ls ! nat j' \<le> ?ls ! nat i" using sorted j' by simp
        then have "?ls ! nat j' \<le> m" using li m(1) by simp
        then have "share L m \<le> share L (?ls ! nat j')" by (rule share_mono)
        then show ?thesis using ls1 same [of j'] False j' over by simp
      qed
      have p2: "pos_lens ?len1 q ! nat j' = L" if "i < j' \<and> j' < n" for j'
        using ls1 same [of j'] tail that i0 by simp
      have p3: "?maxk - ?k1 < 2 ^ nat (L - m)" using over by (simp add: share_def)
      have p4: "2 ^ nat (L - m) \<le> ?maxk - ?k1 + (n - 1 - i)"
        using room dbl by (simp add: share_def)
      show "post2 L n (pos_lens ?len1 q) ?k1"
        unfolding post2_def using s1 i0 i(2) p1 p2 p3 p4 by blast
    qed
    from "1.hyps" [OF cnd bnd up(2) L nL _ _ rng1 k1 inv1 alt1] i0 i(2)
    obtain len' k' where r: "propagate L ?maxk q (i - 1) (?len1, ?k1) = Some (len', k')"
      and gq': "good_queue q len' n" and ll: "length len' = length ?len1"
      and fr: "\<forall>s. 0 \<le> s \<and> s \<notin> set q \<longrightarrow> len' ! nat s = ?len1 ! nat s"
      and rng': "\<forall>l \<in> set (pos_lens len' q). 1 \<le> l \<and> l \<le> L"
      and k': "k' = ksum L (pos_lens len' q)" and p: "post2 L n (pos_lens len' q) k'"
      by auto
    have res: "propagate L ?maxk q i (len, k) = Some (len', k')"
      using True bnd r by (subst propagate.simps) simp
    have fr': "\<forall>s. 0 \<le> s \<and> s \<notin> set q \<longrightarrow> len' ! nat s = len ! nat s" using fr up(3) by simp
    show ?thesis using res gq' ll fr' rng' k' p by simp
  qed
qed

lemma countL_drop_step:
  assumes "i < length ls"
  shows "countL L (drop i ls) = (if ls ! i = L then 1 else 0) + countL L (drop (Suc i) ls)"
proof -
  have "drop i ls = ls ! i # drop (Suc i) ls" using assms by (simp add: Cons_nth_drop_Suc)
  then show ?thesis by (simp add: countL_def)
qed

lemma ksum_ge_share:
  assumes "i < length ls"
  shows "share L (ls ! i) + int (length ls) - 1 \<le> ksum L ls"
proof -
  have "int (length (ls[i := L])) \<le> ksum L (ls[i := L])" by (rule ksum_ge_length)
  moreover have "ksum L (ls[i := L]) = ksum L ls - share L (ls ! i) + share L L"
    by (rule ksum_update [OF assms])
  moreover have "share L L = 1" by (simp add: share_def)
  ultimately show ?thesis by simp
qed

lemma pow2_gap:
  fixes b c :: nat
  assumes "(2 :: int) ^ b < 2 * 2 ^ c"
  shows "(2 :: int) ^ b \<le> 2 ^ c"
proof -
  have "(2 :: int) ^ b < 2 ^ Suc c" using assms by simp
  then have "b < Suc c" by (simp only: power_strict_increasing_iff [of "2 :: int"]) 
  then have "b \<le> c" by simp
  then show ?thesis by (rule power_increasing) simp
qed

text \<open>
  The third loop fills the deficit completely before it runs out of queue positions, so
  it never reads the unwritten entry \<^verbatim>\<open>nMinQueue[nNumSorted]\<close>.
\<close>

lemma reclaim_spec:
  assumes "good_queue q len n" and "1 \<le> L" and "L \<le> 30" and "2 \<le> n" and "0 \<le> i"
    and "\<forall>l \<in> set (pos_lens len q). 1 \<le> l \<and> l \<le> L"
    and "k = ksum L (pos_lens len q)" and "k \<le> 2 ^ nat L"
    and "k < 2 ^ nat L \<longrightarrow>
           i \<le> n \<and>
           (\<exists>b. 2 ^ nat L - k < 2 ^ b \<and>
                2 ^ b \<le> 2 ^ nat L - k + countL L (drop (nat i) (pos_lens len q))) \<and>
           (\<forall>j. i \<le> j \<and> j < n \<longrightarrow>
                pos_lens len q ! nat j = L \<or> 2 ^ nat L - k < share L (pos_lens len q ! nat j))"
  shows "\<exists>len'. reclaim (2 ^ nat L) q n i (len, k) = Some (len', 2 ^ nat L) \<and>
           good_queue q len' n \<and> length len' = length len \<and>
           (\<forall>s. 0 \<le> s \<and> s \<notin> set q \<longrightarrow> len' ! nat s = len ! nat s) \<and>
           (\<forall>l \<in> set (pos_lens len' q). 1 \<le> l \<and> l \<le> L) \<and>
           ksum L (pos_lens len' q) = 2 ^ nat L"
  using assms
proof (induction "(2 :: int) ^ nat L" q n i "(len, k)" arbitrary: len k rule: reclaim.induct)
  case (1 q n i len k)
  let ?ls = "pos_lens len q" and ?maxk = "(2 :: int) ^ nat L"
  note gq = "1.prems"(1) and L = "1.prems"(2,3) and n2 = "1.prems"(4) and i0 = "1.prems"(5)
    and rng = "1.prems"(6) and k = "1.prems"(7) and kle = "1.prems"(8) and inv = "1.prems"(9)
  have lq: "int (length q) = n" "length ?ls = length q"
    using gq by (simp_all add: good_queue_def pos_lens_def)
  show ?case
  proof (cases "k < ?maxk \<and> i \<le> n")
    case False
    have "k = ?maxk" using False kle inv by auto
    moreover have "reclaim ?maxk q n i (len, k) = Some (len, k)"
      using False by (subst reclaim.simps) auto
    ultimately show ?thesis using gq rng k by auto
  next
    case True
    then have small: "k < ?maxk" by simp
    from inv small obtain b :: nat where b: "?maxk - k < 2 ^ b"
      "2 ^ b \<le> ?maxk - k + countL L (drop (nat i) ?ls)"
      and rest: "\<forall>j. i \<le> j \<and> j < n \<longrightarrow> ?ls ! nat j = L \<or> ?maxk - k < share L (?ls ! nat j)"
      by auto
    have "0 < countL L (drop (nat i) ?ls)" using b by simp
    then have "drop (nat i) ?ls \<noteq> []" by (auto simp add: countL_def)
    then have ni: "nat i < length ?ls" by simp
    then have i_n: "i < n" using lq by simp
    let ?s = "q ! nat i"
    have qi: "0 \<le> ?s" "?s < int (length len)" using good_queue_nth [OF gq i0 i_n] by simp_all
    have li: "?ls ! nat i = len ! nat ?s" using pos_lens_nth i0 i_n lq by simp
    have l0: "1 \<le> len ! nat ?s" "len ! nat ?s \<le> L" using rng ni li by (metis nth_mem)+
    have kbig: "share L (len ! nat ?s) + 1 \<le> k"
      using ksum_ge_share [OF ni, of L] k li lq n2 by simp
    have k1: "1 \<le> k" using kbig share_pos [of L "len ! nat ?s"] by simp
    from shorten_spec [OF qi _ l0(2) L(2) k1] l0(1)
    obtain m where run: "shorten ?maxk ?s (len, k)
               = Some (len[nat ?s := m], k + (share L m - share L (len ! nat ?s)))"
      and m: "0 \<le> m" "m \<le> len ! nat ?s"
        "?maxk < k + (share L m - share L (len ! nat ?s)) + share L m"
        "m < len ! nat ?s \<longrightarrow> k + (share L m - share L (len ! nat ?s)) \<le> ?maxk"
      by auto
    let ?len1 = "len[nat ?s := m]" and ?k1 = "k + (share L m - share L (len ! nat ?s))"
    let ?ls1 = "?ls[nat i := m]"
    note up = pos_update [OF gq i0 i_n, of m]
    have ls1: "pos_lens ?len1 q = ?ls1" by (rule up(1))
    have g: "arr_get q i = Some ?s" using i0 i_n lq by (simp add: arr_get_Some)
    have bnd: "Option.bind (arr_get q i) (\<lambda>s. shorten ?maxk s (len, k)) = Some (?len1, ?k1)"
      using g run by simp
    have cnd: "snd (len, k) < ?maxk \<and> i \<le> n" using True by simp
    have m1: "1 \<le> m"
    proof (rule ccontr)
      assume "\<not> 1 \<le> m"
      then have m0: "m = 0" using m(1) by simp
      then have "share L m = ?maxk" by (simp add: share_def)
      moreover have "?k1 \<le> ?maxk" using m(4) m0 l0(1) by simp
      ultimately show False using kbig by simp
    qed
    have rng1: "\<forall>l \<in> set (pos_lens ?len1 q). 1 \<le> l \<and> l \<le> L"
    proof
      fix l assume "l \<in> set (pos_lens ?len1 q)"
      then have "l \<in> insert m (set ?ls)" using ls1 set_update_subset_insert [of ?ls "nat i" m] by auto
      then show "1 \<le> l \<and> l \<le> L" using rng m m1 l0 by auto
    qed
    have k1eq: "?k1 = ksum L (pos_lens ?len1 q)"
      using ksum_update [OF ni, of L m] k li ls1 by simp
    have k1le: "?k1 \<le> ?maxk"
    proof (cases "m < len ! nat ?s")
      case True
      then show ?thesis using m(4) by simp
    next
      case False
      then have "m = len ! nat ?s" using m(2) by simp
      then show ?thesis using kle by simp
    qed
    have same: "?ls1 ! nat j = ?ls ! nat j" if "0 \<le> j" "j \<noteq> i" for j
    proof -
      have "nat j \<noteq> nat i" using that i0 by auto
      then show ?thesis by simp
    qed
    have dr: "drop (nat (i + 1)) ?ls1 = drop (Suc (nat i)) ?ls" using i0 by (simp add: nat_add_distrib)
    have cstep: "countL L (drop (nat i) ?ls)
                 = (if ?ls ! nat i = L then 1 else 0) + countL L (drop (Suc (nat i)) ?ls)"
      by (rule countL_drop_step [OF ni])
    have inv1: "?k1 < ?maxk \<longrightarrow>
           i + 1 \<le> n \<and>
           (\<exists>b. ?maxk - ?k1 < 2 ^ b \<and>
                2 ^ b \<le> ?maxk - ?k1 + countL L (drop (nat (i + 1)) (pos_lens ?len1 q))) \<and>
           (\<forall>j. i + 1 \<le> j \<and> j < n \<longrightarrow>
                pos_lens ?len1 q ! nat j = L \<or> ?maxk - ?k1 < share L (pos_lens ?len1 q ! nat j))"
    proof
      assume s1: "?k1 < ?maxk"
      have kk: "k \<le> ?k1" using share_mono [OF m(2), of L] by simp
      have r1: "pos_lens ?len1 q ! nat j = L \<or> ?maxk - ?k1 < share L (pos_lens ?len1 q ! nat j)"
        if j: "i + 1 \<le> j \<and> j < n" for j
      proof -
        have "?ls1 ! nat j = ?ls ! nat j" using same [of j] j i0 by simp
        moreover have "?ls ! nat j = L \<or> ?maxk - k < share L (?ls ! nat j)" using rest j by simp
        ultimately show ?thesis using ls1 kk by auto
      qed
      have ex: "\<exists>b. ?maxk - ?k1 < 2 ^ b \<and>
                2 ^ b \<le> ?maxk - ?k1 + countL L (drop (nat (i + 1)) (pos_lens ?len1 q))"
      proof (cases "?maxk - k < share L (len ! nat ?s)")
        case True
        have meq: "m = len ! nat ?s"
        proof (rule ccontr)
          assume "m \<noteq> len ! nat ?s"
          then have lt: "m < len ! nat ?s" using m(2) by simp
          have "share L (len ! nat ?s - 1) = 2 * share L (len ! nat ?s)"
            using share_double [of "len ! nat ?s" L] l0 by simp
          moreover have "share L (len ! nat ?s - 1) \<le> share L m"
            using share_mono [of m "len ! nat ?s - 1" L] lt by simp
          ultimately have "k + share L (len ! nat ?s) \<le> ?k1" by simp
          then show False using m(4) lt True by simp
        qed
        have "?ls ! nat i \<noteq> L"
        proof
          assume "?ls ! nat i = L"
          then have "share L (len ! nat ?s) = 1" using li by (simp add: share_def)
          then show False using True small by simp
        qed
        then have "countL L (drop (Suc (nat i)) ?ls) = countL L (drop (nat i) ?ls)"
          using cstep by simp
        then show ?thesis using b meq ls1 dr by (intro exI [of _ b]) simp
      next
        case False
        then have atL: "?ls ! nat i = L" using rest i0 i_n li by auto
        then have sh1: "share L (len ! nat ?s) = 1" using li by (simp add: share_def)
        have c1: "countL L (drop (nat i) ?ls) = 1 + countL L (drop (Suc (nat i)) ?ls)"
          using cstep atL by simp
        have p1: "?maxk - ?k1 < 2 ^ nat (L - m)" using m(3) by (simp add: share_def)
        have p2: "2 ^ nat (L - m) \<le> ?maxk - ?k1 + countL L (drop (Suc (nat i)) ?ls)"
        proof (cases "2 * 2 ^ nat (L - m) \<le> (2 :: int) ^ b")
          case True
          then show ?thesis using b(2) c1 sh1 by (simp add: share_def)
        next
          case False
          then have "(2 :: int) ^ b \<le> 2 ^ nat (L - m)" using pow2_gap [of b "nat (L - m)"] by simp
          with b(1) have "?maxk - k < 2 ^ nat (L - m)" by linarith
          then have "?maxk - k < share L m" by (simp add: share_def)
          then show ?thesis using s1 sh1 by simp
        qed
        show ?thesis using p1 p2 ls1 dr by (intro exI [of _ "nat (L - m)"]) simp
      qed
      show "i + 1 \<le> n \<and>
           (\<exists>b. ?maxk - ?k1 < 2 ^ b \<and>
                2 ^ b \<le> ?maxk - ?k1 + countL L (drop (nat (i + 1)) (pos_lens ?len1 q))) \<and>
           (\<forall>j. i + 1 \<le> j \<and> j < n \<longrightarrow>
                pos_lens ?len1 q ! nat j = L \<or> ?maxk - ?k1 < share L (pos_lens ?len1 q ! nat j))"
        using i_n ex r1 by simp
    qed
    from "1.hyps" [OF cnd bnd up(2) L n2 _ rng1 k1eq k1le inv1] i0
    obtain len' where r: "reclaim ?maxk q n (i + 1) (?len1, ?k1) = Some (len', ?maxk)"
      and gq': "good_queue q len' n" and ll: "length len' = length ?len1"
      and fr: "\<forall>s. 0 \<le> s \<and> s \<notin> set q \<longrightarrow> len' ! nat s = ?len1 ! nat s"
      and rng': "\<forall>l \<in> set (pos_lens len' q). 1 \<le> l \<and> l \<le> L"
      and k': "ksum L (pos_lens len' q) = ?maxk"
      by auto
    have res: "reclaim ?maxk q n i (len, k) = Some (len', ?maxk)"
      using True bnd r by (subst reclaim.simps) simp
    have fr': "\<forall>s. 0 \<le> s \<and> s \<notin> set q \<longrightarrow> len' ! nat s = len ! nat s" using fr up(3) by simp
    show ?thesis using res gq' ll fr' rng' k' by simp
  qed
qed

text \<open>
  Capping a complete code: the Kraft sum grows by less than one unit for every length
  above \<open>L\<close>, and by nothing when there is none.
\<close>

lemma share_real:
  assumes "0 \<le> l" and "l \<le> L"
  shows "real_of_int (share L l) = 2 ^ nat L * (1 / 2) ^ nat l"
proof -
  have "nat L = nat (L - l) + nat l" using assms by simp
  then have "(2 :: real) ^ nat L = 2 ^ nat (L - l) * 2 ^ nat l" by (metis power_add)
  then have "(2 :: real) ^ nat L * (1 / 2) ^ nat l = 2 ^ nat (L - l) * (2 ^ nat l * (1 / 2) ^ nat l)"
    by simp
  also have "(2 :: real) ^ nat l * (1 / 2) ^ nat l = 1"
    by (simp add: power_one_over)
  finally show ?thesis by (simp add: share_def)
qed

lemma over_real:
  assumes "0 \<le> L" and "L < l"
  shows "0 < (2 :: real) ^ nat L * (1 / 2) ^ nat l" and "(2 :: real) ^ nat L * (1 / 2) ^ nat l < 1"
proof -
  show "0 < (2 :: real) ^ nat L * (1 / 2) ^ nat l" by simp
  have "nat L < nat l" using assms by simp
  then have "(2 :: real) ^ nat L < 2 ^ nat l" by (rule power_strict_increasing) simp
  then show "(2 :: real) ^ nat L * (1 / 2) ^ nat l < 1"
    by (simp add: power_one_over field_simps)
qed

lemma cap_excess:
  assumes "0 \<le> L" and "\<forall>l \<in> set ls. 0 \<le> l"
  shows "0 \<le> real_of_int (ksum L (map (\<lambda>l. min l L) ls)) - 2 ^ nat L * wsum ls \<and>
         real_of_int (ksum L (map (\<lambda>l. min l L) ls)) - 2 ^ nat L * wsum ls
           \<le> real_of_int (countL L (map (\<lambda>l. min l L) ls)) \<and>
         ((\<exists>l \<in> set ls. L < l) \<longrightarrow>
            0 < real_of_int (ksum L (map (\<lambda>l. min l L) ls)) - 2 ^ nat L * wsum ls \<and>
            real_of_int (ksum L (map (\<lambda>l. min l L) ls)) - 2 ^ nat L * wsum ls
              < real_of_int (countL L (map (\<lambda>l. min l L) ls)))"
  using assms(2)
proof (induction ls)
  case Nil
  show ?case by (simp add: ksum_def wsum_def countL_def)
next
  case (Cons l ls)
  let ?e = "\<lambda>xs. real_of_int (ksum L (map (\<lambda>l. min l L) xs)) - 2 ^ nat L * wsum xs"
  let ?c = "\<lambda>xs. real_of_int (countL L (map (\<lambda>l. min l L) xs))"
  have IH: "0 \<le> ?e ls" "?e ls \<le> ?c ls"
    "(\<exists>l \<in> set ls. L < l) \<longrightarrow> 0 < ?e ls \<and> ?e ls < ?c ls"
    using Cons by simp_all
  have l0: "0 \<le> l" using Cons.prems by simp
  show ?case
  proof (cases "L < l")
    case True
    let ?t = "(2 :: real) ^ nat L * (1 / 2) ^ nat l"
    have t: "0 < ?t" "?t < 1" using over_real [OF assms(1) True] by simp_all
    have e: "?e (l # ls) = 1 - ?t + ?e ls"
      using True by (simp add: ksum_def wsum_def share_def algebra_simps)
    have c: "?c (l # ls) = 1 + ?c ls" using True by (simp add: countL_def)
    have g1: "0 \<le> ?e (l # ls)" unfolding e using t IH(1) by linarith
    have g2: "?e (l # ls) \<le> ?c (l # ls)" unfolding e c using t IH(2) by linarith
    have g3: "0 < ?e (l # ls)" unfolding e using t IH(1) by linarith
    have g4: "?e (l # ls) < ?c (l # ls)" unfolding e c using t IH(2) by linarith
    show ?thesis using g1 g2 g3 g4 by blast
  next
    case False
    have "real_of_int (share L l) = 2 ^ nat L * (1 / 2) ^ nat l"
      by (rule share_real) (use False l0 in simp_all)
    then have e: "?e (l # ls) = ?e ls"
      using False by (simp add: ksum_def wsum_def algebra_simps)
    have c: "?c ls \<le> ?c (l # ls)" by (simp add: countL_def)
    have ex: "(\<exists>x \<in> set (l # ls). L < x) \<Longrightarrow> (\<exists>x \<in> set ls. L < x)" using False by auto
    have g1: "0 \<le> ?e (l # ls)" unfolding e using IH(1) by linarith
    have g2: "?e (l # ls) \<le> ?c (l # ls)" unfolding e using c IH(2) by linarith
    have g3: "0 < ?e (l # ls) \<and> ?e (l # ls) < ?c (l # ls)" if "\<exists>x \<in> set (l # ls). L < x"
    proof -
      have "0 < ?e ls \<and> ?e ls < ?c ls" using IH(3) ex [OF that] by blast
      then show ?thesis unfolding e using c by linarith
    qed
    show ?thesis using g1 g2 g3 by blast
  qed
qed

lemma kraft_table:
  assumes m: "0 \<le> nSyms" "nSyms \<le> int (length len)" and dq: "distinct q"
    and inq: "\<forall>s \<in> set q. 0 \<le> s \<and> s < nSyms \<and> len ! nat s \<noteq> 0"
    and out: "\<forall>s. 0 \<le> s \<and> s < nSyms \<and> s \<notin> set q \<longrightarrow> len ! nat s = 0"
  shows "kraft_sum L (take (nat nSyms) len) = ksum L (pos_lens len q)"
proof -
  let ?g = "\<lambda>l :: int. if l = 0 then 0 else (2 :: int) ^ nat (L - l)"
  let ?m = "nat nSyms"
  have lm: "length (map ?g (take ?m len)) = ?m" using m by simp
  have "kraft_sum L (take ?m len) = (\<Sum>k = 0..<?m. map ?g (take ?m len) ! k)"
    unfolding kraft_sum_def using sum_list_sum_nth [of "map ?g (take ?m len)"] lm by simp
  also have "\<dots> = (\<Sum>k = 0..<?m. ?g (len ! k))"
    by (rule sum.cong) (use m in simp_all)
  also have "\<dots> = (\<Sum>k \<in> nat ` set q. ?g (len ! k))"
  proof (rule sum.mono_neutral_right)
    show "finite {0..<?m}" by simp
    show "nat ` set q \<subseteq> {0..<?m}" using inq by auto
    show "\<forall>k \<in> {0..<?m} - nat ` set q. ?g (len ! k) = 0"
    proof
      fix k assume k: "k \<in> {0..<?m} - nat ` set q"
      then have "int k \<notin> set q" by (metis DiffD2 image_eqI nat_int)
      moreover have "0 \<le> int k \<and> int k < nSyms" using k by auto
      ultimately have "len ! nat (int k) = 0" using out by blast
      then show "?g (len ! k) = 0" by simp
    qed
  qed
  also have "\<dots> = (\<Sum>s \<in> set q. ?g (len ! nat s))"
  proof (rule sum.reindex_cong [of nat])
    show "inj_on nat (set q)"
    proof (rule inj_onI)
      fix x y assume xy: "x \<in> set q" "y \<in> set q" "nat x = nat y"
      then have "0 \<le> x" "0 \<le> y" using inq by blast+
      then show "x = y" using xy(3) by (simp add: eq_nat_nat_iff)
    qed
  qed simp_all
  also have "\<dots> = (\<Sum>s \<in> set q. share L (len ! nat s))"
    by (rule sum.cong) (use inq in \<open>simp_all add: share_def\<close>)
  also have "\<dots> = sum_list (map (\<lambda>s. share L (len ! nat s)) q)"
    by (rule sum_list_distinct_conv_sum_set [OF dq, symmetric])
  also have "\<dots> = ksum L (pos_lens len q)" by (simp add: ksum_def pos_lens_def comp_def)
  finally show ?thesis .
qed

lemma countL_drop_le: "countL L (drop m ls) \<le> countL L ls"
proof -
  have "filter (\<lambda>l. l = L) (take m ls @ drop m ls)
        = filter (\<lambda>l. l = L) (take m ls) @ filter (\<lambda>l. l = L) (drop m ls)"
    by (rule filter_append)
  then have "length (filter (\<lambda>l. l = L) ls)
             = length (filter (\<lambda>l. l = L) (take m ls)) + length (filter (\<lambda>l. l = L) (drop m ls))"
    by (metis append_take_drop_id length_append)
  then show ?thesis by (simp add: countL_def)
qed

lemma ksum_mset: "mset xs = mset ys \<Longrightarrow> ksum L xs = ksum L ys"
proof -
  assume a: "mset xs = mset ys"
  have "ksum L zs = sum_mset (image_mset (share L) (mset zs))" for zs
    unfolding ksum_def by (metis mset_map sum_mset_sum_list)
  then show ?thesis using a by simp
qed

lemma pos_lens_mset: "mset q' = mset q \<Longrightarrow> mset (pos_lens len q') = mset (pos_lens len q)"
  by (simp add: pos_lens_def)

lemma good_queue_perm:
  assumes "good_queue q len n" and "mset q' = mset q"
  shows "good_queue q' len n"
proof -
  have "length q' = length q" using assms(2) by (metis size_mset)
  moreover have "set q' = set q" using assms(2) by (metis set_mset_mset)
  moreover have "distinct q'" using mset_eq_imp_distinct_iff [OF assms(2)] assms(1)
    by (simp add: good_queue_def)
  ultimately show ?thesis using assms(1) by (simp add: good_queue_def)
qed

lemma limit_lengths_spec:
  assumes gq: "good_queue q len n" and n2: "2 \<le> n" and L: "1 \<le> L" "L \<le> 30"
    and fit: "n \<le> 2 ^ nat L"
    and pos: "\<forall>l \<in> set (pos_lens len q). 1 \<le> l"
    and srt: "\<forall>i j. 0 \<le> i \<and> i \<le> j \<and> j < n \<longrightarrow> pos_lens len q ! nat i \<le> pos_lens len q ! nat j"
    and kraft: "wsum (pos_lens len q) = 1"
    and over: "\<exists>l \<in> set (pos_lens len q). L < l"
  shows "\<exists>len' q'. limit_lengths L q len = Some (len', q') \<and>
           good_queue q' len' n \<and> mset q' = mset q \<and> length len' = length len \<and>
           (\<forall>s. 0 \<le> s \<and> s \<notin> set q \<longrightarrow> len' ! nat s = len ! nat s) \<and>
           (\<forall>l \<in> set (pos_lens len' q'). 1 \<le> l \<and> l \<le> L) \<and>
           ksum L (pos_lens len' q') = 2 ^ nat L \<and>
           (\<forall>i j. 0 \<le> i \<and> i \<le> j \<and> j < n \<longrightarrow>
                  len' ! nat (q' ! nat i) \<le> len' ! nat (q' ! nat j))"
proof -
  let ?ls = "pos_lens len q"
  let ?cl = "map (\<lambda>l. min l L) ?ls"
  let ?M = "(2 :: int) ^ nat L"
  have lq: "int (length q) = n" using gq by (simp add: good_queue_def)
  have lls: "length ?ls = nat n" using lq by (simp add: pos_lens_length)
  have L0: "0 \<le> L" using L by simp
  have shl: "int_shl 1 L = Some ?M" by (rule int_shl_one [OF L0 L(2)])
  have pos0: "\<forall>l \<in> set ?ls. 0 \<le> l" using pos by auto
  have i1: "-1 \<le> n - 1" "n - 1 < n" using n2 by simp_all
  have tk: "take (nat (n - 1 + 1)) ?ls = ?ls" "drop (nat (n - 1 + 1)) ?ls = []" using lls by simp_all
  from cap_loop_spec [OF gq i1 pos0 L0 L(2), of 0] obtain len1
    where c1: "cap_loop L ?M q (n - 1) (len, 0) = Some (len1, ksum L ?cl)"
      and g1: "good_queue q len1 n" and l1: "length len1 = length len"
      and u1: "\<forall>s. 0 \<le> s \<and> s \<notin> set q \<longrightarrow> len1 ! nat s = len ! nat s"
      and p1: "pos_lens len1 q = ?cl"
    unfolding tk by auto
  let ?k1 = "ksum L ?cl"
  from cap_excess [OF L0 pos0] over kraft
  have ex: "0 < real_of_int ?k1 - 2 ^ nat L" "real_of_int ?k1 - 2 ^ nat L < real_of_int (countL L ?cl)"
    by auto
  have "real_of_int ?M < real_of_int ?k1" using ex(1) by simp
  then have big: "?M < ?k1" by (simp only: of_int_less_iff)
  have "real_of_int (?k1 - ?M) < real_of_int (countL L ?cl)" using ex(2) by simp
  then have cnt: "?k1 - ?M < countL L ?cl" by (simp only: of_int_less_iff)
  have r1: "\<forall>l \<in> set (pos_lens len1 q). 1 \<le> l \<and> l \<le> L" unfolding p1 using pos L by auto
  have srt1: "pos_lens len1 q ! nat j \<le> pos_lens len1 q ! nat j'" if "0 \<le> j" "j \<le> j'" "j' \<le> n - 1" for j j'
  proof -
    have a: "nat j < length ?ls" "nat j' < length ?ls" using that lls by simp_all
    have "?ls ! nat j \<le> ?ls ! nat j'" using srt that by simp
    then show ?thesis unfolding p1 using a by (simp add: min_le_iff_disj)
  qed
  have h1: "?M < ?k1 \<longrightarrow>
           (\<forall>j. n - 1 < j \<and> j < n \<longrightarrow> pos_lens len1 q ! nat j = L) \<and>
           (\<forall>j j'. 0 \<le> j \<and> j \<le> j' \<and> j' \<le> n - 1 \<longrightarrow> pos_lens len1 q ! nat j \<le> pos_lens len1 q ! nat j') \<and>
           ?k1 - ?M < countL L (pos_lens len1 q)"
    using srt1 cnt unfolding p1 [symmetric] by auto
  have h2: "?k1 \<le> ?M \<longrightarrow> post2 L n (pos_lens len1 q) ?k1" using big by simp
  have k1: "?k1 = ksum L (pos_lens len1 q)" unfolding p1 ..
  from propagate_spec [OF g1 L fit i1 r1 k1 h1 h2] obtain len2 k2
    where c2: "propagate L ?M q (n - 1) (len1, ?k1) = Some (len2, k2)"
      and g2: "good_queue q len2 n" and l2: "length len2 = length len1"
      and u2: "\<forall>s. 0 \<le> s \<and> s \<notin> set q \<longrightarrow> len2 ! nat s = len1 ! nat s"
      and r2: "\<forall>l \<in> set (pos_lens len2 q). 1 \<le> l \<and> l \<le> L"
      and k2: "k2 = ksum L (pos_lens len2 q)" and po: "post2 L n (pos_lens len2 q) k2"
    by blast
  let ?l2 = "pos_lens len2 q"
  have ll2: "int (length ?l2) = n" using lq by (simp add: pos_lens_length)
  have le2: "k2 \<le> ?M" using po by (simp add: post2_def)
  have h3: "k2 < ?M \<longrightarrow>
           0 \<le> n \<and>
           (\<exists>b. ?M - k2 < 2 ^ b \<and> 2 ^ b \<le> ?M - k2 + countL L (drop (nat 0) ?l2)) \<and>
           (\<forall>j. 0 \<le> j \<and> j < n \<longrightarrow> ?l2 ! nat j = L \<or> ?M - k2 < share L (?l2 ! nat j))"
  proof
    assume lt: "k2 < ?M"
    then obtain j b where j: "0 \<le> j" "j < n"
      and low: "\<forall>j'. 0 \<le> j' \<and> j' \<le> j \<longrightarrow> ?M - k2 < share L (?l2 ! nat j')"
      and high: "\<forall>j'. j < j' \<and> j' < n \<longrightarrow> ?l2 ! nat j' = L"
      and b: "?M - k2 < 2 ^ b" "2 ^ b \<le> ?M - k2 + (n - 1 - j)"
      using po unfolding post2_def by auto
    have hi: "\<forall>j'. j < j' \<and> j' < int (length ?l2) \<longrightarrow> ?l2 ! nat j' = L" using high ll2 by simp
    have "int (length ?l2) - 1 - j \<le> countL L (drop (nat (j + 1)) ?l2)"
      by (rule countL_ge_suffix [OF hi]) (use j ll2 in simp_all)
    also have "\<dots> \<le> countL L ?l2" by (rule countL_drop_le)
    finally have "n - 1 - j \<le> countL L ?l2" using ll2 by simp
    then have "2 ^ b \<le> ?M - k2 + countL L (drop (nat 0) ?l2)" using b(2) by simp
    moreover have "?l2 ! nat j' = L \<or> ?M - k2 < share L (?l2 ! nat j')" if "0 \<le> j'" "j' < n" for j'
      using low high that by (cases "j' \<le> j") auto
    ultimately show "0 \<le> n \<and>
           (\<exists>b. ?M - k2 < 2 ^ b \<and> 2 ^ b \<le> ?M - k2 + countL L (drop (nat 0) ?l2)) \<and>
           (\<forall>j. 0 \<le> j \<and> j < n \<longrightarrow> ?l2 ! nat j = L \<or> ?M - k2 < share L (?l2 ! nat j))"
      using b(1) n2 by auto
  qed
  have z: "(0 :: int) \<le> 0" by simp
  from reclaim_spec [OF g2 L n2 z r2 k2 le2 h3] obtain len3
    where c3: "reclaim ?M q n 0 (len2, k2) = Some (len3, ?M)"
      and g3: "good_queue q len3 n" and l3: "length len3 = length len2"
      and u3: "\<forall>s. 0 \<le> s \<and> s \<notin> set q \<longrightarrow> len3 ! nat s = len2 ! nat s"
      and r3: "\<forall>l \<in> set (pos_lens len3 q). 1 \<le> l \<and> l \<le> L"
      and k3: "ksum L (pos_lens len3 q) = ?M"
    by blast
  have v1: "0 < n - 1 \<longrightarrow> (0 :: int) \<le> 0 \<and> n - 1 < int (length q)" using lq by simp
  have v2: "\<forall>x \<in> set q. 0 \<le> x \<and> x < int (length len3)" using g3 by (simp add: good_queue_def)
  from qsort_spec [OF v1 v2] n2 obtain q'
    where c4: "zultra_huffman_encoder_qsort len3 q 0 (n - 1) = Some q'"
      and sp: "seg_perm 0 (n - 1) q q'"
      and so: "\<forall>i j. 0 \<le> i \<and> i \<le> j \<and> j \<le> n - 1 \<longrightarrow> len3 ! nat (q' ! nat i) \<le> len3 ! nat (q' ! nat j)"
    by auto
  have ms: "mset q' = mset q" using sp by (simp add: seg_perm_def)
  have g4: "good_queue q' len3 n" by (rule good_queue_perm [OF g3 ms])
  have sq: "set (pos_lens len3 q') = set (pos_lens len3 q)"
    using pos_lens_mset [OF ms, of len3] by (metis set_mset_mset)
  have k4: "ksum L (pos_lens len3 q') = ?M"
    using ksum_mset [OF pos_lens_mset [OF ms, of len3], of L] k3 by simp
  have run: "limit_lengths L q len = Some (len3, q')"
    unfolding limit_lengths_def using shl c1 c2 c3 c4 lq by (simp add: Let_def)
  have "length len3 = length len" using l1 l2 l3 by simp
  moreover have "\<forall>s. 0 \<le> s \<and> s \<notin> set q \<longrightarrow> len3 ! nat s = len ! nat s" using u1 u2 u3 by simp
  moreover have "\<forall>l \<in> set (pos_lens len3 q'). 1 \<le> l \<and> l \<le> L" using r3 sq by simp
  moreover have "\<forall>i j. 0 \<le> i \<and> i \<le> j \<and> j < n \<longrightarrow> len3 ! nat (q' ! nat i) \<le> len3 ! nat (q' ! nat j)"
    using so by simp
  ultimately show ?thesis using run g4 ms k4 by blast
qed

lemma ksum_real:
  assumes "\<forall>l \<in> set ls. 0 \<le> l \<and> l \<le> L"
  shows "real_of_int (ksum L ls) = 2 ^ nat L * wsum ls"
  using assms
proof (induction ls)
  case Nil
  show ?case by (simp add: ksum_def wsum_def)
next
  case (Cons l ls)
  have "real_of_int (share L l) = 2 ^ nat L * (1 / 2) ^ nat l"
    by (rule share_real) (use Cons.prems in simp_all)
  moreover have "real_of_int (ksum L ls) = 2 ^ nat L * wsum ls" using Cons by simp
  ultimately show ?case by (simp add: ksum_def wsum_def algebra_simps)
qed

lemma wsum_queue:
  assumes "distinct q"
  shows "wsum (pos_lens len q) = (\<Sum>s \<in> set q. (1 / 2 :: real) ^ nat (len ! nat s))"
proof -
  have "wsum (pos_lens len q) = sum_list (map (\<lambda>s. (1 / 2 :: real) ^ nat (len ! nat s)) q)"
    by (simp add: wsum_def pos_lens_def comp_def)
  also have "\<dots> = (\<Sum>s \<in> set q. (1 / 2 :: real) ^ nat (len ! nat s))"
    by (rule sum_list_distinct_conv_sum_set [OF assms])
  finally show ?thesis .
qed

lemma issue_loop_ok:
  assumes "int (length q) = n" and "\<forall>s \<in> set q. 0 \<le> s \<and> s < int (length len) \<and> s < int (length cw)"
    and "0 \<le> i"
    and "\<forall>j. 0 \<le> j \<and> j < n \<longrightarrow> 1 \<le> len ! nat (q ! nat j) \<and> len ! nat (q ! nat j) \<le> 16"
    and "\<forall>j j'. 0 \<le> j \<and> j \<le> j' \<and> j' < n \<longrightarrow> len ! nat (q ! nat j) \<le> len ! nat (q ! nat j')"
    and "i < n \<longrightarrow> cl = len ! nat (q ! nat i)"
  shows "\<exists>cw'. issue_loop len q n i (cw, c, cl) = Some cw' \<and> length cw' = length cw"
  using assms
proof (induction len q n i "(cw, c, cl)" arbitrary: cw c cl rule: issue_loop.induct)
  case (1 len q n i cw c cl)
  show ?case
  proof (cases "i < n")
    case False
    then show ?thesis by (subst issue_loop.simps) simp
  next
    case True
    let ?s = "q ! nat i"
    have iq: "nat i < length q" using True "1.prems"(1,3) by simp
    have sin: "?s \<in> set q" using iq by simp
    have s: "0 \<le> ?s" "?s < int (length len)" "?s < int (length cw)" using "1.prems"(2) sin by simp_all
    have cl: "cl = len ! nat ?s" using "1.prems"(6) True by simp
    have rng: "1 \<le> cl" "cl \<le> 16" using "1.prems"(4) True "1.prems"(3) cl by simp_all
    have g1: "arr_get q i = Some ?s" using "1.prems"(1,3) True by (simp add: arr_get_Some)
    have g2: "word_shr (rev16 c) (16 - cl) = Some (drop_bit (nat (16 - cl)) (rev16 c))"
      using rng by (simp add: word_shr_def)
    let ?cw1 = "cw[nat ?s := drop_bit (nat (16 - cl)) (rev16 c)]"
    have g3: "arr_set cw ?s (drop_bit (nat (16 - cl)) (rev16 c)) = Some ?cw1"
      using s by (simp add: arr_set_Some)
    show ?thesis
    proof (cases "i + 1 < n")
      case nxt: True
      let ?s' = "q ! nat (i + 1)"
      let ?new = "len ! nat ?s'"
      have iq': "nat (i + 1) < length q" using nxt "1.prems"(1,3) by simp
      have sin': "?s' \<in> set q" using iq' by simp
      have s': "0 \<le> ?s'" "?s' < int (length len)" using "1.prems"(2) sin' by simp_all
      have h1: "arr_get q (i + 1) = Some ?s'" using "1.prems"(1,3) nxt by (simp add: arr_get_Some)
      have h2: "arr_get len ?s' = Some ?new" using s' by (simp add: arr_get_Some)
      have up: "cl \<le> ?new" using "1.prems"(5) "1.prems"(3) nxt cl by simp
      have hi: "?new \<le> 16" using "1.prems"(4) "1.prems"(3) nxt by simp
      have h3: "word_shl (c + 1) (?new - cl) = Some (push_bit (nat (?new - cl)) (c + 1))"
        using up hi rng by (simp add: word_shl_def)
      have step: "issue_step len q n i (cw, c, cl) = Some (?cw1, push_bit (nat (?new - cl)) (c + 1), ?new)"
        unfolding issue_step_def using g1 g2 g3 h1 h2 h3 nxt by simp
      have q2: "\<forall>s \<in> set q. 0 \<le> s \<and> s < int (length len) \<and> s < int (length ?cw1)"
        using "1.prems"(2) by simp
      have i2: "0 \<le> i + 1" using "1.prems"(3) by simp
      have c2: "i + 1 < n \<longrightarrow> ?new = len ! nat (q ! nat (i + 1))" by simp
      from "1.hyps" [OF True step "1.prems"(1) q2 i2 "1.prems"(4,5) c2]
      obtain cw' where "issue_loop len q n (i + 1) (?cw1, push_bit (nat (?new - cl)) (c + 1), ?new) = Some cw'"
        and "length cw' = length ?cw1" by blast
      then show ?thesis using True step by (subst issue_loop.simps) simp
    next
      case lastp: False
      have step: "issue_step len q n i (cw, c, cl) = Some (?cw1, c, cl)"
        unfolding issue_step_def using g1 g2 g3 lastp by simp
      have "issue_loop len q n (i + 1) (?cw1, c, cl) = Some ?cw1"
        using lastp by (subst issue_loop.simps) simp
      then show ?thesis using True step by (subst issue_loop.simps) simp
    qed
  qed
qed

lemma build_spec:
  assumes sy: "0 \<le> nSymbols enc" "nSymbols enc \<le> MAX_SYMBOLS"
    and le: "length (nEntropy enc) = nat MAX_SYMBOLS"
    and lw: "length (nCodeWord enc) = nat MAX_SYMBOLS"
    and L: "1 \<le> nMaxCodeLength enc" "nMaxCodeLength enc \<le> 16"
    and two: "2 \<le> int (length (used_syms (nEntropy enc) (nSymbols enc)))"
    and fit: "int (length (used_syms (nEntropy enc) (nSymbols enc))) \<le> 2 ^ nat (nMaxCodeLength enc)"
  shows "\<exists>enc'. zultra_huffman_encoder_build_dynamic_codewords enc = Some (0, enc') \<and>
           length (nCodeLength enc') = nat MAX_SYMBOLS \<and>
           (\<forall>s. 0 \<le> s \<and> s < nSymbols enc \<and> nEntropy enc ! nat s = 0 \<longrightarrow> nCodeLength enc' ! nat s = 0) \<and>
           (\<forall>s. 0 \<le> s \<and> s < nSymbols enc \<and> nEntropy enc ! nat s \<noteq> 0
                \<longrightarrow> 1 \<le> nCodeLength enc' ! nat s \<and> nCodeLength enc' ! nat s \<le> nMaxCodeLength enc) \<and>
           kraft_sum (nMaxCodeLength enc) (take (nat (nSymbols enc)) (nCodeLength enc'))
             = 2 ^ nat (nMaxCodeLength enc) \<and>
           nSymbols enc' = nSymbols enc \<and> nMaxCodeLength enc' = nMaxCodeLength enc \<and>
           nEntropy enc' = nEntropy enc \<and> length (nCodeWord enc') = nat MAX_SYMBOLS"
proof -
  let ?ent = "nEntropy enc" and ?N = "nSymbols enc" and ?L = "nMaxCodeLength enc"
  let ?q = "used_syms ?ent ?N"
  let ?n = "int (length ?q)"
  have M: "MAX_SYMBOLS = 288" by (simp add: MAX_SYMBOLS_def)
  have L30: "?L \<le> 30" using L by simp
  from estimate_spec [OF sy le two] obtain len0
    where est: "zultra_huffman_encoder_estimate_dynamic_codelens enc = Some (0, enc \<lparr> nCodeLength := len0 \<rparr>)"
      and ll0: "length len0 = nat MAX_SYMBOLS"
      and z0: "\<forall>s. 0 \<le> s \<and> s < MAX_SYMBOLS \<and> s \<notin> set ?q \<longrightarrow> len0 ! nat s = 0"
      and p0: "\<forall>s \<in> set ?q. 1 \<le> len0 ! nat s"
      and kr0: "(\<Sum>s \<in> set ?q. (1 / 2 :: real) ^ nat (len0 ! nat s)) = 1"
    by blast
  have same: "\<forall>s. 0 \<le> s \<and> s < ?N \<longrightarrow> (len0 ! nat s \<noteq> 0) = (?ent ! nat s \<noteq> 0)"
  proof (intro allI impI)
    fix s assume s: "0 \<le> s \<and> s < ?N"
    show "(len0 ! nat s \<noteq> 0) = (?ent ! nat s \<noteq> 0)"
    proof (cases "s \<in> set ?q")
      case True
      then have "?ent ! nat s \<noteq> 0" by (simp add: used_syms_set)
      moreover have "1 \<le> len0 ! nat s" using p0 True by simp
      ultimately show ?thesis by simp
    next
      case False
      then have "?ent ! nat s = 0" using s by (simp add: used_syms_set)
      moreover have "len0 ! nat s = 0" using z0 False s sy by simp
      ultimately show ?thesis by simp
    qed
  qed
  have uq: "used_syms len0 ?N = ?q" by (rule used_syms_cong [OF same])
  have enum: "enum_nonzero len0 ?N 0 [] = Some ?q"
    using enum_nonzero_spec [of 0 ?N len0 "[]"] sy ll0 M uq by (simp add: used_syms_def)
  have vq: "\<forall>x \<in> set ?q. 0 \<le> x \<and> x < int (length len0)"
    using sy ll0 M by (auto simp add: used_syms_set)
  have gq: "good_queue ?q len0 ?n" using vq by (simp add: good_queue_def used_syms_distinct)
  have v1: "0 < ?n - 1 \<longrightarrow> (0 :: int) \<le> 0 \<and> ?n - 1 < int (length ?q)" by simp
  from qsort_spec [OF v1 vq] two obtain q1
    where sort: "zultra_huffman_encoder_qsort len0 ?q 0 (?n - 1) = Some q1"
      and sp: "seg_perm 0 (?n - 1) ?q q1"
      and so: "\<forall>i j. 0 \<le> i \<and> i \<le> j \<and> j \<le> ?n - 1 \<longrightarrow> len0 ! nat (q1 ! nat i) \<le> len0 ! nat (q1 ! nat j)"
    by auto
  have ms1: "mset q1 = mset ?q" using sp by (simp add: seg_perm_def)
  have g1: "good_queue q1 len0 ?n" by (rule good_queue_perm [OF gq ms1])
  have lq1: "int (length q1) = ?n" and dq1: "distinct q1" using g1 by (simp_all add: good_queue_def)
  have sq1: "set q1 = set ?q" using ms1 by (metis set_mset_mset)
  let ?s = "q1 ! nat (?n - 1)"
  let ?l = "len0 ! nat ?s"
  have lastq: "arr_get q1 (?n - 1) = Some ?s"
  proof (rule arr_get_Some)
    show "0 \<le> ?n - 1" using two by linarith
    show "?n - 1 < int (length q1)" using lq1 by linarith
  qed
  have "nat (?n - 1) < length q1" using lq1 two by linarith
  then have sin: "?s \<in> set q1" by (rule nth_mem)
  have lastl: "arr_get len0 ?s = Some ?l" using sin sq1 vq by (simp add: arr_get_Some)
  have pl: "\<forall>l \<in> set (pos_lens len0 q1). 1 \<le> l" using p0 sq1 by (simp add: pos_lens_def)
  have srt: "\<forall>i j. 0 \<le> i \<and> i \<le> j \<and> j < ?n \<longrightarrow> pos_lens len0 q1 ! nat i \<le> pos_lens len0 q1 ! nat j"
  proof (intro allI impI)
    fix i j assume a: "0 \<le> i \<and> i \<le> j \<and> j < ?n"
    then have "len0 ! nat (q1 ! nat i) \<le> len0 ! nat (q1 ! nat j)" using so by simp
    then show "pos_lens len0 q1 ! nat i \<le> pos_lens len0 q1 ! nat j"
      using a lq1 by (simp add: pos_lens_nth)
  qed
  have kr: "wsum (pos_lens len0 q1) = 1" using wsum_queue [OF dq1, of len0] kr0 sq1 by simp
  have choice: "\<exists>len' q'.
      (if ?l > ?L then limit_lengths ?L q1 len0 else Some (len0, q1)) = Some (len', q') \<and>
      good_queue q' len' ?n \<and> mset q' = mset q1 \<and> length len' = length len0 \<and>
      (\<forall>s. 0 \<le> s \<and> s \<notin> set q1 \<longrightarrow> len' ! nat s = len0 ! nat s) \<and>
      (\<forall>l \<in> set (pos_lens len' q'). 1 \<le> l \<and> l \<le> ?L) \<and>
      ksum ?L (pos_lens len' q') = 2 ^ nat ?L \<and>
      (\<forall>i j. 0 \<le> i \<and> i \<le> j \<and> j < ?n \<longrightarrow> len' ! nat (q' ! nat i) \<le> len' ! nat (q' ! nat j))"
  proof (cases "?l > ?L")
    case True
    have "?l \<in> set (pos_lens len0 q1)" using sin by (simp add: pos_lens_def)
    then have over: "\<exists>l \<in> set (pos_lens len0 q1). ?L < l" using True by blast
    from limit_lengths_spec [OF g1 two L(1) L30 fit pl srt kr over] True show ?thesis by simp
  next
    case False
    have rng: "\<forall>l \<in> set (pos_lens len0 q1). 1 \<le> l \<and> l \<le> ?L"
    proof
      fix l assume "l \<in> set (pos_lens len0 q1)"
      then obtain s where s: "s \<in> set q1" "l = len0 ! nat s" by (auto simp add: pos_lens_def)
      then obtain j where j: "j < length q1" "q1 ! j = s" by (auto simp add: in_set_conv_nth)
      have "0 \<le> int j \<and> int j \<le> ?n - 1 \<and> ?n - 1 \<le> ?n - 1" using j(1) lq1 by linarith
      then have "len0 ! nat (q1 ! nat (int j)) \<le> len0 ! nat (q1 ! nat (?n - 1))"
        using so by blast
      then have "l \<le> ?l" using j(2) s(2) by simp
      moreover have "1 \<le> l" using p0 s sq1 by simp
      ultimately show "1 \<le> l \<and> l \<le> ?L" using False by simp
    qed
    have r0: "\<forall>l \<in> set (pos_lens len0 q1). 0 \<le> l \<and> l \<le> ?L" using rng by auto
    have "real_of_int (ksum ?L (pos_lens len0 q1)) = real_of_int (2 ^ nat ?L)"
      using ksum_real [OF r0] kr by simp
    then have ks: "ksum ?L (pos_lens len0 q1) = 2 ^ nat ?L" by (simp only: of_int_eq_iff)
    have "\<forall>i j. 0 \<le> i \<and> i \<le> j \<and> j < ?n \<longrightarrow> len0 ! nat (q1 ! nat i) \<le> len0 ! nat (q1 ! nat j)"
      using so by simp
    then show ?thesis using False g1 rng ks by simp
  qed
  then obtain len' q' where
      ch: "(if ?l > ?L then limit_lengths ?L q1 len0 else Some (len0, q1)) = Some (len', q')"
      and g2: "good_queue q' len' ?n" and ms2: "mset q' = mset q1" and ll': "length len' = length len0"
      and un: "\<forall>s. 0 \<le> s \<and> s \<notin> set q1 \<longrightarrow> len' ! nat s = len0 ! nat s"
      and rng: "\<forall>l \<in> set (pos_lens len' q'). 1 \<le> l \<and> l \<le> ?L"
      and ks: "ksum ?L (pos_lens len' q') = 2 ^ nat ?L"
      and so': "\<forall>i j. 0 \<le> i \<and> i \<le> j \<and> j < ?n \<longrightarrow> len' ! nat (q' ! nat i) \<le> len' ! nat (q' ! nat j)"
    by blast
  have lq': "int (length q') = ?n" and dq': "distinct q'"
    and vq': "\<forall>s \<in> set q'. 0 \<le> s \<and> s < int (length len')" using g2 by (simp_all add: good_queue_def)
  have sq': "set q' = set ?q" using ms2 sq1 by (metis set_mset_mset)
  have el: "1 \<le> len' ! nat s \<and> len' ! nat s \<le> ?L" if "s \<in> set q'" for s
    using rng that by (simp add: pos_lens_def)
  let ?s0 = "q' ! nat 0"
  have f0: "arr_get q' 0 = Some ?s0"
  proof (rule arr_get_Some)
    show "(0 :: int) \<le> 0" by simp
    show "0 < int (length q')" using lq' two by linarith
  qed
  have "nat 0 < length q'" using lq' two by linarith
  then have s0in: "?s0 \<in> set q'" by (rule nth_mem)
  have f1: "arr_get len' ?s0 = Some (len' ! nat ?s0)" using vq' s0in by (simp add: arr_get_Some)
  have i2: "\<forall>s \<in> set q'. 0 \<le> s \<and> s < int (length len') \<and> s < int (length (nCodeWord enc))"
    using vq' ll' ll0 lw by simp
  have i4: "\<forall>j. 0 \<le> j \<and> j < ?n \<longrightarrow> 1 \<le> len' ! nat (q' ! nat j) \<and> len' ! nat (q' ! nat j) \<le> 16"
  proof (intro allI impI)
    fix j assume "0 \<le> j \<and> j < ?n"
    then have "nat j < length q'" using lq' by linarith
    then have "q' ! nat j \<in> set q'" by (rule nth_mem)
    from el [OF this] L(2) show "1 \<le> len' ! nat (q' ! nat j) \<and> len' ! nat (q' ! nat j) \<le> 16" by simp
  qed
  have i6: "0 < ?n \<longrightarrow> len' ! nat ?s0 = len' ! nat (q' ! nat 0)" by simp
  have z: "(0 :: int) \<le> 0" by simp
  from issue_loop_ok [OF lq' i2 z i4 so' i6, of 0] obtain cw
    where iss: "issue_loop len' q' ?n 0 (nCodeWord enc, 0, len' ! nat ?s0) = Some cw"
      and lcw: "length cw = length (nCodeWord enc)" by blast
  have npos: "?n > 0" using two by linarith
  have run: "zultra_huffman_encoder_build_dynamic_codewords enc
             = Some (0, enc \<lparr> nCodeLength := len0, nCodeWord := cw, nCodeLength := len' \<rparr>)"
  proof (cases "?l > ?L")
    case True
    then have lim: "limit_lengths ?L q1 len0 = Some (len', q')" using ch by simp
    show ?thesis
      unfolding zultra_huffman_encoder_build_dynamic_codewords_def
      using est enum sort lastq lastl lim f0 f1 iss npos L(1) True by (simp add: Let_def)
  next
    case False
    then have e: "len0 = len'" "q1 = q'" using ch by simp_all
    show ?thesis
      unfolding zultra_huffman_encoder_build_dynamic_codewords_def
      using est enum sort lastq lastl f0 f1 iss npos L(1) False unfolding e by (simp add: Let_def)
  qed
  have m: "0 \<le> ?N" "?N \<le> int (length len')" using sy ll' ll0 M by simp_all
  have inq: "\<forall>s \<in> set q'. 0 \<le> s \<and> s < ?N \<and> len' ! nat s \<noteq> 0"
  proof
    fix s assume s: "s \<in> set q'"
    then have "0 \<le> s \<and> s < ?N" using sq' by (simp add: used_syms_set)
    moreover have "len' ! nat s \<noteq> 0" using el [OF s] by simp
    ultimately show "0 \<le> s \<and> s < ?N \<and> len' ! nat s \<noteq> 0" by simp
  qed
  have out: "\<forall>s. 0 \<le> s \<and> s < ?N \<and> s \<notin> set q' \<longrightarrow> len' ! nat s = 0"
  proof (intro allI impI)
    fix s assume s: "0 \<le> s \<and> s < ?N \<and> s \<notin> set q'"
    then have "len' ! nat s = len0 ! nat s" using un sq' sq1 by simp
    moreover have "len0 ! nat s = 0" using z0 s sq' sy by simp
    ultimately show "len' ! nat s = 0" by simp
  qed
  have kt: "kraft_sum ?L (take (nat ?N) len') = 2 ^ nat ?L"
    using kraft_table [OF m dq' inq out, of ?L] ks by simp
  have zero: "len' ! nat s = 0" if "0 \<le> s \<and> s < ?N \<and> ?ent ! nat s = 0" for s
  proof -
    have "s \<notin> set q'" using that sq' by (simp add: used_syms_set)
    then show ?thesis using out that by simp
  qed
  have used: "1 \<le> len' ! nat s \<and> len' ! nat s \<le> ?L" if "0 \<le> s \<and> s < ?N \<and> ?ent ! nat s \<noteq> 0" for s
  proof -
    have "s \<in> set q'" using that sq' by (simp add: used_syms_set)
    then show ?thesis by (rule el)
  qed
  show ?thesis using run kt zero used ll' ll0 lcw lw by simp
qed

subsection \<open>The distance tables of a dynamic block\<close>

lemma used_syms_two:
  assumes "0 \<le> a" "a < N" "0 \<le> b" "b < N" "a \<noteq> b" "arr ! nat a \<noteq> 0" "arr ! nat b \<noteq> 0"
  shows "2 \<le> int (length (used_syms arr N))"
proof -
  have "{a, b} \<subseteq> set (used_syms arr N)" using assms by (simp add: used_syms_set)
  then have "card {a, b} \<le> card (set (used_syms arr N))" by (intro card_mono) simp_all
  moreover have "card {a, b} = 2" using assms(5) by simp
  moreover have "card (set (used_syms arr N)) = length (used_syms arr N)"
    by (rule distinct_card [OF used_syms_distinct])
  ultimately show ?thesis by simp
qed

lemma used_syms_twoD:
  assumes "2 \<le> int (length (used_syms arr N))"
  shows "\<exists>a b. 0 \<le> a \<and> a < b \<and> b < N \<and> arr ! nat a \<noteq> 0 \<and> arr ! nat b \<noteq> 0"
proof -
  let ?q = "used_syms arr N"
  have l: "0 < length ?q" "1 < length ?q" using assms by linarith+
  have d: "?q ! 0 \<noteq> ?q ! 1" using used_syms_distinct [of arr N] l by (simp add: nth_eq_iff_index_eq)
  have "?q ! 0 \<in> set ?q" "?q ! 1 \<in> set ?q" using l by simp_all
  then have m: "0 \<le> ?q ! 0" "?q ! 0 < N" "arr ! nat (?q ! 0) \<noteq> 0"
    "0 \<le> ?q ! 1" "?q ! 1 < N" "arr ! nat (?q ! 1) \<noteq> 0"
    by (simp_all add: used_syms_set)
  show ?thesis
  proof (cases "?q ! 0 < ?q ! 1")
    case True
    then show ?thesis using m by blast
  next
    case False
    then have "?q ! 1 < ?q ! 0" using d by simp
    then show ?thesis using m by blast
  qed
qed

lemma count_offset_lens_spec:
  assumes "0 \<le> i" and "NOFFSETSYMS - 2 \<le> int (length ent)" and "0 \<le> k"
  shows "\<exists>k' J. count_offset_lens ent i k = Some k' \<and> k \<le> k' \<and>
           finite J \<and> J \<subseteq> {j. i \<le> j \<and> j < NOFFSETSYMS - 2 \<and> ent ! nat j \<noteq> 0} \<and>
           int (card J) = k' - k \<and>
           (k' < 2 \<longrightarrow> J = {j. i \<le> j \<and> j < NOFFSETSYMS - 2 \<and> ent ! nat j \<noteq> 0})"
  using assms
proof (induction ent i k rule: count_offset_lens.induct)
  case (1 ent i k)
  let ?S = "\<lambda>i. {j. i \<le> j \<and> j < NOFFSETSYMS - 2 \<and> ent ! nat j \<noteq> 0}"
  show ?case
  proof (cases "k < 2 \<and> i < NOFFSETSYMS - 2")
    case False
    have r: "count_offset_lens ent i k = Some k"
      using False by (subst count_offset_lens.simps) auto
    have e: "k < 2 \<longrightarrow> {} = ?S i" using False by auto
    have "finite ({} :: int set) \<and> {} \<subseteq> ?S i \<and> int (card ({} :: int set)) = k - k \<and>
          (k < 2 \<longrightarrow> {} = ?S i)" using e by simp
    then show ?thesis using r by blast
  next
    case True
    have g: "arr_get ent i = Some (ent ! nat i)"
      using True "1.prems" by (intro arr_get_Some) linarith+
    let ?k1 = "if ent ! nat i \<noteq> 0 then k + 1 else k"
    have step: "count_offset_lens ent i k = count_offset_lens ent (i + 1) ?k1"
      using True g by (subst count_offset_lens.simps) simp
    have i1: "0 \<le> i + 1" and k1: "0 \<le> ?k1" using "1.prems" by simp_all
    from "1.IH" [OF True g i1 "1.prems"(2) k1]
    obtain k' J where r: "count_offset_lens ent (i + 1) ?k1 = Some k'" and le: "?k1 \<le> k'"
      and J: "finite J" "J \<subseteq> ?S (i + 1)" "int (card J) = k' - ?k1"
      and full: "k' < 2 \<longrightarrow> J = ?S (i + 1)"
      by blast
    have r': "count_offset_lens ent i k = Some k'" using step r by simp
    show ?thesis
    proof (cases "ent ! nat i \<noteq> 0")
      case nz: True
      have ni: "i \<notin> J" using J(2) by auto
      have a: "finite (insert i J)" using J(1) by simp
      have b: "insert i J \<subseteq> ?S i" using J(2) nz True by auto
      have c: "int (card (insert i J)) = k' - k" using J(1,3) ni nz by simp
      have d: "k \<le> k'" using le nz by simp
      have e: "k' < 2 \<longrightarrow> insert i J = ?S i"
      proof
        assume "k' < 2"
        then have "J = ?S (i + 1)" using full by simp
        moreover have "?S i = insert i (?S (i + 1))" using nz True by auto
        ultimately show "insert i J = ?S i" by simp
      qed
      show ?thesis using r' a b c d e by blast
    next
      case z: False
      have b: "J \<subseteq> ?S i" using J(2) by auto
      have c: "int (card J) = k' - k" using J(3) z by simp
      have d: "k \<le> k'" using le z by simp
      have e: "k' < 2 \<longrightarrow> J = ?S i"
      proof
        assume "k' < 2"
        then have "J = ?S (i + 1)" using full by simp
        moreover have "?S i = ?S (i + 1)"
        proof -
          have "j \<noteq> i" if "ent ! nat j \<noteq> 0" for j using that z by auto
          then show ?thesis by (auto simp add: order_le_less)
        qed
        ultimately show "J = ?S i" by simp
      qed
      show ?thesis using r' J(1) b c d e by blast
    qed
  qed
qed

lemma offset_floor_spec:
  assumes "length ent = nat MAX_SYMBOLS"
  shows "\<exists>ent'. offset_floor ent = Some ent' \<and> length ent' = nat MAX_SYMBOLS \<and>
           2 \<le> int (length (used_syms ent' NOFFSETSYMS)) \<and>
           (\<forall>s. 2 \<le> s \<longrightarrow> ent' ! nat s = ent ! nat s) \<and>
           (\<forall>s. 0 \<le> s \<and> s < 2 \<longrightarrow> ent' ! nat s = ent ! nat s \<or> ent' ! nat s = 1) \<and>
           (2 \<le> int (length (used_syms ent (NOFFSETSYMS - 2))) \<longrightarrow> ent' = ent)"
proof -
  have M: "MAX_SYMBOLS = 288" "NOFFSETSYMS = 32" by (simp_all add: MAX_SYMBOLS_def NOFFSETSYMS_def)
  have le: "NOFFSETSYMS - 2 \<le> int (length ent)" using assms M by simp
  have z: "(0 :: int) \<le> 0" by simp
  from count_offset_lens_spec [OF z le z]
  obtain n J where c: "count_offset_lens ent 0 0 = Some n" and n0: "0 \<le> n"
    and J: "finite J" "J \<subseteq> {j. 0 \<le> j \<and> j < NOFFSETSYMS - 2 \<and> ent ! nat j \<noteq> 0}" "int (card J) = n - 0"
    and full: "n < 2 \<longrightarrow> J = {j. 0 \<le> j \<and> j < NOFFSETSYMS - 2 \<and> ent ! nat j \<noteq> 0}"
    by blast
  have few: "\<not> 2 \<le> int (length (used_syms ent (NOFFSETSYMS - 2)))" if "n < 2"
  proof -
    have "set (used_syms ent (NOFFSETSYMS - 2)) = J" using full that by (simp add: used_syms_set)
    then have "card J = length (used_syms ent (NOFFSETSYMS - 2))"
      using distinct_card [OF used_syms_distinct, of ent "NOFFSETSYMS - 2"] by simp
    then show ?thesis using J(3) that by simp
  qed
  have upd: "(\<forall>s. 2 \<le> s \<longrightarrow> e ! nat s = ent ! nat s) \<and>
             (\<forall>s. 0 \<le> s \<and> s < 2 \<longrightarrow> e ! nat s = ent ! nat s \<or> e ! nat s = 1)"
    if "e = ent[nat 1 := 1, nat 0 := 1] \<or> e = ent[nat 1 := 1] \<or> e = ent[nat 0 := 1]" for e
  proof -
    have len: "1 < length ent" "0 < length ent" using assms by (simp_all add: MAX_SYMBOLS_def)
    have cases2: "s = 0 \<or> s = 1" if "0 \<le> s \<and> s < 2" for s :: int using that by linarith
    have far: "e ! nat s = ent ! nat s" if "2 \<le> s" for s
    proof -
      have "nat s \<noteq> 0" "nat s \<noteq> 1" using that by simp_all
      then show ?thesis using \<open>e = ent[nat 1 := 1, nat 0 := 1] \<or> e = ent[nat 1 := 1] \<or> e = ent[nat 0 := 1]\<close>
        by auto
    qed
    have near: "e ! nat s = ent ! nat s \<or> e ! nat s = 1" if "0 \<le> s \<and> s < 2" for s
      using cases2 [OF that] len \<open>e = ent[nat 1 := 1, nat 0 := 1] \<or> e = ent[nat 1 := 1] \<or> e = ent[nat 0 := 1]\<close>
      by (auto simp add: nth_list_update)
    show ?thesis using far near by blast
  qed
  have s0: "arr_set xs 0 v = Some (xs[nat 0 := v])" if "length xs = nat MAX_SYMBOLS" for xs :: "int list" and v
    using that M by (intro arr_set_Some) simp_all
  have s1: "arr_set xs 1 v = Some (xs[nat 1 := v])" if "length xs = nat MAX_SYMBOLS" for xs :: "int list" and v
    using that M by (intro arr_set_Some) simp_all
  have g0: "arr_get ent 0 = Some (ent ! nat 0)" using assms M by (intro arr_get_Some) simp_all
  consider "n = 0" | "n = 1" | "2 \<le> n" using n0 by linarith
  then show ?thesis
  proof cases
    case 1
    let ?e = "ent[nat 1 := 1, nat 0 := 1]"
    have "offset_floor ent = Some ?e"
      unfolding offset_floor_def using c 1 s1 [OF assms] s0 [of "ent[nat 1 := 1]"] assms by simp
    moreover have "2 \<le> int (length (used_syms ?e NOFFSETSYMS))"
      by (rule used_syms_two [of 0 _ 1]) (use assms M in simp_all)
    moreover have "length ?e = nat MAX_SYMBOLS" using assms by simp
    ultimately show ?thesis using upd [of ?e] few 1 by (metis zero_less_numeral)
  next
    case 2
    then have "card J = 1" using J(3) by simp
    then obtain j where j: "J = {j}" by (auto simp add: card_1_singleton_iff)
    then have jj: "0 \<le> j" "j < NOFFSETSYMS - 2" "ent ! nat j \<noteq> 0" using J(2) by auto
    show ?thesis
    proof (cases "ent ! nat 0 \<noteq> 0")
      case True
      let ?e = "ent[nat 1 := 1]"
      have "offset_floor ent = Some ?e"
        unfolding offset_floor_def using c 2 g0 True s1 [OF assms] by simp
      moreover have "2 \<le> int (length (used_syms ?e NOFFSETSYMS))"
        by (rule used_syms_two [of 0 _ 1]) (use assms M True in simp_all)
      moreover have "length ?e = nat MAX_SYMBOLS" using assms by simp
      moreover have "n < 2" using 2 by simp
      ultimately show ?thesis using upd [of ?e] few by metis
    next
      case False
      let ?e = "ent[nat 0 := 1]"
      have j0: "j \<noteq> 0" using jj(3) False by auto
      have "offset_floor ent = Some ?e"
        unfolding offset_floor_def using c 2 g0 False s0 [OF assms] by simp
      moreover have "2 \<le> int (length (used_syms ?e NOFFSETSYMS))"
        by (rule used_syms_two [of 0 _ j]) (use assms M jj j0 in simp_all)
      moreover have "length ?e = nat MAX_SYMBOLS" using assms by simp
      moreover have "n < 2" using 2 by simp
      ultimately show ?thesis using upd [of ?e] few by metis
    qed
  next
    case 3
    then have "2 \<le> card J" using J(3) by simp
    then obtain a b where ab: "a \<in> J" "b \<in> J" "a \<noteq> b"
      by (metis card_2_iff' card_le_Suc0_iff_eq J(1) not_less_eq_eq numeral_2_eq_2)
    then have a: "0 \<le> a" "a < NOFFSETSYMS - 2" "ent ! nat a \<noteq> 0"
      and b: "0 \<le> b" "b < NOFFSETSYMS - 2" "ent ! nat b \<noteq> 0" using J(2) by auto
    have "offset_floor ent = Some ent"
      unfolding offset_floor_def using c 3 by simp
    moreover have "2 \<le> int (length (used_syms ent NOFFSETSYMS))"
      by (rule used_syms_two [of a _ b]) (use a b ab(3) in simp_all)
    ultimately show ?thesis using assms by simp
  qed
qed

lemma used_syms_le: "0 \<le> N \<Longrightarrow> int (length (used_syms arr N)) \<le> N"
proof -
  assume "0 \<le> N"
  have "length (used_syms arr N) \<le> length [0..N - 1]" unfolding used_syms_def by (rule length_filter_le)
  then show ?thesis using \<open>0 \<le> N\<close> by simp
qed

lemma used_syms_trim:
  assumes "0 \<le> m" and "m \<le> N" and "\<forall>j. m \<le> j \<and> j < N \<longrightarrow> arr ! nat j = 0"
  shows "used_syms arr m = used_syms arr N"
proof -
  have "[0..N - 1] = [0..m - 1] @ [m..N - 1]"
  proof (cases "m = 0")
    case True
    then show ?thesis by simp
  next
    case False
    then have "0 \<le> m - 1" "m - 1 \<le> N - 1" using assms(1,2) by simp_all
    from upto_split2 [OF this] show ?thesis by simp
  qed
  moreover have "filter (\<lambda>s. arr ! nat s \<noteq> 0) [m..N - 1] = []"
    using assms(3) by (intro filter_False) auto
  ultimately show ?thesis by (simp add: used_syms_def)
qed

lemma defined_lengths_loop_spec:
  assumes "nMin \<le> i" and "0 \<le> nMin" and "i \<le> int (length len)"
  shows "\<exists>m. defined_lengths_loop len nMin i = Some m \<and> nMin \<le> m \<and> m \<le> i \<and>
           (\<forall>j. m \<le> j \<and> j < i \<longrightarrow> len ! nat j = 0)"
  using assms
proof (induction len nMin i rule: defined_lengths_loop.induct)
  case (1 len nMin i)
  show ?case
  proof (cases "i > nMin")
    case False
    then have "defined_lengths_loop len nMin i = Some i" by (subst defined_lengths_loop.simps) simp
    then show ?thesis using "1.prems" by simp
  next
    case True
    have g: "arr_get len (i - 1) = Some (len ! nat (i - 1))"
      using True "1.prems" by (intro arr_get_Some) linarith+
    show ?thesis
    proof (cases "len ! nat (i - 1) = 0")
      case nz: False
      then have "defined_lengths_loop len nMin i = Some i"
        using True g by (subst defined_lengths_loop.simps) simp
      then show ?thesis using "1.prems" by simp
    next
      case z: True
      have step: "defined_lengths_loop len nMin i = defined_lengths_loop len nMin (i - 1)"
        using True g z by (subst defined_lengths_loop.simps) simp
      have p: "nMin \<le> i - 1" "i - 1 \<le> int (length len)" using True "1.prems" by simp_all
      from "1.IH" [OF True g z p(1) "1.prems"(2) p(2)]
      obtain m where m: "defined_lengths_loop len nMin (i - 1) = Some m" "nMin \<le> m" "m \<le> i - 1"
        "\<forall>j. m \<le> j \<and> j < i - 1 \<longrightarrow> len ! nat j = 0" by blast
      have "len ! nat j = 0" if "m \<le> j \<and> j < i" for j
      proof (cases "j = i - 1")
        case True
        then show ?thesis using z by simp
      next
        case False
        then show ?thesis using m(4) that by simp
      qed
      then show ?thesis using step m(1,2,3) by auto
    qed
  qed
qed

lemma defined_count_spec:
  assumes "0 \<le> nSymbols enc" and "nSymbols enc \<le> int (length (nCodeLength enc))"
    and "2 \<le> int (length (used_syms (nCodeLength enc) (nSymbols enc)))"
  shows "\<exists>m. zultra_huffman_encoder_get_defined_var_lengths_count enc 1 = Some m \<and>
           2 \<le> m \<and> m \<le> nSymbols enc \<and>
           used_syms (nCodeLength enc) m = used_syms (nCodeLength enc) (nSymbols enc)"
proof -
  let ?N = "nSymbols enc" and ?len = "nCodeLength enc"
  have N2: "2 \<le> ?N" using used_syms_le [OF assms(1), of ?len] assms(3) by linarith
  then have a: "1 \<le> ?N" by simp
  have o: "(0 :: int) \<le> 1" by simp
  from defined_lengths_loop_spec [OF a o assms(2)]
  obtain m where m: "defined_lengths_loop ?len 1 ?N = Some m" "1 \<le> m" "m \<le> ?N"
    "\<forall>j. m \<le> j \<and> j < ?N \<longrightarrow> ?len ! nat j = 0" by blast
  have m0: "0 \<le> m" using m(2) by simp
  have eq: "used_syms ?len m = used_syms ?len ?N" by (rule used_syms_trim [OF m0 m(3,4)])
  have "int (length (used_syms ?len ?N)) \<le> m" using used_syms_le [OF m0, of ?len] unfolding eq .
  then have "2 \<le> m" using assms(3) by linarith
  then show ?thesis
    unfolding zultra_huffman_encoder_get_defined_var_lengths_count_def using m(1,3) eq by simp
qed

lemma built_tables:
  assumes "nSymbols enc = NOFFSETSYMS" and "nMaxCodeLength enc = 15"
    and "length (nEntropy enc) = nat MAX_SYMBOLS" and "length (nCodeWord enc) = nat MAX_SYMBOLS"
    and "2 \<le> int (length (used_syms (nEntropy enc) NOFFSETSYMS))"
  shows "\<exists>enc'. zultra_huffman_encoder_build_dynamic_codewords enc = Some (0, enc') \<and>
           nSymbols enc' = NOFFSETSYMS \<and> nMaxCodeLength enc' = 15 \<and> nEntropy enc' = nEntropy enc \<and>
           length (nCodeWord enc') = nat MAX_SYMBOLS \<and> length (nCodeLength enc') = nat MAX_SYMBOLS \<and>
           used_syms (nCodeLength enc') NOFFSETSYMS = used_syms (nEntropy enc) NOFFSETSYMS"
proof -
  have M: "MAX_SYMBOLS = 288" "NOFFSETSYMS = 32" by (simp_all add: MAX_SYMBOLS_def NOFFSETSYMS_def)
  have sy: "0 \<le> nSymbols enc" "nSymbols enc \<le> MAX_SYMBOLS" using assms(1) M by simp_all
  have L: "1 \<le> nMaxCodeLength enc" "nMaxCodeLength enc \<le> 16" using assms(2) by simp_all
  have two: "2 \<le> int (length (used_syms (nEntropy enc) (nSymbols enc)))" using assms(1,5) by simp
  have "int (length (used_syms (nEntropy enc) (nSymbols enc))) \<le> 32"
    using used_syms_le [of "nSymbols enc" "nEntropy enc"] sy(1) assms(1) M by simp
  then have fit: "int (length (used_syms (nEntropy enc) (nSymbols enc))) \<le> 2 ^ nat (nMaxCodeLength enc)"
    using assms(2) by simp
  from build_spec [OF sy assms(3,4) L two fit] obtain enc'
    where run: "zultra_huffman_encoder_build_dynamic_codewords enc = Some (0, enc')"
      and ll: "length (nCodeLength enc') = nat MAX_SYMBOLS"
      and z: "\<forall>s. 0 \<le> s \<and> s < nSymbols enc \<and> nEntropy enc ! nat s = 0 \<longrightarrow> nCodeLength enc' ! nat s = 0"
      and p: "\<forall>s. 0 \<le> s \<and> s < nSymbols enc \<and> nEntropy enc ! nat s \<noteq> 0
                \<longrightarrow> 1 \<le> nCodeLength enc' ! nat s \<and> nCodeLength enc' ! nat s \<le> nMaxCodeLength enc"
      and same: "nSymbols enc' = nSymbols enc" "nMaxCodeLength enc' = nMaxCodeLength enc"
        "nEntropy enc' = nEntropy enc" "length (nCodeWord enc') = nat MAX_SYMBOLS"
    by blast
  have "\<forall>s. 0 \<le> s \<and> s < NOFFSETSYMS \<longrightarrow> (nCodeLength enc' ! nat s \<noteq> 0) = (nEntropy enc ! nat s \<noteq> 0)"
  proof (intro allI impI)
    fix s assume s: "0 \<le> s \<and> s < NOFFSETSYMS"
    show "(nCodeLength enc' ! nat s \<noteq> 0) = (nEntropy enc ! nat s \<noteq> 0)"
    proof (cases "nEntropy enc ! nat s = 0")
      case True
      then show ?thesis using z s assms(1) by simp
    next
      case False
      then have "1 \<le> nCodeLength enc' ! nat s" using p s assms(1) by simp
      then show ?thesis using False by simp
    qed
  qed
  then have "used_syms (nCodeLength enc') NOFFSETSYMS = used_syms (nEntropy enc) NOFFSETSYMS"
    by (rule used_syms_cong)
  then show ?thesis using run ll same assms(1,2) by simp
qed

lemma final_offset_tables_spec:
  assumes "nSymbols enc = NOFFSETSYMS" and "nMaxCodeLength enc = 15"
    and "length (nEntropy enc) = nat MAX_SYMBOLS" and "length (nCodeWord enc) = nat MAX_SYMBOLS"
    and "\<forall>ent. length ent = nat MAX_SYMBOLS \<and> 2 \<le> int (length (used_syms ent NOFFSETSYMS)) \<longrightarrow>
               length (optimize_for_rle NOFFSETSYMS ent) = nat MAX_SYMBOLS \<and>
               2 \<le> int (length (used_syms (optimize_for_rle NOFFSETSYMS ent) NOFFSETSYMS))"
  shows "\<exists>ent' fin nOffsetSyms.
           offset_floor (nEntropy enc) = Some ent' \<and>
           (\<forall>s. 2 \<le> s \<longrightarrow> ent' ! nat s = nEntropy enc ! nat s) \<and>
           (\<forall>s. 0 \<le> s \<and> s < 2 \<longrightarrow> ent' ! nat s = nEntropy enc ! nat s \<or> ent' ! nat s = 1) \<and>
           (2 \<le> int (length (used_syms (nEntropy enc) (NOFFSETSYMS - 2))) \<longrightarrow> ent' = nEntropy enc) \<and>
           2 \<le> int (length (used_syms ent' NOFFSETSYMS)) \<and>
           final_offset_tables optimize_for_rle cheaper enc
             = Some ((if nOffsetSyms > NVALIDOFFSETSYMS then -1 else 0), fin, nOffsetSyms) \<and>
           2 \<le> nOffsetSyms \<and> nOffsetSyms \<le> NOFFSETSYMS \<and>
           2 \<le> int (length (used_syms (nCodeLength fin) nOffsetSyms))"
proof -
  have M: "MAX_SYMBOLS = 288" "NOFFSETSYMS = 32" by (simp_all add: MAX_SYMBOLS_def NOFFSETSYMS_def)
  from offset_floor_spec [OF assms(3)] obtain ent'
    where fl: "offset_floor (nEntropy enc) = Some ent'" and le: "length ent' = nat MAX_SYMBOLS"
      and two: "2 \<le> int (length (used_syms ent' NOFFSETSYMS))"
      and far: "\<forall>s. 2 \<le> s \<longrightarrow> ent' ! nat s = nEntropy enc ! nat s"
      and near: "\<forall>s. 0 \<le> s \<and> s < 2 \<longrightarrow> ent' ! nat s = nEntropy enc ! nat s \<or> ent' ! nat s = 1"
      and keep: "2 \<le> int (length (used_syms (nEntropy enc) (NOFFSETSYMS - 2))) \<longrightarrow> ent' = nEntropy enc"
    by blast
  let ?e1 = "enc \<lparr> nEntropy := ent' \<rparr>"
  have a1: "nSymbols ?e1 = NOFFSETSYMS" "nMaxCodeLength ?e1 = 15" "length (nEntropy ?e1) = nat MAX_SYMBOLS"
    "length (nCodeWord ?e1) = nat MAX_SYMBOLS" "2 \<le> int (length (used_syms (nEntropy ?e1) NOFFSETSYMS))"
    using assms(1,2,4) le two by simp_all
  from built_tables [OF a1] obtain cur
    where b1: "zultra_huffman_encoder_build_dynamic_codewords ?e1 = Some (0, cur)"
      and c1: "nSymbols cur = NOFFSETSYMS" "nMaxCodeLength cur = 15" "nEntropy cur = ent'"
        "length (nCodeWord cur) = nat MAX_SYMBOLS" "length (nCodeLength cur) = nat MAX_SYMBOLS"
        "used_syms (nCodeLength cur) NOFFSETSYMS = used_syms ent' NOFFSETSYMS"
    by auto
  let ?r = "optimize_for_rle NOFFSETSYMS ent'"
  have rl: "length ?r = nat MAX_SYMBOLS" "2 \<le> int (length (used_syms ?r NOFFSETSYMS))"
    using assms(5) le two by blast+
  let ?e2 = "cur \<lparr> nEntropy := ?r \<rparr>"
  have a2: "nSymbols ?e2 = NOFFSETSYMS" "nMaxCodeLength ?e2 = 15" "length (nEntropy ?e2) = nat MAX_SYMBOLS"
    "length (nCodeWord ?e2) = nat MAX_SYMBOLS" "2 \<le> int (length (used_syms (nEntropy ?e2) NOFFSETSYMS))"
    using c1 rl by simp_all
  from built_tables [OF a2] obtain opt
    where b2: "zultra_huffman_encoder_build_dynamic_codewords ?e2 = Some (0, opt)"
      and c2: "nSymbols opt = NOFFSETSYMS" "length (nCodeLength opt) = nat MAX_SYMBOLS"
        "used_syms (nCodeLength opt) NOFFSETSYMS = used_syms ?r NOFFSETSYMS"
    by auto
  let ?fin = "if cheaper then opt else cur"
  have f: "nSymbols ?fin = NOFFSETSYMS" "length (nCodeLength ?fin) = nat MAX_SYMBOLS"
    "2 \<le> int (length (used_syms (nCodeLength ?fin) NOFFSETSYMS))"
    using c1 c2 two rl by simp_all
  have d1: "0 \<le> nSymbols ?fin" "nSymbols ?fin \<le> int (length (nCodeLength ?fin))"
    "2 \<le> int (length (used_syms (nCodeLength ?fin) (nSymbols ?fin)))"
    using f M by simp_all
  from defined_count_spec [OF d1] obtain m
    where m: "zultra_huffman_encoder_get_defined_var_lengths_count ?fin 1 = Some m"
      "2 \<le> m" "m \<le> nSymbols ?fin"
      "used_syms (nCodeLength ?fin) m = used_syms (nCodeLength ?fin) (nSymbols ?fin)"
    by blast
  have run: "final_offset_tables optimize_for_rle cheaper enc
             = Some ((if m > NVALIDOFFSETSYMS then -1 else 0), ?fin, m)"
    unfolding final_offset_tables_def using fl b1 b2 [unfolded c1(3)] m(1) c1(3) by (simp add: Let_def)
  have "2 \<le> int (length (used_syms (nCodeLength ?fin) m))" using m(4) d1(3) by simp
  moreover have "m \<le> NOFFSETSYMS" using m(3) f(1) by simp
  ultimately show ?thesis using fl far near keep two run m(2) by blast
qed

chapter \<open>Part III: the claims\<close>

subsection \<open>C1: the Kraft equality of the dynamic code\<close>

text \<open>
  C1. Take an encoder whose three arrays have \<^verbatim>\<open>MAX_SYMBOLS\<close> entries, with
  \<open>0 \<le> nSymbols \<le> MAX_SYMBOLS\<close> and a maximum code length \<open>L\<close> from 1 to 16 (the program
  uses 15 and 7; the codeword loop shifts by \<open>16 - length\<close>). Let the entropies be counts,
  none negative and with a total below \<open>2\<^sup>3\<^sup>1\<close>, of which at least two below \<^verbatim>\<open>nSymbols\<close>
  are not zero, and no more than \<open>2\<^sup>L\<close> (no code of depth \<open>L\<close> has more leaves). Then
  \<^verbatim>\<open>zultra_huffman_encoder_build_dynamic_codewords\<close> returns 0 without reading or writing
  outside its arrays; a symbol with entropy zero gets the length 0, every other symbol
  a length from 1 to \<open>L\<close>; and the lengths satisfy the Kraft equality exactly: the sum of
  \<open>2\<^sup>L\<^sup>-\<^sup>l\<close> over the symbols with a nonzero length \<open>l\<close> is \<open>2\<^sup>L\<close>.
\<close>

theorem kraft_equality:
  assumes "0 \<le> nSymbols enc" and "nSymbols enc \<le> MAX_SYMBOLS"
    and "length (nEntropy enc) = nat MAX_SYMBOLS"
    and "length (nCodeWord enc) = nat MAX_SYMBOLS"
    and "1 \<le> nMaxCodeLength enc" and "nMaxCodeLength enc \<le> 16"
    and "2 \<le> int (length (used_syms (nEntropy enc) (nSymbols enc)))"
    and "int (length (used_syms (nEntropy enc) (nSymbols enc))) \<le> 2 ^ nat (nMaxCodeLength enc)"
    and "\<forall>e \<in> set (nEntropy enc). 0 \<le> e" and "sum_list (nEntropy enc) < 2 ^ 31"
  shows "\<exists>enc'. zultra_huffman_encoder_build_dynamic_codewords enc = Some (0, enc') \<and>
           length (nCodeLength enc') = nat MAX_SYMBOLS \<and>
           (\<forall>s. 0 \<le> s \<and> s < nSymbols enc \<and> nEntropy enc ! nat s = 0 \<longrightarrow> nCodeLength enc' ! nat s = 0) \<and>
           (\<forall>s. 0 \<le> s \<and> s < nSymbols enc \<and> nEntropy enc ! nat s \<noteq> 0
                \<longrightarrow> 1 \<le> nCodeLength enc' ! nat s \<and> nCodeLength enc' ! nat s \<le> nMaxCodeLength enc) \<and>
           kraft_sum (nMaxCodeLength enc) (take (nat (nSymbols enc)) (nCodeLength enc'))
             = 2 ^ nat (nMaxCodeLength enc)"
  using build_spec [OF assms(1-8)] by blast

theorem kraft_equality_witness:
  "\<exists>enc'. zultra_huffman_encoder_build_dynamic_codewords ex_counts_encoder = Some (0, enc') \<and>
          nCodeLength enc' ! 1 = 0 \<and>
          1 \<le> nCodeLength enc' ! 0 \<and> 1 \<le> nCodeLength enc' ! 2 \<and> 1 \<le> nCodeLength enc' ! 3 \<and>
          kraft_sum 15 (take 4 (nCodeLength enc')) = 2 ^ 15"
proof -
  have u: "used_syms (nEntropy ex_counts_encoder) (nSymbols ex_counts_encoder) = [0, 2, 3]"
    by (simp add: used_syms_def ex_counts_encoder_def upto_rec1)
  have "\<exists>enc'. zultra_huffman_encoder_build_dynamic_codewords ex_counts_encoder = Some (0, enc') \<and>
           length (nCodeLength enc') = nat MAX_SYMBOLS \<and>
           (\<forall>s. 0 \<le> s \<and> s < nSymbols ex_counts_encoder \<and> nEntropy ex_counts_encoder ! nat s = 0
                \<longrightarrow> nCodeLength enc' ! nat s = 0) \<and>
           (\<forall>s. 0 \<le> s \<and> s < nSymbols ex_counts_encoder \<and> nEntropy ex_counts_encoder ! nat s \<noteq> 0
                \<longrightarrow> 1 \<le> nCodeLength enc' ! nat s \<and> nCodeLength enc' ! nat s \<le> nMaxCodeLength ex_counts_encoder) \<and>
           kraft_sum (nMaxCodeLength ex_counts_encoder) (take (nat (nSymbols ex_counts_encoder)) (nCodeLength enc'))
             = 2 ^ nat (nMaxCodeLength ex_counts_encoder)"
    by (rule kraft_equality) (simp_all add: u, simp_all add: ex_counts_encoder_def MAX_SYMBOLS_def sum_list_replicate)
  then obtain enc' where run: "zultra_huffman_encoder_build_dynamic_codewords ex_counts_encoder = Some (0, enc')"
    and z: "\<forall>s. 0 \<le> s \<and> s < nSymbols ex_counts_encoder \<and> nEntropy ex_counts_encoder ! nat s = 0
                \<longrightarrow> nCodeLength enc' ! nat s = 0"
    and p: "\<forall>s. 0 \<le> s \<and> s < nSymbols ex_counts_encoder \<and> nEntropy ex_counts_encoder ! nat s \<noteq> 0
                \<longrightarrow> 1 \<le> nCodeLength enc' ! nat s \<and> nCodeLength enc' ! nat s \<le> nMaxCodeLength ex_counts_encoder"
    and k: "kraft_sum (nMaxCodeLength ex_counts_encoder) (take (nat (nSymbols ex_counts_encoder)) (nCodeLength enc'))
             = 2 ^ nat (nMaxCodeLength ex_counts_encoder)"
    by blast
  have "nCodeLength enc' ! 1 = 0" using z [rule_format, of 1] by (simp add: ex_counts_encoder_def)
  moreover have "1 \<le> nCodeLength enc' ! 0" using p [rule_format, of 0] by (simp add: ex_counts_encoder_def)
  moreover have "1 \<le> nCodeLength enc' ! 2" using p [rule_format, of 2] by (simp add: ex_counts_encoder_def)
  moreover have "1 \<le> nCodeLength enc' ! 3" using p [rule_format, of 3] by (simp add: ex_counts_encoder_def)
  moreover have "kraft_sum 15 (take 4 (nCodeLength enc')) = 2 ^ 15" using k by (simp add: ex_counts_encoder_def)
  ultimately show ?thesis using run by blast
qed

subsection \<open>C2: the last byte of a sub-range is a literal\<close>

lemma ex_parse_eval:
  "map (\<lambda>i. uint (match_length (best_match (zultra_optimize_matches_lwd ex_block ex_window 1 7) i)))
     [1, 2, 3, 4, 5, 6] = [4, 0, 0, 0, 0, 0]"
  by code_simp

text \<open>
  C2. For every sub-range \<open>[s, e)\<close> with \<open>e > s\<close>, whatever the match table holds, after
  \<^verbatim>\<open>zultra_optimize_matches_lwd\<close> the slot chosen for position \<open>e - 1\<close> has length 0, every
  slot chosen at a position \<open>i\<close> of the range satisfies \<open>i + length \<le> e - 1\<close>, and the walk
  over the parse that the emitter performs ends with a token that starts at \<open>e - 1\<close> and
  is a literal.
\<close>

theorem last_byte_is_literal:
  assumes "nStartOffset < nEndOffset"
  shows "match_length (best_match (zultra_optimize_matches_lwd c pInWindow nStartOffset nEndOffset)
                         (nEndOffset - 1)) = 0 \<and>
         (\<forall>i. nStartOffset \<le> i \<and> i < nEndOffset \<longrightarrow>
               i + uint (match_length
                           (best_match (zultra_optimize_matches_lwd c pInWindow nStartOffset nEndOffset) i))
                 \<le> nEndOffset - 1) \<and>
         token_starts (best_match (zultra_optimize_matches_lwd c pInWindow nStartOffset nEndOffset))
            nStartOffset nEndOffset \<noteq> [] \<and>
         last (token_starts (best_match (zultra_optimize_matches_lwd c pInWindow nStartOffset nEndOffset))
                 nStartOffset nEndOffset) = nEndOffset - 1"
proof -
  let ?best = "best_match (zultra_optimize_matches_lwd c pInWindow nStartOffset nEndOffset)"
  have ok: "parse_ok nStartOffset nEndOffset ?best"
    using assms by (rule optimize_parse_ok)
  have "nEndOffset - 1 + uint (match_length (?best (nEndOffset - 1))) \<le> nEndOffset - 1"
    using ok assms unfolding parse_ok_def by simp
  then have "uint (match_length (?best (nEndOffset - 1))) = 0"
    using uint_ge_0 [of "match_length (?best (nEndOffset - 1))"] by linarith
  then have "match_length (?best (nEndOffset - 1)) = 0"
    by (simp add: uint_0_iff)
  moreover have "\<forall>i. nStartOffset \<le> i \<and> i < nEndOffset \<longrightarrow>
                     i + uint (match_length (?best i)) \<le> nEndOffset - 1"
    using ok unfolding parse_ok_def .
  moreover have "token_starts ?best nStartOffset nEndOffset \<noteq> [] \<and>
                 last (token_starts ?best nStartOffset nEndOffset) = nEndOffset - 1"
    using ok assms by (intro token_starts_last [where lo = nStartOffset]) simp_all
  ultimately show ?thesis by simp
qed

theorem last_byte_is_literal_witness:
  "(1 :: int) < 7 \<and>
   match_length (best_match (zultra_optimize_matches_lwd ex_block ex_window 1 7) 6) = 0 \<and>
   1 + uint (match_length (best_match (zultra_optimize_matches_lwd ex_block ex_window 1 7) 1)) \<le> 6 \<and>
   uint (match_length (best_match (zultra_optimize_matches_lwd ex_block ex_window 1 7) 1)) = 4 \<and>
   last (token_starts (best_match (zultra_optimize_matches_lwd ex_block ex_window 1 7)) 1 7) = 6"
proof -
  have h: "(1 :: int) < 7" by simp
  have "uint (match_length (best_match (zultra_optimize_matches_lwd ex_block ex_window 1 7) 1)) = 4"
    using ex_parse_eval by simp
  then show ?thesis
    using h last_byte_is_literal [OF h, of ex_block ex_window] by simp
qed

subsection \<open>C3: falling back to stored blocks\<close>




subsection \<open>C4: two distance symbols in every dynamic header\<close>

text \<open>
  C4. In the last convergence pass of \<^verbatim>\<open>zultra_block_deflate\<close> the distance encoder has 32
  symbols and 15 bits. Whatever entropies the final parse counted, the floor leaves them
  alone when two of the first 30 are nonzero and otherwise sets entry 0, entry 1 or both
  to 1, so that at least two distance symbols are in use. From there the final build
  succeeds, and so does the build of the copy whose entropies
  \<^verbatim>\<open>zultra_huffman_encoder_optimize_for_rle\<close> has rewritten; whichever of the two the cost
  comparison keeps, the count \<^verbatim>\<open>nOffsetSyms\<close> that the header declares is at least 2 and at
  least two of the first \<^verbatim>\<open>nOffsetSyms\<close> code lengths are nonzero. (The function returns
  -1, and writes no header, when \<^verbatim>\<open>nOffsetSyms\<close> exceeds 30.) The optimizer for run-length
  coding is declared in huffutils.h and defined outside the translated sources; it is a
  parameter, taken to turn a table with two nonzero distance counts into a table of the
  same size with two nonzero distance counts.
\<close>

theorem distance_floor:
  assumes "nSymbols enc = NOFFSETSYMS" and "nMaxCodeLength enc = 15"
    and "length (nEntropy enc) = nat MAX_SYMBOLS" and "length (nCodeWord enc) = nat MAX_SYMBOLS"
    and "\<forall>ent. length ent = nat MAX_SYMBOLS \<and> 2 \<le> int (length (used_syms ent NOFFSETSYMS)) \<longrightarrow>
               length (optimize_for_rle NOFFSETSYMS ent) = nat MAX_SYMBOLS \<and>
               2 \<le> int (length (used_syms (optimize_for_rle NOFFSETSYMS ent) NOFFSETSYMS))"
  shows "\<exists>ent' fin nOffsetSyms.
           offset_floor (nEntropy enc) = Some ent' \<and>
           (\<forall>s. 2 \<le> s \<longrightarrow> ent' ! nat s = nEntropy enc ! nat s) \<and>
           (\<forall>s. 0 \<le> s \<and> s < 2 \<longrightarrow> ent' ! nat s = nEntropy enc ! nat s \<or> ent' ! nat s = 1) \<and>
           (2 \<le> int (length (used_syms (nEntropy enc) (NOFFSETSYMS - 2))) \<longrightarrow> ent' = nEntropy enc) \<and>
           2 \<le> int (length (used_syms ent' NOFFSETSYMS)) \<and>
           final_offset_tables optimize_for_rle cheaper enc
             = Some ((if nOffsetSyms > NVALIDOFFSETSYMS then -1 else 0), fin, nOffsetSyms) \<and>
           2 \<le> nOffsetSyms \<and> nOffsetSyms \<le> NOFFSETSYMS \<and>
           2 \<le> int (length (used_syms (nCodeLength fin) nOffsetSyms))"
  by (rule final_offset_tables_spec [of enc optimize_for_rle cheaper, OF assms])

theorem distance_floor_witness:
  "\<exists>r fin nOffsetSyms.
     final_offset_tables (\<lambda>n ent. ent) False ex_offset_encoder = Some (r, fin, nOffsetSyms) \<and>
     2 \<le> nOffsetSyms \<and> nOffsetSyms \<le> 32 \<and>
     2 \<le> int (length (used_syms (nCodeLength fin) nOffsetSyms))"
proof -
  have "\<exists>ent' fin nOffsetSyms.
           offset_floor (nEntropy ex_offset_encoder) = Some ent' \<and>
           (\<forall>s. 2 \<le> s \<longrightarrow> ent' ! nat s = nEntropy ex_offset_encoder ! nat s) \<and>
           (\<forall>s. 0 \<le> s \<and> s < 2 \<longrightarrow> ent' ! nat s = nEntropy ex_offset_encoder ! nat s \<or> ent' ! nat s = 1) \<and>
           (2 \<le> int (length (used_syms (nEntropy ex_offset_encoder) (NOFFSETSYMS - 2)))
              \<longrightarrow> ent' = nEntropy ex_offset_encoder) \<and>
           2 \<le> int (length (used_syms ent' NOFFSETSYMS)) \<and>
           final_offset_tables (\<lambda>n ent. ent) False ex_offset_encoder
             = Some ((if nOffsetSyms > NVALIDOFFSETSYMS then -1 else 0), fin, nOffsetSyms) \<and>
           2 \<le> nOffsetSyms \<and> nOffsetSyms \<le> NOFFSETSYMS \<and>
           2 \<le> int (length (used_syms (nCodeLength fin) nOffsetSyms))"
    by (rule distance_floor [of ex_offset_encoder "\<lambda>n ent. ent" False])
       (simp_all add: ex_offset_encoder_def NOFFSETSYMS_def MAX_SYMBOLS_def)
  then show ?thesis by (auto simp add: NOFFSETSYMS_def)
qed

subsection \<open>C5: the output size bound\<close>

text \<open>
  C5, as amended. \<^verbatim>\<open>zultra_memory_bound\<close> multiplies the number of blocks by
  \<^verbatim>\<open>(1 + 4 + 1) * nMaxSplits\<close>, that is by 6 (not 5) times \<^verbatim>\<open>MAX_SPLITS\<close> = 64. For every
  input length, flags value and block size, with \<open>B\<close> the block size after defaulting
  and clamping, and provided \<open>in_len + B - 1\<close> does not wrap around in \<^verbatim>\<open>size_t\<close>, the
  function returns header_size + ceil(in_len / B) * (6 * MAX_SPLITS) + in_len + 1 +
  footer_size, as a \<^verbatim>\<open>size_t\<close> (modulo \<open>2 ^ 64\<close>).
\<close>

theorem memory_bound_formula:
  assumes "uint nInputSize + uint (effective_block_size B) - 1 < 2 ^ 64"
  shows "zultra_memory_bound get_header_size get_footer_size nInputSize nFlags B =
         word_of_int
           (get_header_size nFlags
            + \<lceil>real_of_int (uint nInputSize) / real_of_int (uint (effective_block_size B))\<rceil>
                * (6 * MAX_SPLITS)
            + uint nInputSize + 1 + get_footer_size nFlags)"
proof -
  let ?b = "effective_block_size B"
  have b: "32768 \<le> uint ?b" using effective_block_size_uint [of B] by simp
  have blocks: "(nInputSize + ucast (?b - 1)) div ucast ?b
                = (word_of_int ((uint nInputSize + uint ?b - 1) div uint ?b) :: 64 word)"
    using rounded_blocks_uint [OF b assms] by (metis word_of_int_uint)
  have ceil: "\<lceil>real_of_int (uint nInputSize) / real_of_int (uint ?b)\<rceil>
              = (uint nInputSize + uint ?b - 1) div uint ?b"
    using b by (intro ceil_div) simp
  have n: "nInputSize = word_of_int (uint nInputSize)" by simp
  have "zultra_memory_bound get_header_size get_footer_size nInputSize nFlags B =
        word_of_int (get_header_size nFlags)
        + ((nInputSize + ucast (?b - 1)) div ucast ?b) * (1 + 4 + 1) * word_of_int MAX_SPLITS
        + nInputSize + 1 + word_of_int (get_footer_size nFlags)"
    unfolding zultra_memory_bound_def Let_def clamp_is_effective ..
  also have "\<dots> = word_of_int (get_header_size nFlags)
        + word_of_int ((uint nInputSize + uint ?b - 1) div uint ?b) * 6 * word_of_int MAX_SPLITS
        + word_of_int (uint nInputSize) + 1 + word_of_int (get_footer_size nFlags)"
    unfolding blocks by simp
  also have "\<dots> = word_of_int
           (get_header_size nFlags
            + ((uint nInputSize + uint ?b - 1) div uint ?b) * (6 * MAX_SPLITS)
            + uint nInputSize + 1 + get_footer_size nFlags)"
    by (simp only: word_of_int_hom_syms word_of_int_numeral word_of_int_1 mult.assoc)
  finally show ?thesis unfolding ceil .
qed

theorem memory_bound_formula_witness:
  "uint (1 :: 64 word) + uint (effective_block_size 0) - 1 < 2 ^ 64 \<and>
   zultra_memory_bound spec_frame_get_header_size spec_frame_get_footer_size 1
     ZULTRA_FLAG_GZIP_FRAMING 0 = 404"
proof -
  have h: "uint (1 :: 64 word) + uint (effective_block_size 0) - 1 < 2 ^ 64"
    by (simp add: effective_block_size_def)
  have c: "\<lceil>real_of_int (uint (1 :: 64 word)) / real_of_int (uint (effective_block_size 0))\<rceil> = 1"
    by (simp add: effective_block_size_def ceiling_eq_iff)
  show ?thesis
    using h memory_bound_formula [OF h, of spec_frame_get_header_size
        spec_frame_get_footer_size ZULTRA_FLAG_GZIP_FRAMING]
    unfolding c
    by (simp add: spec_frame_get_header_size_def spec_frame_get_footer_size_def
        ZULTRA_FLAG_GZIP_FRAMING_def ZULTRA_FLAG_ZLIB_FRAMING_def MAX_SPLITS_def)
qed

text \<open>
  The claim as stated fails: for one input byte, gzip framing and the default block size
  the claimed value is 10 + 1 * (5 * 64) + 1 + 1 + 8 = 340, and the function returns 404.
\<close>

theorem memory_bound_counterexample:
  "zultra_memory_bound spec_frame_get_header_size spec_frame_get_footer_size 1
     ZULTRA_FLAG_GZIP_FRAMING 0
   \<noteq> word_of_int (spec_frame_get_header_size ZULTRA_FLAG_GZIP_FRAMING
                   + 1 * (5 * MAX_SPLITS) + 1 + 1
                   + spec_frame_get_footer_size ZULTRA_FLAG_GZIP_FRAMING)"
  by (simp add: zultra_memory_bound_def spec_frame_get_header_size_def
      spec_frame_get_footer_size_def ZULTRA_FLAG_GZIP_FRAMING_def ZULTRA_FLAG_ZLIB_FRAMING_def
      MAX_SPLITS_def ZULTRA_DEFAULT_MAX_BLOCK_SIZE_def)

subsection \<open>C6: what put_bits appends\<close>

lemma put_init_eval:
  "zultra_bitwriter_put_bits (zultra_bitwriter_init 0 0 4) zero_store 5 3
   = (0, \<lparr> nEncBitCount = 3, nEncBitsData = 5, pOutData = 0, nOutOffset = 0,
          nMaxOutDataOffset = 4 \<rparr>, zero_store)"
  by (simp add: zultra_bitwriter_put_bits_def zultra_bitwriter_init_def put_bits_loop_lt8)

text \<open>
  C6, as amended. \<^verbatim>\<open>zultra_bitwriter_put_bits\<close> ORs the whole of \<^verbatim>\<open>nValue\<close>, shifted by
  the pending count, into the accumulator: nothing masks it to \<^verbatim>\<open>nBits\<close> bits. For a
  writer with 0..7 pending bits and no stale bits in its accumulator, and
  \<open>0 \<le> nBits \<le> 16\<close>: the call returns 0 or -1; it returns -1 exactly when flushing
  the whole bytes of the \<open>count + nBits\<close> pending bits would pass \<^verbatim>\<open>nMaxOutDataOffset\<close>;
  on success the emitted stream (bytes least significant bit first, then the pending
  bits) is the old stream followed by the low \<open>nBits\<close> bits of the value, fewer than
  8 bits stay pending, and the accumulator is again free of stale bits provided the
  value fits in \<open>nBits\<close> bits. (When it does not fit, its upper bits stay in the
  accumulator and are ORed into what later calls write: see the counterexample.)
\<close>

theorem put_bits_appends:
  assumes "0 \<le> nEncBitCount bw" and "nEncBitCount bw \<le> 7"
    and "0 \<le> nOutOffset bw" and "nOutOffset bw \<le> nMaxOutDataOffset bw"
    and "bw_clean bw" and "0 \<le> nBits" and "nBits \<le> 16"
    and "zultra_bitwriter_put_bits bw m nValue nBits = (st, bw', m')"
  shows "(st = 0 \<or> st = -1) \<and>
         (st = -1 \<longleftrightarrow>
            nOutOffset bw + (nEncBitCount bw + nBits) div 8 > nMaxOutDataOffset bw) \<and>
         (st = 0 \<longrightarrow>
            bw_stream bw' m' = bw_stream bw m @ bits_of (nat nBits) nValue \<and>
            nEncBitCount bw' = (nEncBitCount bw + nBits) mod 8 \<and>
            nOutOffset bw' = nOutOffset bw + (nEncBitCount bw + nBits) div 8 \<and>
            nOutOffset bw' \<le> nMaxOutDataOffset bw' \<and>
            (take_bit (nat nBits) nValue = nValue \<longrightarrow> bw_clean bw'))"
proof -
  let ?c = "nEncBitCount bw" and ?d = "nEncBitsData bw"
  let ?bw1 = "bw \<lparr> nEncBitsData := ?d OR push_bit (nat ?c) nValue, nEncBitCount := ?c + nBits \<rparr>"
  have loop: "put_bits_loop ?bw1 m = (st, bw', m')"
    using assms(7,8) by (simp add: zultra_bitwriter_put_bits_def)
  have clean: "take_bit (nat ?c) ?d = ?d" using assms(5) by (simp add: bw_clean_def)
  have le32: "nat ?c + nat nBits \<le> 32" using assms(1,2,6,7) by simp
  have spec: "(st = 0 \<or> st = -1) \<and>
         (st = 0 \<longleftrightarrow> nOutOffset ?bw1 + nEncBitCount ?bw1 div 8 \<le> nMaxOutDataOffset ?bw1) \<and>
         (st = 0 \<longrightarrow>
            bw_stream bw' m' = bw_stream ?bw1 m \<and>
            nEncBitCount bw' = nEncBitCount ?bw1 mod 8 \<and>
            nOutOffset bw' = nOutOffset ?bw1 + nEncBitCount ?bw1 div 8 \<and>
            nEncBitsData bw' = drop_bit (8 * nat (nEncBitCount ?bw1 div 8)) (nEncBitsData ?bw1) \<and>
            pOutData bw' = pOutData ?bw1 \<and>
            nMaxOutDataOffset bw' = nMaxOutDataOffset ?bw1)"
    by (rule put_bits_loop_spec [OF loop]) (use assms in simp_all)
  have str1: "bw_stream ?bw1 m = bw_stream bw m @ bits_of (nat nBits) nValue"
    using bits_of_append_value [OF clean le32, of nValue] assms(1,6)
    by (simp add: bw_stream_def nat_add_distrib)
  have cl: "bw_clean bw'" if ok: "st = 0" and v: "take_bit (nat nBits) nValue = nValue"
  proof -
    let ?k = "nat ((?c + nBits) div 8)" and ?c' = "nat ((?c + nBits) mod 8)"
    have "8 * ?k + ?c' = nat ?c + nat nBits"
    proof -
      have "0 \<le> (?c + nBits) div 8" and "0 \<le> (?c + nBits) mod 8"
        using assms(1,6) by simp_all
      then have "int (8 * ?k + ?c') = 8 * ((?c + nBits) div 8) + (?c + nBits) mod 8"
        by simp
      also have "\<dots> = ?c + nBits" by simp
      finally show ?thesis using assms(1,6) by linarith
    qed
    from put_bits_clean [OF clean v this] spec ok show ?thesis
      by (simp add: bw_clean_def)
  qed
  from spec str1 cl show ?thesis by auto
qed

theorem put_bits_appends_witness:
  "bw_stream (fst (snd (zultra_bitwriter_put_bits (zultra_bitwriter_init 0 0 4) zero_store 5 3)))
             (snd (snd (zultra_bitwriter_put_bits (zultra_bitwriter_init 0 0 4) zero_store 5 3)))
   = [True, False, True]"
proof -
  let ?bw = "zultra_bitwriter_init 0 0 4"
  let ?r = "zultra_bitwriter_put_bits ?bw zero_store 5 3"
  have h: "0 \<le> nEncBitCount ?bw" "nEncBitCount ?bw \<le> 7" "0 \<le> nOutOffset ?bw"
    "nOutOffset ?bw \<le> nMaxOutDataOffset ?bw" "bw_clean ?bw" "(0::int) \<le> 3" "(3::int) \<le> 16"
    by (simp_all add: zultra_bitwriter_init_def bw_clean_def)
  have r: "?r = (fst ?r, fst (snd ?r), snd (snd ?r))" by simp
  have "bits_of (nat 3) (5 :: 32 word) = [True, False, True]"
    by code_simp
  moreover have "bw_stream ?bw zero_store = []"
    by (simp add: bw_stream_def zultra_bitwriter_init_def bits_of_def)
  moreover have "fst ?r = 0" by (simp add: put_init_eval)
  ultimately show ?thesis
    using put_bits_appends [OF h r] by simp
qed

text \<open>
  The claim as stated fails: 3 and 1 agree on their low bit, yet writing 1 bit of 3 and
  then 7 zero bits emits the byte 0x03, while writing 1 bit of 1 and then 7 zero bits
  emits 0x01. The bits of the value above \<^verbatim>\<open>nBits\<close> do reach the output.
\<close>

theorem put_bits_high_bits_counterexample:
  "take_bit 1 (3 :: 32 word) = take_bit 1 (1 :: 32 word) \<and> put_twice 3 1 0 7 \<noteq> put_twice 1 1 0 7"
  by code_simp

subsection \<open>C7: tie-breaking in the parser\<close>

lemma ex_tie_eval:
  "slot_candidates ex_tie_block (pos_data (zultra_optimize_matches_lwd ex_tie_block ex_window 1 7)) 1 7 0
     = [(30, 4, 1), (30, 3, 1)] \<and>
   parsed_at (zultra_optimize_matches_lwd ex_tie_block ex_window 1 7) 1 = (30, 4, 1)"
  by code_simp

text \<open>
  C7, as amended. At every position \<open>i\<close> of a sub-range \<open>[s, e)\<close> other than the last, the
  parser starts from the literal and replaces its running best only by a strictly cheaper
  candidate, so the first candidate of minimal cost wins. The literal comes first: a
  match is chosen only if it is strictly cheaper than the literal. Then come the table
  slots in table order (longest candidate first), and within a slot shorter than
  \<^verbatim>\<open>LEAVE_ALONE_MATCH_SIZE\<close> the lengths from the clamped length down to 3: of two
  lengths of one slot with the same total cost the longer one is chosen, and an earlier
  slot beats a later one of the same cost. Formally, with the final cost array: the chosen
  triple costs no more than the literal and than any candidate; it is the literal when no
  candidate is strictly cheaper than the literal, and otherwise the candidate \<open>cands ! j\<close>
  that is strictly cheaper than the literal and than every candidate before it.
\<close>

theorem first_candidate_wins:
  assumes "nStartOffset < nEndOffset" and "nStartOffset \<le> i" and "i \<le> nEndOffset - 2"
  shows "(let c' = zultra_optimize_matches_lwd c pInWindow nStartOffset nEndOffset;
              lit = literal_candidate c pInWindow (pos_data c') i;
              cands = position_candidates c (pos_data c') i nEndOffset;
              chosen = parsed_at c' i
          in fst chosen \<le> fst lit \<and> (\<forall>x \<in> set cands. fst chosen \<le> fst x) \<and>
             ((chosen = lit \<and> (\<forall>x \<in> set cands. fst lit \<le> fst x)) \<or>
              (\<exists>j < length cands. chosen = cands ! j \<and> fst chosen < fst lit \<and>
                   (\<forall>j' < j. fst chosen < fst (cands ! j')))) \<and>
             (\<forall>m. uint (match_length (match c (i * 8 + m))) < 40 \<longrightarrow>
                  map (\<lambda>x. fst (snd x)) (slot_candidates c (pos_data c') i nEndOffset m)
                  = rev [3..min (uint (match_length (match c (i * 8 + m)))) (nEndOffset - 1 - i)]))"
proof -
  let ?c' = "zultra_optimize_matches_lwd c pInWindow nStartOffset nEndOffset"
  let ?lit = "literal_candidate c pInWindow (pos_data ?c') i"
  let ?cands = "position_candidates c (pos_data ?c') i nEndOffset"
  have ch: "parsed_at ?c' i = foldl take_if_cheaper ?lit ?cands"
    using optimize_parse_opt [OF assms] by (simp add: chosen_at_def)
  have order: "\<forall>m. uint (match_length (match c (i * 8 + m))) < 40 \<longrightarrow>
                  map (\<lambda>x. fst (snd x)) (slot_candidates c (pos_data ?c') i nEndOffset m)
                  = rev [3..min (uint (match_length (match c (i * 8 + m)))) (nEndOffset - 1 - i)]"
  proof (intro allI impI)
    fix m assume "uint (match_length (match c (i * 8 + m))) < 40"
    then show "map (\<lambda>x. fst (snd x)) (slot_candidates c (pos_data ?c') i nEndOffset m)
                  = rev [3..min (uint (match_length (match c (i * 8 + m)))) (nEndOffset - 1 - i)]"
      by (auto simp add: slot_candidates_def Let_def rev_map [symmetric] comp_def min_def
          intro!: arg_cong [where f = rev])
  qed
  from foldl_take_if_cheaper [of ?lit ?cands] order show ?thesis
    unfolding Let_def ch by simp
qed

theorem first_candidate_wins_witness:
  "(1 :: int) < 7 \<and> (1 :: int) \<le> 1 \<and> (1 :: int) \<le> 7 - 2 \<and>
   fst (parsed_at (zultra_optimize_matches_lwd ex_tie_block ex_window 1 7) 1)
     \<le> fst (literal_candidate ex_tie_block ex_window
               (pos_data (zultra_optimize_matches_lwd ex_tie_block ex_window 1 7)) 1)"
proof -
  have h: "(1 :: int) < 7" "(1 :: int) \<le> 1" "(1 :: int) \<le> 7 - 2" by simp_all
  show ?thesis
    using h first_candidate_wins [OF h, of ex_tie_block ex_window]
    by (simp add: Let_def)
qed

text \<open>
  The claim as stated fails in its second half. In the block \<open>ex_tie_block\<close> the one
  candidate of position 1 is evaluated at length 4 and then at length 3; both cost 30
  bits in total (the literal costs 48), and the parser keeps length 4, the longer match.
\<close>

theorem shorter_match_counterexample:
  "map (\<lambda>x. (fst x, fst (snd x)))
     (slot_candidates ex_tie_block
        (pos_data (zultra_optimize_matches_lwd ex_tie_block ex_window 1 7)) 1 7 0)
     = [(30, 4), (30, 3)] \<and>
   fst (literal_candidate ex_tie_block ex_window
          (pos_data (zultra_optimize_matches_lwd ex_tie_block ex_window 1 7)) 1) = 48 \<and>
   fst (snd (parsed_at (zultra_optimize_matches_lwd ex_tie_block ex_window 1 7) 1)) = 4"
  by code_simp

subsection \<open>C8: compressing the empty input\<close>

text \<open>
  C8 does not hold of the code. \<^verbatim>\<open>zultra_stream_compress\<close> flushes the bit writer, marks
  the compression as finalised and hands over output bytes only inside
  \<^verbatim>\<open>if (nInDataSize > 0)\<close>; the footer is encoded only once the compression is marked as
  finalised. With no input at all, a finalising call therefore emits the stream header
  and nothing else: \<^verbatim>\<open>zultra_memory_compress\<close> on the empty input with gzip framing
  returns 10, having written the 10 header bytes; there is no deflate block, no CRC-32 and
  no ISIZE.
\<close>

theorem empty_gzip_is_header_only:
  "zultra_memory_compress spec_framing always_succeeds 0 () [] 20 ZULTRA_FLAG_GZIP_FRAMING 0
   = Some (Compressed 10 [0x1f, 0x8b, 0x08, 0, 0, 0, 0, 0, 0, 0xff])"
proof -
  have init: "zultra_stream_init always_succeeds 0 () ZULTRA_FLAG_GZIP_FRAMING 0
              = (ZULTRA_OK, Some (state (fresh_gzip_stream 20)))"
    by (simp add: fresh_gzip_stream_def zultra_stream_init_def always_succeeds_def)
  have strm: "\<lparr> next_in = [], total_in = 0, out_bytes = [], avail_out = 20, total_out = 0,
                 adler = 0, state = state (fresh_gzip_stream 20) \<rparr> = fresh_gzip_stream 20"
    by (simp add: fresh_gzip_stream_def)
  show ?thesis
    unfolding zultra_memory_compress_def init
    by (simp add: strm empty_stream_compress)
qed

subsection \<open>C9: out-of-range block sizes at initialisation\<close>

text \<open>
  C9, as amended. \<^verbatim>\<open>zultra_stream_init\<close> never rejects a block size: 0 selects the
  default 1048576, a size below 32768 is raised to 32768 and a size above 2097152 is
  lowered to 2097152. The call succeeds exactly when every allocation succeeds (and the
  suffix-array library initialises); the context then holds the clamped block size, which
  lies in 32768..2097152. Its only failure is \<^verbatim>\<open>ZULTRA_ERROR_MEMORY\<close>, with the context
  released.
\<close>

theorem stream_init_clamps_block_size:
  "zultra_stream_init zalloc divsufsort_init bs nFlags B =
     (if zalloc 0 \<and> zalloc 1 \<and> zalloc 2 \<and> divsufsort_init = 0 \<and>
         zalloc 3 \<and> zalloc 4 \<and> zalloc 5 \<and> zalloc 6 \<and> zalloc 7
      then (ZULTRA_OK,
            Some \<lparr> flags = nFlags,
                   max_block_size = effective_block_size B,
                   dictionary_data = None,
                   dictionary_size = 0,
                   in_data = (\<lambda>_. 0),
                   cur_in_bytes = 0,
                   previous_block_size = 0,
                   out_buffer = (\<lambda>_. 0),
                   cur_out_index = 0,
                   pending_out_bytes = 0,
                   bitwriter = zultra_bitwriter_init 0 0
                                 (out_buffer_size (uint (effective_block_size B))),
                   compression_state = 0,
                   cur_frame_index = 0,
                   pending_frame_bytes = 0,
                   frame_buffer = replicate 16 0,
                   block_state = bs \<rparr>)
      else (ZULTRA_ERROR_MEMORY, None))
   \<and> 32768 \<le> effective_block_size B \<and> effective_block_size B \<le> 2097152"
  unfolding zultra_stream_init_def Let_def clamp_is_effective
  using effective_block_size_range [of B] by simp

text \<open>
  The claim as stated fails: with a block size of 1 (below 32768), or of 4000000 (above
  2097152), and allocations that succeed, the call returns \<^verbatim>\<open>ZULTRA_OK\<close> with the block
  size clamped to 32768, respectively 2097152.
\<close>

theorem stream_init_counterexample:
  "fst (zultra_stream_init always_succeeds 0 () ZULTRA_FLAG_GZIP_FRAMING 1) = ZULTRA_OK \<and>
   map_option max_block_size
     (snd (zultra_stream_init always_succeeds 0 () ZULTRA_FLAG_GZIP_FRAMING 1)) = Some 32768 \<and>
   fst (zultra_stream_init always_succeeds 0 () ZULTRA_FLAG_GZIP_FRAMING 4000000) = ZULTRA_OK \<and>
   map_option max_block_size
     (snd (zultra_stream_init always_succeeds 0 () ZULTRA_FLAG_GZIP_FRAMING 4000000)) = Some 2097152"
  by (simp add: zultra_stream_init_def always_succeeds_def ZULTRA_DEFAULT_MAX_BLOCK_SIZE_def)

subsection \<open>C10: the bit writer's state invariant\<close>

lemma put_B3_eval:
  "zultra_bitwriter_put_bits
     \<lparr> nEncBitCount = 3, nEncBitsData = 5, pOutData = 0, nOutOffset = 0, nMaxOutDataOffset = 4 \<rparr>
     zero_store 5 3
   = (0, \<lparr> nEncBitCount = 6, nEncBitsData = 45, pOutData = 0, nOutOffset = 0,
          nMaxOutDataOffset = 4 \<rparr>, zero_store)"
  by (simp add: zultra_bitwriter_put_bits_def put_bits_loop_lt8)

lemma flush_B3_eval:
  "zultra_bitwriter_flush_bits
     \<lparr> nEncBitCount = 3, nEncBitsData = 5, pOutData = 0, nOutOffset = 0, nMaxOutDataOffset = 4 \<rparr>
     zero_store
   = (0, \<lparr> nEncBitCount = 0, nEncBitsData = 0, pOutData = 0, nOutOffset = 1,
          nMaxOutDataOffset = 4 \<rparr>, zero_store (0 := 5))"
  by (simp add: zultra_bitwriter_flush_bits_def)

text \<open>
  C10. The invariant "0..7 pending bits and \<^verbatim>\<open>nOutOffset\<close> at most
  \<^verbatim>\<open>nMaxOutDataOffset\<close>" holds after \<^verbatim>\<open>zultra_bitwriter_init\<close>, is kept by every
  successful \<^verbatim>\<open>zultra_bitwriter_put_bits\<close> and by every successful
  \<^verbatim>\<open>zultra_bitwriter_flush_bits\<close>. The operations are taken on their domain: the writer
  is initialised with an offset inside its buffer (the program's only call passes offset
  0), and \<^verbatim>\<open>zultra_bitwriter_put_bits\<close> is given a bit count from 0 to 16 (counts above 16
  are refused by the call itself, and no caller passes a negative one). Under the
  invariant the pending count is never above 8 (the first error branch of
  \<^verbatim>\<open>zultra_bitwriter_flush_bits\<close> is not taken), and a successful flush advances the
  offset by at most one and changes at most the one byte at the old offset.
\<close>

theorem bitwriter_invariant:
  "(nOutOfs \<le> nMax \<longrightarrow> bw_inv (zultra_bitwriter_init p nOutOfs nMax)) \<and>
   (bw_inv bw \<and> 0 \<le> nBits \<and> zultra_bitwriter_put_bits bw m nValue nBits = (0, bw', m')
      \<longrightarrow> bw_inv bw') \<and>
   (bw_inv bw \<longrightarrow> \<not> nEncBitCount bw > 8) \<and>
   (bw_inv bw \<and> zultra_bitwriter_flush_bits bw m = (0, bw'', m'')
      \<longrightarrow> bw_inv bw'' \<and> nOutOffset bw \<le> nOutOffset bw'' \<and> nOutOffset bw'' \<le> nOutOffset bw + 1 \<and>
          (\<forall>a. a \<noteq> pOutData bw + nOutOffset bw \<longrightarrow> m'' a = m a))"
proof (intro conjI impI)
  assume "nOutOfs \<le> nMax"
  then show "bw_inv (zultra_bitwriter_init p nOutOfs nMax)"
    by (simp add: bw_inv_def zultra_bitwriter_init_def)
next
  assume a: "bw_inv bw \<and> 0 \<le> nBits \<and> zultra_bitwriter_put_bits bw m nValue nBits = (0, bw', m')"
  then have "nBits \<le> 16"
    by (auto simp add: zultra_bitwriter_put_bits_def split: if_splits)
  with a have "put_bits_loop
      (bw \<lparr> nEncBitsData := nEncBitsData bw OR push_bit (nat (nEncBitCount bw)) nValue,
            nEncBitCount := nEncBitCount bw + nBits \<rparr>) m = (0, bw', m')"
    by (simp add: zultra_bitwriter_put_bits_def)
  then show "bw_inv bw'"
    by (rule put_bits_loop_inv) (use a in \<open>simp_all add: bw_inv_def\<close>)
next
  assume "bw_inv bw"
  then show "\<not> nEncBitCount bw > 8" by (simp add: bw_inv_def)
next
  assume a: "bw_inv bw \<and> zultra_bitwriter_flush_bits bw m = (0, bw'', m'')"
  then show "bw_inv bw''" and "nOutOffset bw \<le> nOutOffset bw''"
    and "nOutOffset bw'' \<le> nOutOffset bw + 1"
    and "\<forall>a. a \<noteq> pOutData bw + nOutOffset bw \<longrightarrow> m'' a = m a"
    by (auto simp add: bw_inv_def zultra_bitwriter_flush_bits_def split: if_splits)
qed

theorem bitwriter_invariant_witness:
  "bw_inv (zultra_bitwriter_init 0 0 4) \<and>
   bw_inv \<lparr> nEncBitCount = 6, nEncBitsData = 45, pOutData = 0, nOutOffset = 0,
           nMaxOutDataOffset = 4 \<rparr> \<and>
   bw_inv \<lparr> nEncBitCount = 0, nEncBitsData = 0, pOutData = 0, nOutOffset = 1,
           nMaxOutDataOffset = 4 \<rparr>"
proof -
  let ?B3 = "\<lparr> nEncBitCount = 3, nEncBitsData = 5, pOutData = 0, nOutOffset = 0,
                nMaxOutDataOffset = 4 \<rparr>"
  have inv: "bw_inv ?B3" by (simp add: bw_inv_def)
  show ?thesis
    using bitwriter_invariant [where nOutOfs = 0 and nMax = 4 and p = 0 and bw = ?B3
        and nBits = 3 and m = zero_store and nValue = 5
        and bw' = "\<lparr> nEncBitCount = 6, nEncBitsData = 45, pOutData = 0, nOutOffset = 0,
                     nMaxOutDataOffset = 4 \<rparr>"
        and m' = zero_store
        and bw'' = "\<lparr> nEncBitCount = 0, nEncBitsData = 0, pOutData = 0, nOutOffset = 1,
                      nMaxOutDataOffset = 4 \<rparr>"
        and m'' = "zero_store (0 := 5)"]
      inv put_B3_eval flush_B3_eval
    by simp
qed

end
